(* ===== verification/Prelude.thy ===== *)
theory Prelude
  imports Main "HOL-Library.Sublist"
begin

text \<open>
  Shared vocabulary of the development: the faults of the C++ program as values, the
  sequencing of fallible operations, raw memory as a list of bytes with checked access,
  the theorem collections, and the list lemmas that several components use.
\<close>

named_theorems model_defs \<open>definitions of the operations of a component\<close>
named_theorems inv_intros \<open>invariant preservation rules\<close>

section \<open>Faults and fallible operations\<close>

text \<open>
  The makefiles compile without \<^verbatim>\<open>NDEBUG\<close>, so a failing \<^verbatim>\<open>assert\<close> ends the process.
  \<open>OutOfRange\<close> stands for a memory access outside of its object, \<open>NullDeref\<close> for the use
  of a null pointer, \<open>Overflow\<close> for a signed integer overflow; all three are undefined behaviour
  in C++. \<open>Diverges\<close> is the result of a call
  that does not return, where a component needs it as a value.
\<close>

datatype fault = AssertFail | Aborted | OutOfRange | NullDeref | Overflow | Diverges

type_synonym 'a res = "fault + 'a"

fun rbind :: "'a res \<Rightarrow> ('a \<Rightarrow> 'b res) \<Rightarrow> 'b res" where
  "rbind (Inl e) f = Inl e"
| "rbind (Inr x) f = f x"

definition assert_then :: "bool \<Rightarrow> 'a res \<Rightarrow> 'a res" where
  "assert_then c r = (if c then r else Inl AssertFail)"

lemma assert_then_True [simp]: "c \<Longrightarrow> assert_then c r = r"
  by (simp add: assert_then_def)

lemma assert_then_False [simp]: "\<not> c \<Longrightarrow> assert_then c r = Inl AssertFail"
  by (simp add: assert_then_def)

lemma assert_then_Inr [iff]: "assert_then c r = Inr x \<longleftrightarrow> c \<and> r = Inr x"
  by (simp add: assert_then_def)

lemma rbind_Inr_iff: "(rbind op k = Inr v) = (\<exists>u. op = Inr u \<and> k u = Inr v)"
  by (cases op) auto

lemma rbind_cong [fundef_cong]:
  "m = m' \<Longrightarrow> (\<And>x. m' = Inr x \<Longrightarrow> f x = f' x) \<Longrightarrow> rbind m f = rbind m' f'"
  by (cases m') auto

text \<open>A fallible operation iterated over a list of arguments, left to right.\<close>

fun seq_res :: "('d \<Rightarrow> 'b \<Rightarrow> 'b res) \<Rightarrow> 'd list \<Rightarrow> 'b \<Rightarrow> 'b res" where
  "seq_res f [] b = Inr b"
| "seq_res f (d # ds) b = rbind (f d b) (seq_res f ds)"

section \<open>Memory as a list of cells\<close>

text \<open>
  \<open>mem_read m p n\<close> reads \<open>n\<close> cells from offset \<open>p\<close>, \<open>mem_write m p d\<close> stores \<open>d\<close> there;
  leaving the object is a fault, never a silently extended list.
\<close>

definition mem_read :: "'a list \<Rightarrow> nat \<Rightarrow> nat \<Rightarrow> 'a list res" where
  "mem_read m p n = (if p + n \<le> length m then Inr (take n (drop p m)) else Inl OutOfRange)"

definition mem_write :: "'a list \<Rightarrow> nat \<Rightarrow> 'a list \<Rightarrow> 'a list res" where
  "mem_write m p d =
     (if p + length d \<le> length m then Inr (take p m @ d @ drop (p + length d) m)
      else Inl OutOfRange)"

lemma mem_write_ok:
  "p + length d \<le> length m \<Longrightarrow> mem_write m p d = Inr (take p m @ d @ drop (p + length d) m)"
  by (simp add: mem_write_def)

lemma mem_write_length: "mem_write m p d = Inr m' \<Longrightarrow> length m' = length m"
  by (auto simp: mem_write_def split: if_splits)

lemma mem_read_ok: "p + n \<le> length m \<Longrightarrow> mem_read m p n = Inr (take n (drop p m))"
  by (simp add: mem_read_def)

lemma mem_read_write:
  "mem_write m p d = Inr m' \<Longrightarrow> mem_read m' p (length d) = Inr d"
  by (auto simp: mem_write_def mem_read_def split: if_splits)

section \<open>Lists\<close>

lemma slice_append:
  assumes "r \<le> w" and "w + length d \<le> length m"
  shows "take (w + length d - r) (drop r (take w m @ d @ drop (w + length d) m))
         = take (w - r) (drop r m) @ d"
proof -
  from assms have "drop r (take w m @ d @ drop (w + length d) m)
      = drop r (take w m) @ d @ drop (w + length d) m"
    by simp
  moreover from assms have "drop r (take w m) = take (w - r) (drop r m)"
    by (simp add: drop_take)
  moreover from assms have "w + length d - r = (w - r) + length d" by simp
  ultimately show ?thesis using assms by simp
qed

lemma take_append_left: "n \<le> length xs \<Longrightarrow> take n (xs @ ys) = take n xs"
  by simp

lemma drop_slice: "drop n (take (w - r) (drop r m)) = take (w - (r + n)) (drop (r + n) m)"
  by (simp add: drop_take add.commute diff_diff_left)

section \<open>Step systems\<close>

text \<open>
  The contract of every interleaving in the development: an invariant that each step keeps. The
  steps are those of all threads.
\<close>

locale step_system =
  fixes moves :: "'s \<Rightarrow> 's \<Rightarrow> bool" and good :: "'s \<Rightarrow> bool"
  assumes good_moves: "good s \<Longrightarrow> moves s t \<Longrightarrow> good t"
begin

lemma good_reach: "moves\<^sup>*\<^sup>* s t \<Longrightarrow> good s \<Longrightarrow> good t"
  by (induction rule: rtranclp_induct) (auto intro: good_moves)

end

text \<open>
  A detailed system implements an abstract one when the view of each of its steps is one or more
  steps of the abstract system, or none.
\<close>

locale step_refinement = step_system moves good for moves :: "'s \<Rightarrow> 's \<Rightarrow> bool" and good :: "'s \<Rightarrow> bool" +
  fixes view :: "'s \<Rightarrow> 't" and amoves :: "'t \<Rightarrow> 't \<Rightarrow> bool"
  assumes simulates: "good s \<Longrightarrow> moves s t \<Longrightarrow> amoves\<^sup>*\<^sup>* (view s) (view t)"
begin

lemma view_reach:
  assumes "moves\<^sup>*\<^sup>* s t" and "good s"
  shows "amoves\<^sup>*\<^sup>* (view s) (view t)"
  using assms(1)
proof (induction rule: rtranclp_induct)
  case (step t u)
  from simulates[OF good_reach[OF step.hyps(1) assms(2)] step.hyps(2)] step.IH show ?case
    by (rule rtranclp_trans[rotated])
qed simp

end

section \<open>Channels that keep order\<close>

text \<open>
  The contract of everything in the program that takes items in one place and passes them on in
  another: the queue of functions of a loop, the task queue of the pool, the output of a connection.
  \<open>put\<close>, \<open>got\<close> and \<open>held\<close> are the items taken, passed on and still inside.
\<close>

locale fifo_channel = step_system moves good for moves :: "'s \<Rightarrow> 's \<Rightarrow> bool" and good :: "'s \<Rightarrow> bool" +
  fixes put :: "'s \<Rightarrow> 'a list" and got :: "'s \<Rightarrow> 'a list" and held :: "'s \<Rightarrow> 'a list"
  assumes conserves: "good s \<Longrightarrow> got s @ held s = put s"
    and put_grows: "good s \<Longrightarrow> moves s t \<Longrightarrow> prefix (put s) (put t)"
    and got_grows: "good s \<Longrightarrow> moves s t \<Longrightarrow> prefix (got s) (got t)"
begin

lemma got_prefix: "good s \<Longrightarrow> prefix (got s) (put s)"
  using conserves by (metis prefixI)

lemma accounted: "good s \<Longrightarrow> count_list (put s) x = count_list (got s) x + count_list (held s) x"
  using conserves by (metis count_list_append)

lemma reach: "moves\<^sup>*\<^sup>* s t \<Longrightarrow> good s \<Longrightarrow> good t \<and> prefix (put s) (put t) \<and> prefix (got s) (got t)"
proof (induction rule: rtranclp_induct)
  case (step t u)
  then show ?case using good_moves got_grows put_grows by (meson prefix_order.trans)
qed simp

lemma first_in_first_out:
  assumes "moves\<^sup>*\<^sup>* s t" and "good s" and "length (put s) \<le> length (got t)"
  shows "prefix (put s) (got t)"
proof -
  have "prefix (put s) (put t)" and "prefix (got t) (put t)"
    using reach[OF assms(1,2)] got_prefix by blast+
  then show ?thesis using assms(3) prefix_length_prefix by blast
qed

end

end
