(* ===== verification/CLib.thy ===== *)
theory CLib
  imports Prelude "HOL-Library.Char_ord" "HOL-Library.List_Lexorder"
begin

text \<open>
  What the program uses of the C and C++ standard libraries: \<^verbatim>\<open>std::find\<close>,
  \<^verbatim>\<open>std::search\<close>, decimal formatting (\<^verbatim>\<open>std::to_string\<close>, \<^verbatim>\<open>%d\<close> and
  \<^verbatim>\<open>%zd\<close> of \<^verbatim>\<open>snprintf\<close>), \<^verbatim>\<open>isspace\<close>, \<^verbatim>\<open>strncmp\<close>, and
  \<^verbatim>\<open>std::map<std::string, _>\<close> as an association list in key order, the order in which
  the program iterates over it. A \<^verbatim>\<open>std::string\<close> is a list of bytes.
\<close>

section \<open>Searching\<close>

text \<open>The offset of the first occurrence, the length (\<^verbatim>\<open>end\<close>) when there is none.\<close>

definition std_find :: "'a \<Rightarrow> 'a list \<Rightarrow> nat" where
  "std_find c xs = length (takeWhile (\<lambda>x. x \<noteq> c) xs)"

lemma std_find_le [simp]: "std_find c xs \<le> length xs"
  by (simp add: std_find_def length_takeWhile_le)

lemma std_find_iff: "std_find c xs = length xs \<longleftrightarrow> c \<notin> set xs"
  by (induction xs) (auto simp: std_find_def)

lemma std_find_first: "c \<notin> set xs \<Longrightarrow> std_find c (xs @ c # ys) = length xs"
  by (induction xs) (auto simp: std_find_def)

lemma std_find_nth: "std_find c xs < length xs \<Longrightarrow> xs ! std_find c xs = c"
  by (induction xs) (auto simp: std_find_def split: if_splits)

lemma std_find_before: "c \<notin> set (take (std_find c xs) xs)"
  by (induction xs) (auto simp: std_find_def)

fun std_search :: "'a list \<Rightarrow> 'a list \<Rightarrow> nat" where
  "std_search pat [] = 0"
| "std_search pat (x # xs) = (if prefix pat (x # xs) then 0 else Suc (std_search pat xs))"

lemma std_search_le [simp]: "std_search pat xs \<le> length xs"
  by (induction xs) auto

lemma std_search_hit:
  "pat \<noteq> [] \<Longrightarrow> std_search pat xs < length xs \<Longrightarrow> prefix pat (drop (std_search pat xs) xs)"
  by (induction xs) (auto split: if_splits)

lemma std_search_least:
  "i < std_search pat xs \<Longrightarrow> \<not> prefix pat (drop i xs)"
proof (induction xs arbitrary: i)
  case Nil
  then show ?case by simp
next
  case (Cons x xs)
  then show ?case by (cases i) (auto split: if_splits)
qed

lemma std_search_bound:
  assumes "prefix pat (drop i xs)" and "pat \<noteq> []"
  shows "std_search pat xs \<le> i" and "std_search pat xs < length xs"
proof -
  show le: "std_search pat xs \<le> i"
    using assms(1) std_search_least[of i pat xs] by (meson not_le)
  from assms have "drop i xs \<noteq> []" by auto
  with le show "std_search pat xs < length xs" by simp
qed

lemma std_search_eqI:
  assumes "prefix pat (drop i xs)" and "pat \<noteq> []" and "\<And>j. j < i \<Longrightarrow> \<not> prefix pat (drop j xs)"
  shows "std_search pat xs = i"
proof -
  have "std_search pat xs \<le> i" and "std_search pat xs < length xs"
    using std_search_bound[OF assms(1,2)] by auto
  moreover have "\<not> std_search pat xs < i"
    using std_search_hit[OF assms(2) \<open>std_search pat xs < length xs\<close>] assms(3) by blast
  ultimately show ?thesis by simp
qed

section \<open>Decimal numbers\<close>

definition digit_char :: "nat \<Rightarrow> char" where
  "digit_char d = char_of (48 + d)"

lemma digit_char_eval [simp]:
  "digit_char 0 = CHR ''0''" "digit_char (Suc 0) = CHR ''1''" "digit_char 1 = CHR ''1''"
  "digit_char 2 = CHR ''2''" "digit_char 3 = CHR ''3''" "digit_char 4 = CHR ''4''"
  "digit_char 5 = CHR ''5''" "digit_char 6 = CHR ''6''" "digit_char 7 = CHR ''7''"
  "digit_char 8 = CHR ''8''" "digit_char 9 = CHR ''9''"
  by code_simp+

fun dec_nat :: "nat \<Rightarrow> string" where
  "dec_nat n = (if n < 10 then [digit_char n] else dec_nat (n div 10) @ [digit_char (n mod 10)])"

declare dec_nat.simps [simp del]

definition dec_int :: "int \<Rightarrow> string" where
  "dec_int i = (if i < 0 then CHR ''-'' # dec_nat (nat (- i)) else dec_nat (nat i))"

text \<open>The value of a string of digits, the inverse of \<open>dec_nat\<close>.\<close>

definition char_digit :: "char \<Rightarrow> nat" where
  "char_digit c = of_char c - 48"

definition undec :: "string \<Rightarrow> nat" where
  "undec s = foldl (\<lambda>a c. 10 * a + char_digit c) 0 s"

lemma char_digit_digit_char [simp]: "d < 10 \<Longrightarrow> char_digit (digit_char d) = d"
  by (simp add: char_digit_def digit_char_def)

lemma undec_snoc: "undec (s @ [c]) = 10 * undec s + char_digit c"
  by (simp add: undec_def)

lemma undec_dec_nat [simp]: "undec (dec_nat n) = n"
proof (induction n rule: dec_nat.induct)
  case (1 n)
  show ?case
  proof (cases "n < 10")
    case True
    then show ?thesis by (subst dec_nat.simps) (simp add: undec_def)
  next
    case False
    with 1 show ?thesis by (subst dec_nat.simps) (simp add: undec_snoc)
  qed
qed

lemma dec_nat_inj [simp]: "dec_nat m = dec_nat n \<longleftrightarrow> m = n"
  by (metis undec_dec_nat)

lemma dec_nat_nonempty [simp]: "dec_nat n \<noteq> []"
  by (subst dec_nat.simps) simp

lemma dec_nat_digits: "c \<in> set (dec_nat n) \<Longrightarrow> \<exists>d<10. c = digit_char d"
proof (induction n rule: dec_nat.induct)
  case (1 n)
  show ?case
  proof (cases "n < 10")
    case True
    with "1.prems" show ?thesis by (subst (asm) dec_nat.simps) auto
  next
    case False
    with "1.prems" have "c \<in> set (dec_nat (n div 10)) \<or> c = digit_char (n mod 10)"
      by (subst (asm) dec_nat.simps) auto
    moreover have "n mod 10 < 10" by simp
    ultimately show ?thesis using "1.IH"[OF False] by blast
  qed
qed

lemma length_dec_nat_le: "n < 10 ^ k \<Longrightarrow> 0 < k \<Longrightarrow> length (dec_nat n) \<le> k"
proof (induction k arbitrary: n)
  case 0
  then show ?case by simp
next
  case (Suc k)
  show ?case
  proof (cases "n < 10")
    case True
    then show ?thesis by (subst dec_nat.simps) simp
  next
    case False
    with Suc.prems have "0 < k" by (cases k) auto
    moreover have "n div 10 < 10 ^ k" using Suc.prems by (simp add: less_mult_imp_div_less mult.commute)
    ultimately have "length (dec_nat (n div 10)) \<le> k" by (rule Suc.IH[rotated])
    with False show ?thesis by (subst dec_nat.simps) simp
  qed
qed

text \<open>\<^verbatim>\<open>snprintf\<close> into \<open>cap\<close> bytes keeps at most \<open>cap - 1\<close> characters.\<close>

definition snprintf_keep :: "nat \<Rightarrow> string \<Rightarrow> string" where
  "snprintf_keep cap s = take (cap - 1) s"

lemma snprintf_keep_id: "length s < cap \<Longrightarrow> snprintf_keep cap s = s"
  by (simp add: snprintf_keep_def)

section \<open>Characters and C strings\<close>

text \<open>\<^verbatim>\<open>isspace\<close> of the C locale: space, and the control characters 9 to 13.\<close>

definition isspace :: "char \<Rightarrow> bool" where
  "isspace c = (c = CHR '' '' \<or> (9 \<le> (of_char c :: nat) \<and> of_char c \<le> (13 :: nat)))"

text \<open>
  \<^verbatim>\<open>strncmp(s, t, n)\<close> compares at most \<open>n\<close> bytes and stops after a byte that is zero
  in both; the model is its zero test. \<open>s\<close> is the memory at the first pointer, the second
  argument is a literal with its terminating zero byte.
\<close>

fun strncmp_eq :: "string \<Rightarrow> string \<Rightarrow> nat \<Rightarrow> bool" where
  "strncmp_eq s t 0 = True"
| "strncmp_eq (a # s) (b # t) (Suc n) =
     (a = b \<and> (a = CHR 0x00 \<or> strncmp_eq s t n))"
| "strncmp_eq s t (Suc n) = (s = [] \<and> t = [])"

definition CR :: char where "CR = CHR 0x0D"
definition LF :: char where "LF = CHR 0x0A"

definition crlf :: string where
  "crlf = [CR, LF]"

lemma CR_neq_LF [simp]: "CR \<noteq> LF" "LF \<noteq> CR"
  by (simp_all add: CR_def LF_def)

lemma of_char_digit: "d < 10 \<Longrightarrow> of_char (digit_char d) = (48 + d :: nat)"
  by (simp add: digit_char_def)

lemma digit_neq_LF: "d < 10 \<Longrightarrow> digit_char d \<noteq> LF"
proof
  assume "d < 10" and "digit_char d = LF"
  then have "(48 + d :: nat) = of_char LF" using of_char_digit[of d] by simp
  then show False by (simp add: LF_def)
qed

lemma digit_not_space: "d < 10 \<Longrightarrow> \<not> isspace (digit_char d)"
proof
  assume d: "d < 10" and sp: "isspace (digit_char d)"
  have "digit_char d \<noteq> CHR '' ''"
  proof
    assume "digit_char d = CHR '' ''"
    then have "(48 + d :: nat) = of_char (CHR '' '')" using of_char_digit[OF d] by simp
    then show False by simp
  qed
  with d sp show False by (simp add: isspace_def of_char_digit)
qed

lemma dec_nat_plain:
  assumes "c \<in> set (dec_nat n)"
  shows "c \<noteq> LF" and "\<not> isspace c"
  using dec_nat_digits[OF assms] digit_neq_LF digit_not_space by auto

section \<open>\<^verbatim>\<open>std::map\<close> with string keys\<close>

type_synonym 'v smap = "(string \<times> 'v) list"

definition smap_inv :: "'v smap \<Rightarrow> bool" where
  "smap_inv m = (sorted (map fst m) \<and> distinct (map fst m))"

text \<open>\<^verbatim>\<open>m[k] = v\<close>\<close>

fun smap_put :: "string \<Rightarrow> 'v \<Rightarrow> 'v smap \<Rightarrow> 'v smap" where
  "smap_put k v [] = [(k, v)]"
| "smap_put k v ((k', v') # m) =
     (if k = k' then (k, v) # m
      else if k < k' then (k, v) # (k', v') # m
      else (k', v') # smap_put k v m)"

text \<open>\<^verbatim>\<open>m.find(k)\<close>, with None for \<^verbatim>\<open>end()\<close>.\<close>

definition smap_get :: "'v smap \<Rightarrow> string \<Rightarrow> 'v option" where
  "smap_get m k = map_of m k"

text \<open>\<^verbatim>\<open>m.insert(pair)\<close> does not overwrite; \<^verbatim>\<open>m.erase(k)\<close> returns how many it removed.\<close>

definition smap_insert :: "string \<Rightarrow> 'v \<Rightarrow> 'v smap \<Rightarrow> 'v smap" where
  "smap_insert k v m = (if smap_get m k = None then smap_put k v m else m)"

definition smap_erase :: "string \<Rightarrow> 'v smap \<Rightarrow> 'v smap \<times> nat" where
  "smap_erase k m = (filter (\<lambda>p. fst p \<noteq> k) m, length (filter (\<lambda>p. fst p = k) m))"

lemma set_smap_put: "fst ` set (smap_put k v m) = insert k (fst ` set m)"
  by (induction k v m rule: smap_put.induct) auto

lemma smap_put_inv: "smap_inv m \<Longrightarrow> smap_inv (smap_put k v m)"
proof (induction k v m rule: smap_put.induct)
  case (1 k v)
  then show ?case by (simp add: smap_inv_def)
next
  case (2 k v k' v' m)
  then show ?case
    using set_smap_put[of k v m]
    by (auto simp: smap_inv_def)
qed

lemma map_of_smap_put: "smap_inv m \<Longrightarrow> map_of (smap_put k v m) = (map_of m)(k \<mapsto> v)"
  by (induction k v m rule: smap_put.induct) (auto simp: smap_inv_def fun_eq_iff)

lemma map_of_filter_neq: "map_of (filter (\<lambda>p. fst p \<noteq> k) m) = (map_of m)(k := None)"
  by (induction m) (auto simp: fun_eq_iff)

lemma sorted_map_fst_filter: "sorted (map fst m) \<Longrightarrow> sorted (map fst (filter P m))"
  by (induction m) auto

lemma distinct_map_fst_filter: "distinct (map fst m) \<Longrightarrow> distinct (map fst (filter P m))"
  by (induction m) auto

lemma smap_erase_inv: "smap_inv m \<Longrightarrow> smap_inv (fst (smap_erase k m))"
  by (simp add: smap_inv_def smap_erase_def sorted_map_fst_filter distinct_map_fst_filter)

lemma smap_erase_count:
  "distinct (map fst m) \<Longrightarrow> length (filter (\<lambda>p. fst p = k) m) = (if map_of m k = None then 0 else 1)"
proof (induction m)
  case Nil
  then show ?case by simp
next
  case (Cons p m)
  then show ?case
    by (cases p) (auto simp: map_of_eq_None_iff filter_empty_conv image_iff)
qed

text \<open>The interface of an ordered string map and its implementation.\<close>

locale string_map =
  fixes minv :: "'m \<Rightarrow> bool"
    and look :: "'m \<Rightarrow> string \<Rightarrow> 'v option"
    and put :: "string \<Rightarrow> 'v \<Rightarrow> 'm \<Rightarrow> 'm"
    and emp :: 'm
  assumes emp_inv: "minv emp"
    and look_emp: "look emp k = None"
    and put_inv: "minv m \<Longrightarrow> minv (put k v m)"
    and look_put: "minv m \<Longrightarrow> look (put k v m) k' = (if k' = k then Some v else look m k')"
begin

lemma look_put_same [simp]: "minv m \<Longrightarrow> look (put k v m) k = Some v"
  by (simp add: look_put)

lemma look_put_other [simp]: "minv m \<Longrightarrow> k' \<noteq> k \<Longrightarrow> look (put k v m) k' = look m k'"
  by (simp add: look_put)

lemma puts_inv: "minv m \<Longrightarrow> minv (foldl (\<lambda>m kv. put (fst kv) (snd kv) m) m kvs)"
  by (induction kvs arbitrary: m) (auto intro: put_inv)

lemma look_puts:
  "minv m \<Longrightarrow> look (foldl (\<lambda>m kv. put (fst kv) (snd kv) m) m kvs) k
     = (case map_of (rev kvs) k of Some v \<Rightarrow> Some v | None \<Rightarrow> look m k)"
  by (induction kvs arbitrary: m)
    (auto simp: put_inv look_put map_add_def split: option.splits)

end

interpretation smap: string_map "smap_inv :: 'v smap \<Rightarrow> bool" smap_get smap_put "[]"
  by unfold_locales (auto simp: smap_inv_def [of "[]"] smap_put_inv smap_get_def map_of_smap_put)

end
