(* ===== verification/Buffer.thy ===== *)
theory Buffer
  imports CLib
begin

text \<open>
  \<^verbatim>\<open>utility/buffer.h\<close> and \<^verbatim>\<open>utility/buffer.cc\<close>: the byte buffer of a connection.
  A vector of bytes with a read and a write index; the bytes between the two are the
  payload, and the eight bytes before \<open>kBufBegin\<close> are never used. Pointers into the buffer
  are offsets: \<^verbatim>\<open>peek()\<close> is offset \<open>0\<close> of the payload. Every access to the vector is
  checked (\<open>mem_read\<close>, \<open>mem_write\<close>), so a proof that an operation returns \<open>Inr\<close> is a
  proof that it stays inside the vector. \<^verbatim>\<open>size_t\<close> is \<open>nat\<close>: the subtractions of the code
  never go below zero under the invariant, and sizes are bounded by the memory.
\<close>

definition kBufBegin :: nat where "kBufBegin = 8"
definition kDefaultSize :: nat where "kDefaultSize = 256"
definition kExtraBuf :: nat where "kExtraBuf = 4096"

record buffer =
  store :: "char list"
  read_index :: nat
  write_index :: nat

definition buffer_init :: buffer where
  "buffer_init = \<lparr>store = replicate (kBufBegin + kDefaultSize) (CHR 0x00),
     read_index = kBufBegin, write_index = kBufBegin\<rparr>"

definition payload_size :: "buffer \<Rightarrow> nat" where
  "payload_size b = write_index b - read_index b"

definition remain_size :: "buffer \<Rightarrow> nat" where
  "remain_size b = length (store b) - write_index b"

text \<open>The bytes at \<^verbatim>\<open>peek()\<close>, \<^verbatim>\<open>payload_size()\<close> of them: what the buffer holds.\<close>

definition payload :: "buffer \<Rightarrow> string" where
  "payload b = take (payload_size b) (drop (read_index b) (store b))"

definition buf_inv :: "buffer \<Rightarrow> bool" where
  "buf_inv b = (kBufBegin \<le> read_index b \<and> read_index b \<le> write_index b
     \<and> write_index b \<le> length (store b))"

section \<open>Operations\<close>

definition move_read_index_all :: "buffer \<Rightarrow> buffer" where
  "move_read_index_all b = b\<lparr>read_index := kBufBegin, write_index := kBufBegin\<rparr>"

definition move_read_index :: "nat \<Rightarrow> buffer \<Rightarrow> buffer res" where
  "move_read_index len b = assert_then (len \<le> payload_size b)
     (Inr (b\<lparr>read_index := read_index b + len\<rparr>))"

text \<open>\<open>p\<close> is the offset of the pointer \<^verbatim>\<open>end\<close> from \<^verbatim>\<open>peek()\<close>, negative if it is before it.\<close>

definition move_read_index_until :: "int \<Rightarrow> buffer \<Rightarrow> buffer res" where
  "move_read_index_until p b =
     assert_then (p \<le> int (payload_size b)) (assert_then (0 \<le> p) (move_read_index (nat p) b))"

definition GetString :: "buffer \<Rightarrow> (string \<times> buffer) res" where
  "GetString b = rbind (mem_read (store b) (read_index b) (payload_size b))
     (\<lambda>s. Inr (s, move_read_index_all b))"

definition GetStringNoMove :: "buffer \<Rightarrow> string res" where
  "GetStringNoMove b = mem_read (store b) (read_index b) (payload_size b)"

text \<open>The read index moves before \<^verbatim>\<open>peek()\<close> is called, as in the source.\<close>

definition GetCharStr :: "nat \<Rightarrow> buffer \<Rightarrow> (string \<times> buffer) res" where
  "GetCharStr len b =
     (let min_len = (if len > payload_size b then payload_size b else len);
          b' = b\<lparr>read_index := read_index b + min_len\<rparr>
      in rbind (mem_read (store b') (read_index b') len) (\<lambda>data. Inr (data, b')))"

definition vector_resize :: "nat \<Rightarrow> char list \<Rightarrow> char list" where
  "vector_resize n v = take n v @ replicate (n - length v) (CHR 0x00)"

definition Resize :: "nat \<Rightarrow> buffer \<Rightarrow> buffer res" where
  "Resize len b =
     (if read_index b - kBufBegin + remain_size b < len
      then Inr (b\<lparr>store := vector_resize (write_index b + len) (store b)\<rparr>)
      else
        let p_size = payload_size b
        in rbind (mem_read (store b) (read_index b) p_size) (\<lambda>data.
           rbind (mem_write (store b) kBufBegin data) (\<lambda>v.
           Inr (b\<lparr>store := v, read_index := kBufBegin, write_index := kBufBegin + p_size\<rparr>))))"

definition Append :: "string \<Rightarrow> buffer \<Rightarrow> buffer res" where
  "Append data b =
     rbind (if remain_size b < length data then Resize (length data) b else Inr b) (\<lambda>b1.
     rbind (mem_write (store b1) (write_index b1) data) (\<lambda>v.
     Inr (b1\<lparr>store := v, write_index := write_index b1 + length data\<rparr>)))"

text \<open>
  \<^verbatim>\<open>readv\<close> is the kernel's: given the lengths of the blocks it returns an error number or
  the bytes it read, which it has spread over the blocks in order. The result is the pair of
  the return value (\<open>Inl\<close> the saved error number) and the new buffer.
\<close>

definition read_iov :: "buffer \<Rightarrow> nat list" where
  "read_iov b = (if remain_size b < kExtraBuf then [remain_size b, kExtraBuf] else [remain_size b])"

definition readFd :: "(nat list \<Rightarrow> int + string) \<Rightarrow> buffer \<Rightarrow> ((int + nat) \<times> buffer) res" where
  "readFd readv b =
     (let writable = remain_size b
      in case readv (read_iov b) of
           Inl err \<Rightarrow> Inr (Inl err, b)
         | Inr bytes \<Rightarrow>
             rbind (mem_write (store b) (write_index b) (take writable bytes)) (\<lambda>v.
             if length bytes \<le> writable
             then Inr (Inr (length bytes),
                       b\<lparr>store := v, write_index := write_index b + length bytes\<rparr>)
             else rbind (Append (drop writable bytes)
                           (b\<lparr>store := v, write_index := length v\<rparr>)) (\<lambda>b'.
                  Inr (Inr (length bytes), b'))))"

definition findCRLF :: "buffer \<Rightarrow> nat option" where
  "findCRLF b = (let p = std_search crlf (payload b)
                 in if p = payload_size b then None else Some p)"

definition findCRLF_from :: "int \<Rightarrow> buffer \<Rightarrow> nat option res" where
  "findCRLF_from start b =
     assert_then (0 \<le> start) (assert_then (start \<le> int (payload_size b))
       (let p = nat start + std_search crlf (drop (nat start) (payload b))
        in Inr (if p = payload_size b then None else Some p)))"

section \<open>The buffer is a queue of bytes\<close>

lemma buffer_init_inv [simp]: "buf_inv buffer_init"
  by (simp add: buf_inv_def buffer_init_def)

lemma payload_init [simp]: "payload buffer_init = []"
  by (simp add: payload_def payload_size_def buffer_init_def)

lemma length_payload: "buf_inv b \<Longrightarrow> length (payload b) = payload_size b"
  by (auto simp: buf_inv_def payload_def payload_size_def)

lemma payload_all [simp]: "payload (move_read_index_all b) = []"
  by (simp add: payload_def payload_size_def move_read_index_all_def)

lemma move_read_index_all_inv: "buf_inv b \<Longrightarrow> buf_inv (move_read_index_all b)"
  by (auto simp: buf_inv_def move_read_index_all_def)

lemma move_read_index_spec:
  assumes "buf_inv b" and "n \<le> length (payload b)"
  shows "\<exists>b'. move_read_index n b = Inr b' \<and> buf_inv b' \<and> payload b' = drop n (payload b)"
  using assms
  by (auto simp: move_read_index_def length_payload buf_inv_def payload_def payload_size_def
      drop_slice diff_diff_left)

lemma move_read_index_fails:
  "buf_inv b \<Longrightarrow> length (payload b) < n \<Longrightarrow> move_read_index n b = Inl AssertFail"
  by (simp add: move_read_index_def length_payload)

lemma mem_read_payload:
  "buf_inv b \<Longrightarrow> mem_read (store b) (read_index b) (payload_size b) = Inr (payload b)"
  by (simp add: mem_read_def payload_def payload_size_def buf_inv_def)

lemma GetString_spec: "buf_inv b \<Longrightarrow> GetString b = Inr (payload b, move_read_index_all b)"
  by (simp add: GetString_def mem_read_payload)

lemma GetStringNoMove_spec: "buf_inv b \<Longrightarrow> GetStringNoMove b = Inr (payload b)"
  by (simp add: GetStringNoMove_def mem_read_payload)

text \<open>After \<^verbatim>\<open>Resize(len)\<close> there is room for \<open>len\<close> bytes and the payload is what it was.\<close>

lemma Resize_grow:
  assumes "buf_inv b"
  shows "buf_inv (b\<lparr>store := vector_resize (write_index b + len) (store b)\<rparr>)"
    and "remain_size b < len \<Longrightarrow>
      payload (b\<lparr>store := vector_resize (write_index b + len) (store b)\<rparr>) = payload b"
    and "len \<le> remain_size (b\<lparr>store := vector_resize (write_index b + len) (store b)\<rparr>)"
  using assms
  by (auto simp: buf_inv_def vector_resize_def remain_size_def payload_def payload_size_def)

lemma Resize_shift:
  assumes "buf_inv b"
  shows "\<exists>v. mem_write (store b) kBufBegin (payload b) = Inr v \<and> length v = length (store b)
      \<and> take (payload_size b) (drop kBufBegin v) = payload b"
proof -
  have l: "length (payload b) = payload_size b" using assms by (rule length_payload)
  have fit: "kBufBegin + length (payload b) \<le> length (store b)"
    using assms l by (auto simp: buf_inv_def payload_size_def)
  then obtain v where v: "mem_write (store b) kBufBegin (payload b) = Inr v"
    by (simp add: mem_write_def)
  then have "length v = length (store b)" by (rule mem_write_length)
  moreover have "take (payload_size b) (drop kBufBegin v) = payload b"
    using mem_read_write[OF v] l by (auto simp: mem_read_def split: if_splits)
  ultimately show ?thesis using v by blast
qed

lemma Resize_spec:
  assumes inv: "buf_inv b" and full: "remain_size b < len"
  shows "\<exists>b'. Resize len b = Inr b' \<and> buf_inv b' \<and> payload b' = payload b \<and> len \<le> remain_size b'"
proof (cases "read_index b - kBufBegin + remain_size b < len")
  case True
  then show ?thesis using Resize_grow[OF inv, of len] full by (auto simp: Resize_def)
next
  case False
  from Resize_shift[OF inv] obtain v where
    v: "mem_write (store b) kBufBegin (payload b) = Inr v" "length v = length (store b)"
    and pl: "take (payload_size b) (drop kBufBegin v) = payload b" by blast
  let ?b = "b\<lparr>store := v, read_index := kBufBegin, write_index := kBufBegin + payload_size b\<rparr>"
  have "Resize len b = Inr ?b"
    using False v by (simp add: Resize_def mem_read_payload[OF inv])
  moreover have "buf_inv ?b"
    using inv v by (auto simp: buf_inv_def payload_size_def)
  moreover have "payload ?b = payload b"
    using pl by (simp add: payload_def payload_size_def)
  moreover have "len \<le> remain_size ?b"
    using False v inv by (auto simp: remain_size_def buf_inv_def payload_size_def)
  ultimately show ?thesis by blast
qed

lemma write_fits:
  assumes "buf_inv b" and "length d \<le> remain_size b"
  shows "\<exists>v. mem_write (store b) (write_index b) d = Inr v
     \<and> buf_inv (b\<lparr>store := v, write_index := write_index b + length d\<rparr>)
     \<and> payload (b\<lparr>store := v, write_index := write_index b + length d\<rparr>) = payload b @ d"
  using assms slice_append[of "read_index b" "write_index b" d "store b"]
  by (auto simp: buf_inv_def remain_size_def mem_write_def payload_def payload_size_def)

lemma Append_spec:
  assumes "buf_inv b"
  shows "\<exists>b'. Append data b = Inr b' \<and> buf_inv b' \<and> payload b' = payload b @ data"
proof -
  have "\<exists>b1. (if remain_size b < length data then Resize (length data) b else Inr b) = Inr b1
      \<and> buf_inv b1 \<and> payload b1 = payload b \<and> length data \<le> remain_size b1"
    using assms Resize_spec[OF assms, of "length data"] by (auto simp: not_less)
  then obtain b1 where
    r: "(if remain_size b < length data then Resize (length data) b else Inr b) = Inr b1"
    and b1: "buf_inv b1" "payload b1 = payload b" "length data \<le> remain_size b1" by blast
  from write_fits[OF b1(1,3)] b1(2) r show ?thesis by (auto simp: Append_def)
qed

text \<open>
  \<^verbatim>\<open>Buffer::Append\<close> never writes outside of the vector, keeps the index invariant
  and adds exactly the given bytes at the end of the payload, on all three of its paths: room
  at the end, moving the payload to the front, and growing the vector.
\<close>

theorem Append_correct:
  assumes "buf_inv b"
  shows "\<exists>b'. Append data b = Inr b' \<and> buf_inv b' \<and> payload b' = payload b @ data"
  using assms by (rule Append_spec)

text \<open>The interface of a byte queue, and what a client of it can rely on.\<close>

locale byte_queue =
  fixes qinv :: "'b \<Rightarrow> bool"
    and contents :: "'b \<Rightarrow> string"
    and enq :: "string \<Rightarrow> 'b \<Rightarrow> 'b res"
    and deq :: "nat \<Rightarrow> 'b \<Rightarrow> 'b res"
  assumes enq_ok: "qinv b \<Longrightarrow> \<exists>b'. enq d b = Inr b' \<and> qinv b' \<and> contents b' = contents b @ d"
    and deq_ok: "qinv b \<Longrightarrow> n \<le> length (contents b) \<Longrightarrow>
      \<exists>b'. deq n b = Inr b' \<and> qinv b' \<and> contents b' = drop n (contents b)"
    and deq_over: "qinv b \<Longrightarrow> length (contents b) < n \<Longrightarrow> deq n b = Inl AssertFail"
begin

lemma enqE:
  assumes "qinv b"
  obtains b' where "enq d b = Inr b'" "qinv b'" "contents b' = contents b @ d"
  using enq_ok[OF assms] by blast

lemma enqD: "qinv b \<Longrightarrow> enq d b = Inr b' \<Longrightarrow> qinv b' \<and> contents b' = contents b @ d"
  using enq_ok[of b d] by auto

lemma deqD:
  "qinv b \<Longrightarrow> deq n b = Inr b' \<Longrightarrow>
     n \<le> length (contents b) \<and> qinv b' \<and> contents b' = drop n (contents b)"
  using deq_ok[of b n] deq_over[of b n] by (cases "n \<le> length (contents b)") auto

lemma enq_seq:
  "qinv b \<Longrightarrow> \<exists>b'. seq_res enq ds b = Inr b' \<and> qinv b' \<and> contents b' = contents b @ concat ds"
proof (induction ds arbitrary: b)
  case Nil
  then show ?case by simp
next
  case (Cons d ds)
  obtain b1 where b1: "enq d b = Inr b1" "qinv b1" "contents b1 = contents b @ d"
    using enqE[OF Cons.prems] .
  from Cons.IH[OF b1(2)] b1 show ?case by auto
qed

lemma enq_then_deq:
  assumes "qinv b" and "contents b = []"
  shows "\<exists>b1 b2. enq (d @ e) b = Inr b1 \<and> deq (length d) b1 = Inr b2 \<and> qinv b2 \<and> contents b2 = e"
proof -
  obtain b1 where b1: "enq (d @ e) b = Inr b1" "qinv b1" "contents b1 = contents b @ d @ e"
    using enqE[OF assms(1)] .
  with assms(2) deq_ok[of b1 "length d"] show ?thesis by auto
qed

end

interpretation bq: byte_queue buf_inv payload Append move_read_index
  by unfold_locales (auto intro: Append_spec move_read_index_spec move_read_index_fails)

section \<open>Reading from the kernel\<close>

lemma take_length_le: "length (take n xs) \<le> n"
  by simp

text \<open>What \<^verbatim>\<open>readv(2)\<close> documents: it returns at most as many bytes as the blocks hold.\<close>

definition readv_ok :: "(nat list \<Rightarrow> int + string) \<Rightarrow> bool" where
  "readv_ok readv = (\<forall>iov bytes. readv iov = Inr bytes \<longrightarrow> length bytes \<le> sum_list iov)"

lemma readFd_spec:
  assumes inv: "buf_inv b"
    and kernel: "readv_ok readv"
  shows "case readv (read_iov b) of
      Inl err \<Rightarrow> readFd readv b = Inr (Inl err, b)
    | Inr bytes \<Rightarrow> \<exists>b'. readFd readv b = Inr (Inr (length bytes), b')
        \<and> buf_inv b' \<and> payload b' = payload b @ bytes"
proof (cases "readv (read_iov b)")
  case (Inl err)
  then show ?thesis by (simp add: readFd_def)
next
  case (Inr bytes)
  let ?w = "remain_size b"
  from write_fits[OF inv take_length_le] obtain v where
    v: "mem_write (store b) (write_index b) (take ?w bytes) = Inr v"
    and b1: "buf_inv (b\<lparr>store := v, write_index := write_index b + length (take ?w bytes)\<rparr>)"
      "payload (b\<lparr>store := v, write_index := write_index b + length (take ?w bytes)\<rparr>)
         = payload b @ take ?w bytes"
    by blast
  show ?thesis
  proof (cases "length bytes \<le> ?w")
    case True
    with v b1 Inr show ?thesis by (simp add: readFd_def)
  next
    case False
    have "length v = write_index b + ?w"
      using mem_write_length[OF v] inv by (simp add: remain_size_def buf_inv_def)
    with b1 False have "buf_inv (b\<lparr>store := v, write_index := length v\<rparr>)"
      "payload (b\<lparr>store := v, write_index := length v\<rparr>) = payload b @ take ?w bytes"
      by simp_all
    from bq.enq_ok[OF this(1), of "drop ?w bytes"] this(2) False v Inr show ?thesis
      by (auto simp: readFd_def)
  qed
qed

text \<open>
  Claim C24. \<^verbatim>\<open>Buffer::readFd\<close>, for every kernel that returns at most as many bytes as
  the blocks it was given hold (what \<^verbatim>\<open>readv(2)\<close> documents): no write leaves the vector,
  and the payload grows by exactly the bytes the kernel delivered, also when they spill into the
  4096 byte block on the stack; after an error the buffer is unchanged.
\<close>

theorem readFd_correct:
  assumes inv: "buf_inv b"
    and kernel: "readv_ok readv"
  shows "case readv (read_iov b) of
      Inl err \<Rightarrow> readFd readv b = Inr (Inl err, b)
    | Inr bytes \<Rightarrow> \<exists>b'. readFd readv b = Inr (Inr (length bytes), b')
        \<and> buf_inv b' \<and> payload b' = payload b @ bytes"
  using assms by (rule readFd_spec)

definition demo_readv :: "nat list \<Rightarrow> int + string" where
  "demo_readv iov = (if 2 \<le> sum_list iov then Inr ''hi'' else Inr [])"

theorem readFd_correct_witness:
  "\<exists>b'. readFd demo_readv buffer_init = Inr (Inr 2, b') \<and> payload b' = ''hi''"
proof -
  have k: "readv_ok demo_readv"
    by (auto simp: readv_ok_def demo_readv_def split: if_splits)
  have r: "demo_readv (read_iov buffer_init) = Inr ''hi''"
    by (simp add: demo_readv_def read_iov_def kExtraBuf_def)
  show ?thesis using readFd_correct[OF buffer_init_inv, of demo_readv] k r by (auto split: sum.splits)
qed

theorem Append_correct_witness:
  "\<exists>b'. Append ''GET'' buffer_init = Inr b' \<and> payload b' = ''GET''"
  using Append_correct[OF buffer_init_inv, of "''GET''"] by auto

section \<open>Finding the end of a line\<close>

lemma crlf_neq_Nil [simp]: "crlf \<noteq> []"
  by (simp add: crlf_def)

lemma findCRLF_SomeD:
  assumes "buf_inv b" and "findCRLF b = Some p"
  shows "prefix crlf (drop p (payload b))" and "p < payload_size b"
    and "j < p \<Longrightarrow> \<not> prefix crlf (drop j (payload b))"
proof -
  have p: "p = std_search crlf (payload b)" "p \<noteq> payload_size b"
    using assms(2) by (auto simp: findCRLF_def Let_def split: if_splits)
  then show "p < payload_size b"
    using std_search_le[of crlf "payload b"] length_payload[OF assms(1)] by simp
  then show "prefix crlf (drop p (payload b))"
    using p std_search_hit[of crlf "payload b"] length_payload[OF assms(1)] by simp
  show "j < p \<Longrightarrow> \<not> prefix crlf (drop j (payload b))"
    using p std_search_least[of j crlf] by simp
qed

lemma findCRLF_NoneD:
  assumes "buf_inv b" and "findCRLF b = None"
  shows "\<not> prefix crlf (drop j (payload b))"
proof
  assume "prefix crlf (drop j (payload b))"
  from std_search_bound(2)[OF this] assms show False
    by (simp add: findCRLF_def Let_def length_payload split: if_splits)
qed

text \<open>
  \<^verbatim>\<open>Buffer::findCRLF\<close> is exact: it returns an offset precisely when that is the
  first place in the payload where a carriage return is followed by a line feed, and null
  precisely when there is none; bytes outside of the payload never count.
\<close>

theorem findCRLF_exact:
  assumes "buf_inv b"
  shows "findCRLF b = Some p \<longleftrightarrow>
     prefix crlf (drop p (payload b)) \<and> (\<forall>j<p. \<not> prefix crlf (drop j (payload b)))"
    (is "?L \<longleftrightarrow> ?R")
proof
  assume ?L
  then show ?R using findCRLF_SomeD[OF assms] by blast
next
  assume r: ?R
  then have "std_search crlf (payload b) = p"
    by (intro std_search_eqI) auto
  moreover have "std_search crlf (payload b) < payload_size b"
    using std_search_bound(2)[of crlf p "payload b"] r length_payload[OF assms] by simp
  ultimately show ?L by (simp add: findCRLF_def Let_def)
qed

lemma Append_payload: "buf_inv b \<Longrightarrow> Append d b = Inr b' \<Longrightarrow> payload b' = payload b @ d"
  using bq.enqD by blast

theorem findCRLF_exact_witness:
  "findCRLF \<lparr>store = replicate 8 (CHR 0x00) @ ''ab'' @ crlf @ ''c'', read_index = 8, write_index = 13\<rparr>
     = Some 2"
proof -
  let ?b = "\<lparr>store = replicate 8 (CHR 0x00) @ ''ab'' @ crlf @ ''c'', read_index = 8, write_index = 13\<rparr>"
  have i: "buf_inv ?b" by (simp add: buf_inv_def kBufBegin_def crlf_def)
  have p: "payload ?b = ''ab'' @ crlf @ ''c''"
    by (simp add: payload_def payload_size_def crlf_def)
  show ?thesis
    unfolding findCRLF_exact[OF i] p
    by (auto simp: crlf_def CR_def LF_def less_Suc_eq numeral_2_eq_2)
qed

section \<open>Runs of operations\<close>

text \<open>
  The buffer refines a plain byte string: every run of its operations gives the same outputs
  and the same assertion failures as the run on the string.
\<close>

datatype buf_op =
    BAppend string | BMove nat | BMoveUntil int | BMoveAll | BGetString | BGetNoMove

fun buf_step :: "buf_op \<Rightarrow> buffer \<Rightarrow> (string \<times> buffer) res" where
  "buf_step (BAppend d) b = rbind (Append d b) (\<lambda>b'. Inr ([], b'))"
| "buf_step (BMove n) b = rbind (move_read_index n b) (\<lambda>b'. Inr ([], b'))"
| "buf_step (BMoveUntil p) b = rbind (move_read_index_until p b) (\<lambda>b'. Inr ([], b'))"
| "buf_step BMoveAll b = Inr ([], move_read_index_all b)"
| "buf_step BGetString b = GetString b"
| "buf_step BGetNoMove b = rbind (GetStringNoMove b) (\<lambda>s. Inr (s, b))"

fun queue_step :: "buf_op \<Rightarrow> string \<Rightarrow> (string \<times> string) res" where
  "queue_step (BAppend d) q = Inr ([], q @ d)"
| "queue_step (BMove n) q = assert_then (n \<le> length q) (Inr ([], drop n q))"
| "queue_step (BMoveUntil p) q =
     assert_then (0 \<le> p \<and> nat p \<le> length q) (Inr ([], drop (nat p) q))"
| "queue_step BMoveAll q = Inr ([], [])"
| "queue_step BGetString q = Inr (q, [])"
| "queue_step BGetNoMove q = Inr (q, q)"

fun run_ops :: "('o \<Rightarrow> 's \<Rightarrow> (string \<times> 's) res) \<Rightarrow> 'o list \<Rightarrow> 's \<Rightarrow> (string list \<times> 's) res" where
  "run_ops f [] s = Inr ([], s)"
| "run_ops f (x # xs) s =
     rbind (f x s) (\<lambda>r. rbind (run_ops f xs (snd r)) (\<lambda>rs. Inr (fst r # fst rs, snd rs)))"

fun abs_res :: "('o \<times> buffer) res \<Rightarrow> ('o \<times> string) res" where
  "abs_res (Inl e) = Inl e"
| "abs_res (Inr (x, b)) = Inr (x, payload b)"

lemma move_until_spec:
  "buf_inv b \<Longrightarrow> move_read_index_until p b =
     (if 0 \<le> p \<and> nat p \<le> length (payload b) then move_read_index (nat p) b else Inl AssertFail)"
  by (auto simp: move_read_index_until_def assert_then_def length_payload)

lemma buf_step_refines:
  assumes "buf_inv b"
  shows "abs_res (buf_step x b) = queue_step x (payload b)"
    and "buf_step x b = Inr (out, b') \<Longrightarrow> buf_inv b'"
proof -
  have mv: "(\<exists>b'. move_read_index n b = Inr b' \<and> buf_inv b' \<and> payload b' = drop n (payload b)
      \<and> n \<le> length (payload b)) \<or>
    (move_read_index n b = Inl AssertFail \<and> \<not> n \<le> length (payload b))" for n
    using bq.deq_ok[OF assms, of n] bq.deq_over[OF assms, of n] by (cases "n \<le> length (payload b)") auto
  show "abs_res (buf_step x b) = queue_step x (payload b)"
  proof (cases x)
    case (BAppend d)
    then show ?thesis using bq.enq_ok[OF assms, of d] by auto
  next
    case (BMove n)
    then show ?thesis using mv[of n] by auto
  next
    case (BMoveUntil p)
    then show ?thesis using mv[of "nat p"]
      by (auto simp: move_until_spec[OF assms] assert_then_def)
  qed (use assms in \<open>simp_all add: GetString_spec GetStringNoMove_spec\<close>)
  show "buf_step x b = Inr (out, b') \<Longrightarrow> buf_inv b'"
    using assms
    by (cases x)
      (auto simp: rbind_Inr_iff GetString_spec move_until_spec move_read_index_all_inv
        dest: bq.enqD bq.deqD split: if_splits)
qed

text \<open>
  Claim C23. The buffer refines a byte string: starting from any buffer that satisfies the
  invariant, every sequence of appends, index moves and extractions produces exactly the
  outputs and the payload that the same sequence produces on a plain string, and fails an
  assertion exactly when the string model consumes more bytes than it holds.
\<close>

theorem buffer_run_refines:
  "buf_inv b \<Longrightarrow> abs_res (run_ops buf_step ops b) = run_ops queue_step ops (payload b)"
proof (induction ops arbitrary: b)
  case Nil
  then show ?case by simp
next
  case (Cons x xs)
  show ?case
  proof (cases "buf_step x b")
    case (Inl e)
    with buf_step_refines(1)[OF Cons.prems, of x] have "queue_step x (payload b) = Inl e" by simp
    with Inl show ?thesis by simp
  next
    case (Inr r)
    obtain out b1 where r: "r = (out, b1)" by (cases r)
    with Inr buf_step_refines[OF Cons.prems, of x] have
      "queue_step x (payload b) = Inr (out, payload b1)" "buf_inv b1" by auto
    with Cons.IH[OF this(2), symmetric] Inr r show ?thesis
      by (cases "run_ops buf_step xs b1") auto
  qed
qed

theorem buffer_run_refines_witness:
  "abs_res (run_ops buf_step [BAppend ''abc'', BMove 1, BGetString, BMove 1] buffer_init)
     = Inl AssertFail"
  using buffer_run_refines[OF buffer_init_inv, of "[BAppend ''abc'', BMove 1, BGetString, BMove 1]"]
  by simp

text \<open>
  \<^verbatim>\<open>Buffer::GetCharStr\<close> moves the read index before it copies, so what it returns
  is not the front of the payload: it copies the bytes that lie after the ones it consumes.
\<close>

lemma GetCharStr_skips:
  assumes "buf_inv b" and "payload b = x @ y" and "length y = length x"
  shows "\<exists>b'. GetCharStr (length x) b = Inr (y, b') \<and> payload b' = y"
proof -
  have l: "payload_size b = length x + length x" using assms length_payload[OF assms(1)] by simp
  let ?b = "b\<lparr>read_index := read_index b + length x\<rparr>"
  have b': "buf_inv ?b" "payload ?b = y"
    using move_read_index_spec[OF assms(1), of "length x"] assms(2) l
    by (simp_all add: move_read_index_def)
  moreover have "payload_size ?b = length x"
    using length_payload[OF b'(1)] b'(2) assms(3) by simp
  ultimately have "mem_read (store b) (read_index b + length x) (length x) = Inr y"
    using mem_read_payload[OF b'(1)] by simp
  with b'(2) l show ?thesis by (simp add: GetCharStr_def)
qed

theorem GetCharStr_skips_witness:
  "\<exists>b'. GetCharStr 2 \<lparr>store = replicate 8 (CHR 0x00) @ ''abcd'', read_index = 8, write_index = 12\<rparr>
     = Inr (''cd'', b')"
  using GetCharStr_skips[of "\<lparr>store = replicate 8 (CHR 0x00) @ ''abcd'', read_index = 8,
    write_index = 12\<rparr>" "''ab''" "''cd''"]
  by (auto simp: buf_inv_def kBufBegin_def payload_def payload_size_def numeral_2_eq_2)

end
