(* ===== verification/EventHandler.thy ===== *)
theory EventHandler
  imports Prelude "HOL-Library.Word"
begin

text \<open>
  \<^verbatim>\<open>reactor/eventhandler.h\<close>, \<^verbatim>\<open>reactor/eventhandler.cc\<close> and the part of
  \<^verbatim>\<open>reactor/selector.cc\<close> that sends a handler's interest to the kernel. Event masks are 32 bit
  words with the values of \<^verbatim>\<open>sys/epoll.h\<close>. What the kernel is told is a trace: \<open>eh_ctl\<close>
  lists the \<^verbatim>\<open>epoll_ctl\<close> requests made for the handler, in order.
\<close>

unbundle bit_operations_syntax

type_synonym mask = "32 word"

abbreviation EPOLLIN :: mask where "EPOLLIN \<equiv> 0x1"
abbreviation EPOLLPRI :: mask where "EPOLLPRI \<equiv> 0x2"
abbreviation EPOLLOUT :: mask where "EPOLLOUT \<equiv> 0x4"
abbreviation EPOLLERR :: mask where "EPOLLERR \<equiv> 0x8"
abbreviation EPOLLHUP :: mask where "EPOLLHUP \<equiv> 0x10"
abbreviation EPOLLRDHUP :: mask where "EPOLLRDHUP \<equiv> 0x2000"

definition kRead :: mask where "kRead = EPOLLIN OR EPOLLPRI"
definition kWrite :: mask where "kWrite = EPOLLOUT"
definition kNone :: mask where "kNone = 0"

datatype ctl_op = CTL_ADD | CTL_DEL | CTL_MOD

record event_handler =
  eh_fd :: int
  eh_events :: mask
  eh_handling :: bool
  eh_ctl :: "(ctl_op \<times> int \<times> mask) list"

section \<open>Selector: one request per change\<close>

text \<open>The option is an \<^verbatim>\<open>int\<close>: 0, 1 and 2 are ADD, DEL and MOD, anything else is logged.\<close>

definition ctl_request :: "ctl_op \<Rightarrow> event_handler \<Rightarrow> event_handler" where
  "ctl_request op h = h\<lparr>eh_ctl := eh_ctl h @ [(op, eh_fd h, eh_events h)]\<rparr>"

definition AddEvent :: "event_handler \<Rightarrow> event_handler" where
  "AddEvent = ctl_request CTL_ADD"

definition DeleteEvent :: "event_handler \<Rightarrow> event_handler" where
  "DeleteEvent = ctl_request CTL_DEL"

definition ModifyEvent :: "event_handler \<Rightarrow> event_handler" where
  "ModifyEvent = ctl_request CTL_MOD"

definition UpdataOneEventHandler :: "int \<Rightarrow> event_handler \<Rightarrow> event_handler" where
  "UpdataOneEventHandler opt h =
     (if opt = 0 then AddEvent h else if opt = 1 then DeleteEvent h
      else if opt = 2 then ModifyEvent h else h)"

definition RegisterEventHandler :: "event_handler \<Rightarrow> event_handler" where
  "RegisterEventHandler = UpdataOneEventHandler 0"

definition RemoveEventHandler :: "event_handler \<Rightarrow> event_handler" where
  "RemoveEventHandler = UpdataOneEventHandler 1"

definition UpdateEventHandler :: "event_handler \<Rightarrow> event_handler" where
  "UpdateEventHandler = UpdataOneEventHandler 2"

section \<open>Interest of a handler\<close>

definition new_handler :: "int \<Rightarrow> event_handler" where
  "new_handler fd = RegisterEventHandler \<lparr>eh_fd = fd, eh_events = 0, eh_handling = False, eh_ctl = []\<rparr>"

definition change_interest :: "event_handler \<Rightarrow> event_handler" where
  "change_interest h = UpdateEventHandler h"

definition set_care_read :: "event_handler \<Rightarrow> event_handler" where
  "set_care_read h = change_interest (h\<lparr>eh_events := eh_events h OR kRead\<rparr>)"

definition set_care_write :: "event_handler \<Rightarrow> event_handler" where
  "set_care_write h = change_interest (h\<lparr>eh_events := eh_events h OR kWrite\<rparr>)"

definition set_stop_care_read :: "event_handler \<Rightarrow> event_handler" where
  "set_stop_care_read h = change_interest (h\<lparr>eh_events := eh_events h AND NOT kRead\<rparr>)"

definition set_stop_care_write :: "event_handler \<Rightarrow> event_handler" where
  "set_stop_care_write h = change_interest (h\<lparr>eh_events := eh_events h AND NOT kWrite\<rparr>)"

definition set_stop_care_all :: "event_handler \<Rightarrow> event_handler" where
  "set_stop_care_all h = change_interest (h\<lparr>eh_events := eh_events h AND kNone\<rparr>)"

definition is_care_nothing :: "event_handler \<Rightarrow> bool" where
  "is_care_nothing h = (eh_events h = kNone)"

definition is_care_write :: "event_handler \<Rightarrow> bool" where
  "is_care_write h = (eh_events h AND kWrite \<noteq> 0)"

text \<open>Reading interest, which the source only sets.\<close>

definition cares_read :: "event_handler \<Rightarrow> bool" where
  "cares_read h = (eh_events h AND kRead = kRead)"

lemmas interest_defs = set_care_read_def set_care_write_def set_stop_care_read_def
  set_stop_care_write_def set_stop_care_all_def change_interest_def UpdateEventHandler_def
  UpdataOneEventHandler_def ModifyEvent_def ctl_request_def

lemma kWrite_nonzero [simp]: "kWrite \<noteq> 0"
  by (simp add: kWrite_def)

lemma masks_disjoint: "\<not> (bit kRead n \<and> bit kWrite n)"
proof -
  have "kRead AND kWrite = 0" by (simp add: kRead_def kWrite_def)
  then show ?thesis by (metis bit_and_iff bit_0_eq bot_apply bot_bool_def)
qed

lemma mask_bits [simp]:
  "(e OR kWrite) AND kWrite = kWrite" "(e AND NOT kWrite) AND kWrite = (0 :: mask)"
  "(e OR kRead) AND kWrite = e AND kWrite" "(e AND NOT kRead) AND kWrite = e AND kWrite"
  "(e OR kRead) AND kRead = kRead" "(e OR kWrite) AND kRead = e AND kRead"
  "(e AND NOT kWrite) AND kRead = e AND kRead" "e AND kNone = (0 :: mask)"
  using masks_disjoint by (auto intro!: bit_eqI simp: bit_simps kNone_def)

lemma care_write_simps [simp]:
  "is_care_write (set_care_write h)" "\<not> is_care_write (set_stop_care_write h)"
  "is_care_write (set_care_read h) = is_care_write h"
  "is_care_write (set_stop_care_read h) = is_care_write h"
  "\<not> is_care_write (set_stop_care_all h)" "is_care_nothing (set_stop_care_all h)"
  by (simp_all add: is_care_write_def is_care_nothing_def interest_defs) (simp_all add: kNone_def)

lemma cares_read_simps [simp]:
  "cares_read (set_care_read h)" "cares_read (set_care_write h) = cares_read h"
  "cares_read (set_stop_care_write h) = cares_read h"
  by (simp_all add: cares_read_def interest_defs)

lemma new_handler_simps [simp]:
  "\<not> is_care_write (new_handler fd)" "eh_fd (new_handler fd) = fd"
  by (simp_all add: is_care_write_def new_handler_def RegisterEventHandler_def
      UpdataOneEventHandler_def AddEvent_def ctl_request_def)

lemma eh_fd_simps [simp]:
  "eh_fd (set_care_read h) = eh_fd h" "eh_fd (set_care_write h) = eh_fd h"
  "eh_fd (set_stop_care_read h) = eh_fd h" "eh_fd (set_stop_care_write h) = eh_fd h"
  "eh_fd (set_stop_care_all h) = eh_fd h"
  by (simp_all add: interest_defs)

text \<open>The kernel's view: the handler was added first, and the last request carries its mask.\<close>

definition ctl_synced :: "event_handler \<Rightarrow> bool" where
  "ctl_synced h = (eh_ctl h \<noteq> [] \<and> fst (hd (eh_ctl h)) = CTL_ADD
     \<and> snd (last (eh_ctl h)) = (eh_fd h, eh_events h))"

datatype interest_op = CareRead | CareWrite | StopRead | StopWrite | StopAll

fun interest_step :: "interest_op \<Rightarrow> event_handler \<Rightarrow> event_handler" where
  "interest_step CareRead h = set_care_read h"
| "interest_step CareWrite h = set_care_write h"
| "interest_step StopRead h = set_stop_care_read h"
| "interest_step StopWrite h = set_stop_care_write h"
| "interest_step StopAll h = set_stop_care_all h"

lemma interest_step_synced: "ctl_synced h \<Longrightarrow> ctl_synced (interest_step x h)"
  by (cases x) (simp_all add: ctl_synced_def interest_defs hd_append)

lemma interest_run_synced: "ctl_synced h \<Longrightarrow> ctl_synced (fold interest_step xs h)"
  by (induction xs arbitrary: h) (auto intro: interest_step_synced)

section \<open>Dispatch of a triggered event\<close>

datatype event_func = CloseFunc | ErrorFunc | ReadFunc | WriteFunc

text \<open>Which callbacks \<^verbatim>\<open>HandleEvent\<close> tries, in its order.\<close>

definition event_calls :: "mask \<Rightarrow> event_func list" where
  "event_calls revents =
     (if revents AND EPOLLHUP \<noteq> 0 \<and> \<not> (revents AND EPOLLIN \<noteq> 0) then [CloseFunc] else [])
     @ (if revents AND EPOLLERR \<noteq> 0 then [ErrorFunc] else [])
     @ (if revents AND (EPOLLIN OR EPOLLPRI OR EPOLLRDHUP) \<noteq> 0 then [ReadFunc] else [])
     @ (if revents AND EPOLLOUT \<noteq> 0 then [WriteFunc] else [])"

text \<open>
  \<open>funcs\<close> are the callbacks (None for a null \<^verbatim>\<open>std::function\<close>), \<open>flag\<close> stores
  \<^verbatim>\<open>event_handling_\<close> in the state that contains the handler.
\<close>

definition call_func :: "(event_func \<Rightarrow> ('s \<Rightarrow> 's res) option) \<Rightarrow> event_func \<Rightarrow> 's \<Rightarrow> 's res" where
  "call_func funcs k s = (case funcs k of None \<Rightarrow> Inr s | Some f \<Rightarrow> f s)"

definition HandleEvent ::
  "(bool \<Rightarrow> 's \<Rightarrow> 's) \<Rightarrow> (event_func \<Rightarrow> ('s \<Rightarrow> 's res) option) \<Rightarrow> mask \<Rightarrow> 's \<Rightarrow> 's res" where
  "HandleEvent flag funcs revents s =
     rbind (seq_res (call_func funcs) (event_calls revents) (flag True s)) (\<lambda>s'. Inr (flag False s'))"

lemma seq_res_inv:
  assumes "\<And>x s s'. P s \<Longrightarrow> f x s = Inr s' \<Longrightarrow> P s'" and "P s" and "seq_res f xs s = Inr s'"
  shows "P s'"
  using assms(2,3)
proof (induction xs arbitrary: s)
  case (Cons x xs)
  then show ?case using assms(1) by (auto simp: rbind_Inr_iff)
qed simp

text \<open>
  Whatever sequence of interest changes a handler makes, the kernel is told: the
  handler is added to epoll first, every change sends one request, and the last request carries
  the descriptor and exactly the mask that the handler holds.
\<close>

theorem interest_reaches_kernel:
  "ctl_synced (fold interest_step xs (new_handler fd))
   \<and> length (eh_ctl (fold interest_step xs (new_handler fd))) = Suc (length xs)
   \<and> eh_fd (fold interest_step xs (new_handler fd)) = fd"
proof -
  have s: "ctl_synced (new_handler fd)"
    by (simp add: ctl_synced_def new_handler_def RegisterEventHandler_def
        UpdataOneEventHandler_def AddEvent_def ctl_request_def)
  have l: "length (eh_ctl (fold interest_step xs h)) = length (eh_ctl h) + length xs
      \<and> eh_fd (fold interest_step xs h) = eh_fd h" for h
  proof (induction xs arbitrary: h)
    case (Cons x xs)
    then show ?case by (cases x) (simp_all add: interest_defs)
  qed simp
  have "length (eh_ctl (new_handler fd)) = 1"
    by (simp add: new_handler_def RegisterEventHandler_def UpdataOneEventHandler_def AddEvent_def
        ctl_request_def)
  with interest_run_synced[OF s, of xs] l[of "new_handler fd"] show ?thesis by simp
qed

end
