(* ===== verification/HttpRequest.thy ===== *)
theory HttpRequest
  imports CLib
begin

text \<open>
  \<^verbatim>\<open>http/httprequest.h\<close>: the parsed request of a connection. A pair of pointers
  \<^verbatim>\<open>(start, end)\<close> is the string between them; \<open>AddHeader\<close> gets the whole line and the
  offset of the colon in it.
\<close>

datatype http_method = INVALID | GET | POST | HEAD | PUT | DELETE

datatype http_version = UNKNOWN | HTTP10 | HTTP11

record http_request =
  req_method :: http_method
  req_version :: http_version
  req_path :: string
  req_query :: string
  req_headers :: "string smap"

definition request_init :: http_request where
  "request_init = \<lparr>req_method = INVALID, req_version = UNKNOWN, req_path = [], req_query = [],
     req_headers = []\<rparr>"

definition set_version :: "http_version \<Rightarrow> http_request \<Rightarrow> http_request" where
  "set_version v r = r\<lparr>req_version := v\<rparr>"

definition set_path :: "string \<Rightarrow> http_request \<Rightarrow> http_request" where
  "set_path s r = r\<lparr>req_path := s\<rparr>"

definition set_query :: "string \<Rightarrow> http_request \<Rightarrow> http_request" where
  "set_query s r = r\<lparr>req_query := s\<rparr>"

text \<open>The branch for \<^verbatim>\<open>"DELETE"\<close> stores \<^verbatim>\<open>GET\<close>, as the source does.\<close>

definition set_method :: "string \<Rightarrow> http_request \<Rightarrow> bool \<times> http_request" where
  "set_method s r =
     (let m = (if s = ''GET'' then GET
               else if s = ''POST'' then POST
               else if s = ''HEAD'' then HEAD
               else if s = ''PUT'' then PUT
               else if s = ''DELETE'' then GET
               else INVALID)
      in (m \<noteq> INVALID, r\<lparr>req_method := m\<rparr>))"

text \<open>The loop that removes white space from the end of the value.\<close>

fun strip_trailing :: "string \<Rightarrow> string" where
  "strip_trailing v =
     (if v \<noteq> [] \<and> isspace (v ! (length v - 1)) then strip_trailing (take (length v - 1) v) else v)"

declare strip_trailing.simps [simp del]

definition AddHeader :: "string \<Rightarrow> nat \<Rightarrow> http_request \<Rightarrow> http_request" where
  "AddHeader line colon r =
     (let field = take colon line;
          val = dropWhile isspace (drop (Suc colon) line)
      in r\<lparr>req_headers := smap_put field (strip_trailing val) (req_headers r)\<rparr>)"

definition GetHeader :: "string \<Rightarrow> http_request \<Rightarrow> string" where
  "GetHeader field r = (case smap_get (req_headers r) field of None \<Rightarrow> [] | Some v \<Rightarrow> v)"

section \<open>Facts\<close>

lemma strip_trailing_rev: "strip_trailing v = rev (dropWhile isspace (rev v))"
proof (induction v rule: rev_induct)
  case Nil
  then show ?case by (subst strip_trailing.simps) simp
next
  case (snoc c v)
  then show ?case by (subst strip_trailing.simps) (simp add: nth_append)
qed

lemma strip_trailing_id: "v = [] \<or> \<not> isspace (last v) \<Longrightarrow> strip_trailing v = v"
  by (subst strip_trailing.simps) (auto simp: last_conv_nth)

definition request_inv :: "http_request \<Rightarrow> bool" where
  "request_inv r = smap_inv (req_headers r)"

lemma request_init_inv [simp]: "request_inv request_init"
  by (simp add: request_inv_def request_init_def smap.emp_inv)

lemma set_method_inv [simp]: "request_inv (snd (set_method s r)) = request_inv r"
  by (simp add: request_inv_def set_method_def Let_def)

lemma set_fields_inv [simp]:
  "request_inv (set_version v r) = request_inv r"
  "request_inv (set_path s r) = request_inv r"
  "request_inv (set_query s r) = request_inv r"
  by (simp_all add: request_inv_def set_version_def set_path_def set_query_def)

lemma AddHeader_inv: "request_inv r \<Longrightarrow> request_inv (AddHeader line c r)"
  by (simp add: request_inv_def AddHeader_def smap.put_inv)

lemma GetHeader_AddHeader:
  "request_inv r \<Longrightarrow> GetHeader f (AddHeader line c r) =
     (if f = take c line then strip_trailing (dropWhile isspace (drop (Suc c) line))
      else GetHeader f r)"
  by (simp add: request_inv_def GetHeader_def AddHeader_def smap.look_put)

text \<open>A header line \<open>field ":" pad value pad'\<close> with white space around a trimmed value.\<close>

definition trimmed :: "string \<Rightarrow> bool" where
  "trimmed v = (v = [] \<or> (\<not> isspace (hd v) \<and> \<not> isspace (last v)))"

lemma dropWhile_pad: "\<forall>c\<in>set pad. isspace c \<Longrightarrow> dropWhile isspace (pad @ v) = dropWhile isspace v"
  by (induction pad) auto

lemma strip_pad:
  assumes "\<forall>c\<in>set pad. isspace c" and "\<forall>c\<in>set pad'. isspace c" and "trimmed v"
  shows "strip_trailing (dropWhile isspace (pad @ v @ pad')) = v"
proof (cases "v = []")
  case True
  with assms(1,2) have "\<forall>c\<in>set (pad @ v @ pad'). isspace c" by auto
  then have dw: "dropWhile isspace (pad @ v @ pad') = []" by (simp only: dropWhile_eq_Nil_conv)
  show ?thesis by (subst dw) (simp add: True strip_trailing_rev)
next
  case False
  with assms(1,3) have "dropWhile isspace (pad @ v @ pad') = v @ pad'"
    by (cases v) (auto simp: dropWhile_pad trimmed_def)
  moreover have "dropWhile isspace (rev v) = rev v"
    using False assms(3) by (cases "rev v") (auto simp: trimmed_def hd_rev[symmetric])
  then have "dropWhile isspace (rev pad' @ rev v) = rev v"
    using assms(2) dropWhile_pad[of "rev pad'" "rev v"] by simp
  ultimately show ?thesis by (simp add: strip_trailing_rev)
qed

text \<open>
  \<^verbatim>\<open>AddHeader\<close> on a line \<^verbatim>\<open>field: value\<close> stores the value without the white
  space before and after it, under the text before the first colon; other headers keep their
  value, and the header map stays sorted and duplicate free.
\<close>

theorem AddHeader_correct:
  assumes "request_inv r"
    and "\<forall>c\<in>set pad. isspace c" and "\<forall>c\<in>set pad'. isspace c" and "trimmed v"
    and "CHR '':'' \<notin> set field"
    and "line = field @ CHR '':'' # pad @ v @ pad'"
  shows "request_inv (AddHeader line (std_find CHR '':'' line) r)
    \<and> GetHeader f (AddHeader line (std_find CHR '':'' line) r) = (if f = field then v else GetHeader f r)"
proof -
  have "std_find CHR '':'' line = length field" using assms(5,6) by (simp add: std_find_first)
  then show ?thesis
    using assms(1,6) strip_pad[OF assms(2-4)] by (simp add: GetHeader_AddHeader AddHeader_inv)
qed

theorem AddHeader_correct_witness:
  "GetHeader ''Host'' (AddHeader ''Host: a:1 '' (std_find CHR '':'' ''Host: a:1 '') request_init) = ''a:1''"
  using AddHeader_correct[of request_init "'' ''" "'' ''" "''a:1''" "''Host''" "''Host: a:1 ''" "''Host''"]
  by (simp add: isspace_def trimmed_def)

text \<open>
  \<^verbatim>\<open>set_method\<close> accepts exactly the five method names, reports success exactly
  then, and never stores \<^verbatim>\<open>DELETE\<close>: a DELETE request is recorded as a GET request.
\<close>

lemma set_method_exact:
  "fst (set_method s r) = (s \<in> {''GET'', ''POST'', ''HEAD'', ''PUT'', ''DELETE''})
   \<and> (req_method (snd (set_method s r)) = GET \<longleftrightarrow> s = ''GET'' \<or> s = ''DELETE'')
   \<and> (req_method (snd (set_method s r)) = POST \<longleftrightarrow> s = ''POST'')
   \<and> (req_method (snd (set_method s r)) = HEAD \<longleftrightarrow> s = ''HEAD'')
   \<and> (req_method (snd (set_method s r)) = PUT \<longleftrightarrow> s = ''PUT'')
   \<and> req_method (snd (set_method s r)) \<noteq> DELETE"
  by (simp add: set_method_def Let_def)

end
