(* ===== verification/HttpContext.thy ===== *)
theory HttpContext
  imports Buffer HttpRequest
begin

text \<open>
  \<^verbatim>\<open>http/httpcontext.h\<close> and \<^verbatim>\<open>http/httpcontext.cc\<close>: the incremental parser of a
  connection. \<open>ParseRequest\<close> is the loop of the source with its \<^verbatim>\<open>switch\<close> as
  \<open>parse_body\<close>; the loop may run forever, which is the result \<open>None\<close>.
\<close>

datatype parse_state = ExpectRequestLine | ExpectHeaders | ExpectBody | Done

record http_context =
  ctx_state :: parse_state
  ctx_request :: http_request

definition context_init :: http_context where
  "context_init = \<lparr>ctx_state = ExpectRequestLine, ctx_request = request_init\<rparr>"

definition is_done :: "http_context \<Rightarrow> bool" where
  "is_done c = (ctx_state c = Done)"

text \<open>The request is not cleared: the new \<^verbatim>\<open>HttpRequest\<close> of the source is a local dummy.\<close>

definition Reset :: "http_context \<Rightarrow> http_context" where
  "Reset c = c\<lparr>ctx_state := ExpectRequestLine\<rparr>"

section \<open>The request line\<close>

text \<open>
  \<open>line\<close> is the memory from \<^verbatim>\<open>begin\<close> to \<^verbatim>\<open>end\<close>; \<open>start\<close> is a suffix of it and
  the offsets are relative to it, so \<^verbatim>\<open>end\<close> is \<open>length start\<close>.
\<close>

definition parse_version :: "string \<Rightarrow> http_request \<Rightarrow> bool \<times> http_request" where
  "parse_version start r =
     (if length start = 8 \<and> \<not> strncmp_eq start (''HTTP/1.'' @ [CHR 0x00]) (length start)
      then let ch = start ! (length start - 1)
           in if CHR ''1'' = ch then (True, set_version HTTP11 r)
              else if CHR ''0'' = ch then (True, set_version HTTP10 r)
              else (False, set_version UNKNOWN r)
      else (False, r))"

definition ParseRequestLine :: "string \<Rightarrow> http_request \<Rightarrow> bool \<times> http_request" where
  "ParseRequestLine line r =
     (let space = std_find (CHR '' '') line
      in if space \<noteq> length line
         then case set_method (take space line) r of (ok, r1) \<Rightarrow>
           if ok
           then let start = drop (space + 1) line;
                    space = std_find (CHR '' '') start
                in if space \<noteq> length start
                   then let question = std_find (CHR ''?'') (take space start);
                            r2 = (if question \<noteq> length start
                                  then set_query (drop question (take space start))
                                         (set_path (take question start) r1)
                                  else set_path (take space start) r1)
                        in parse_version (drop (space + 1) start) r2
                   else (False, r1)
           else (False, r1)
         else (False, r))"

section \<open>The parse loop\<close>

text \<open>
  One turn of \<^verbatim>\<open>while (!flag_end)\<close>: the results are \<^verbatim>\<open>flag_end\<close>, \<^verbatim>\<open>ok\<close>, and
  the changed context and buffer. The branch for a missing line end in \<open>ExpectHeaders\<close> stores
  \<^verbatim>\<open>false\<close> to \<^verbatim>\<open>flag_end\<close>, as the source does.
\<close>

definition parse_body ::
  "bool \<Rightarrow> http_context \<Rightarrow> buffer \<Rightarrow> (bool \<times> bool \<times> http_context \<times> buffer) res" where
  "parse_body ok c b =
     (case ctx_state c of
        ExpectRequestLine \<Rightarrow>
          (case findCRLF b of
             Some p \<Rightarrow>
               (case ParseRequestLine (take p (payload b)) (ctx_request c) of (ok', r) \<Rightarrow>
                  if ok'
                  then rbind (move_read_index_until (int p + 2) b) (\<lambda>b'.
                       Inr (False, ok', c\<lparr>ctx_request := r, ctx_state := ExpectHeaders\<rparr>, b'))
                  else Inr (True, ok', c\<lparr>ctx_request := r\<rparr>, b))
           | None \<Rightarrow> Inr (True, ok, c, b))
      | ExpectHeaders \<Rightarrow>
          (case findCRLF b of
             Some p \<Rightarrow>
               (let line = take p (payload b);
                    colon = std_find (CHR '':'') line;
                    (flag_end, c') =
                      (if colon \<noteq> p
                       then (False, c\<lparr>ctx_request := AddHeader line colon (ctx_request c)\<rparr>)
                       else (True, c\<lparr>ctx_state := Done\<rparr>))
                in rbind (move_read_index_until (int p + 2) b) (\<lambda>b'. Inr (flag_end, ok, c', b')))
           | None \<Rightarrow> Inr (False, ok, c, b))
      | ExpectBody \<Rightarrow> Inr (False, ok, c, b)
      | Done \<Rightarrow> Inr (False, ok, c, b))"

partial_function (option) parse_loop ::
  "bool \<Rightarrow> http_context \<Rightarrow> buffer \<Rightarrow> (bool \<times> http_context \<times> buffer) res option" where
  "parse_loop ok c b =
     (case parse_body ok c b of
        Inl e \<Rightarrow> Some (Inl e)
      | Inr (flag_end, ok', c', b') \<Rightarrow>
          if flag_end then Some (Inr (ok', c', b')) else parse_loop ok' c' b')"

definition ParseRequest ::
  "http_context \<Rightarrow> buffer \<Rightarrow> (bool \<times> http_context \<times> buffer) res option" where
  "ParseRequest c b = parse_loop True c b"

section \<open>Lines of the payload\<close>

definition split_line :: "string \<Rightarrow> (string \<times> string) option" where
  "split_line s = (let p = std_search crlf s in
     if p = length s then None else Some (take p s, drop (p + 2) s))"

lemma split_line_shorter:
  assumes "split_line s = Some (line, rest)"
  shows "length rest < length s"
  using assms
  by (cases s) (auto simp: split_line_def Let_def split: if_splits)

lemma split_line_None_prefix:
  "LF \<notin> set line \<Longrightarrow> split_line (line @ crlf @ rest) = Some (line, rest)"
proof -
  assume lf: "LF \<notin> set line"
  have "std_search crlf (line @ crlf @ rest) = length line"
  proof (rule std_search_eqI)
    fix j assume j: "j < length line"
    show "\<not> prefix crlf (drop j (line @ crlf @ rest))"
    proof
      assume "prefix crlf (drop j (line @ crlf @ rest))"
      then obtain zs where "drop j (line @ crlf @ rest) = crlf @ zs" by (rule prefixE)
      then have "drop j (line @ crlf @ rest) ! 1 = LF" by (simp only:) (simp add: crlf_def)
      moreover have "drop j (line @ crlf @ rest) ! 1 = (line @ crlf @ rest) ! (j + 1)"
        by (rule nth_drop) (use j in simp)
      ultimately have "(line @ crlf @ rest) ! Suc j = LF" by simp
      with j have "Suc j < length line \<and> line ! Suc j = LF \<or> Suc j = length line \<and> CR = LF"
        by (auto simp: nth_append crlf_def split: if_splits)
      with lf nth_mem[of "Suc j" line] CR_neq_LF show False by metis
    qed
  qed simp_all
  then show ?thesis by (simp add: split_line_def crlf_def)
qed

lemma findCRLF_split:
  assumes "buf_inv b"
  shows "findCRLF b = None \<longleftrightarrow> split_line (payload b) = None"
    and "findCRLF b = Some p \<Longrightarrow> split_line (payload b) = Some (take p (payload b), drop (p + 2) (payload b))"
  using length_payload[OF assms] by (auto simp: findCRLF_def split_line_def Let_def split: if_splits)

lemma move_past_line:
  assumes "buf_inv b" and "findCRLF b = Some p"
  shows "\<exists>b'. move_read_index_until (int p + 2) b = Inr b' \<and> buf_inv b'
     \<and> payload b' = drop (p + 2) (payload b)"
proof -
  have "prefix crlf (drop p (payload b))" using findCRLF_SomeD(1)[OF assms] .
  then have "length crlf \<le> length (drop p (payload b))" by (rule prefix_length_le)
  then have "p + 2 \<le> length (payload b)"
    using findCRLF_SomeD(2)[OF assms] length_payload[OF assms(1)] by (simp add: crlf_def)
  moreover have "nat (int p + 2) = p + 2" by simp
  ultimately show ?thesis using bq.deq_ok[OF assms(1), of "p + 2"] by (simp add: move_until_spec[OF assms(1)])
qed

section \<open>What the parser computes\<close>

text \<open>
  The loop on the payload as a total function: header lines up to the first line without a
  colon, \<open>None\<close> when the payload ends before that line.
\<close>

function header_spec :: "http_request \<Rightarrow> string \<Rightarrow> (http_request \<times> string) option" where
  "header_spec r s =
     (case split_line s of
        None \<Rightarrow> None
      | Some (line, rest) \<Rightarrow>
          if CHR '':'' \<in> set line then header_spec (AddHeader line (std_find CHR '':'' line) r) rest
          else Some (r, rest))"
  by pat_completeness auto
termination
  by (relation "measure (\<lambda>(r, s). length s)") (auto dest: split_line_shorter)

declare header_spec.simps [simp del]

definition finish :: "http_context \<Rightarrow> (http_request \<times> string) option \<Rightarrow> (bool \<times> http_context \<times> string) option" where
  "finish c = map_option (\<lambda>(r, rest). (True, c\<lparr>ctx_request := r, ctx_state := Done\<rparr>, rest))"

definition request_spec :: "http_context \<Rightarrow> string \<Rightarrow> (bool \<times> http_context \<times> string) option" where
  "request_spec c s =
     (case ctx_state c of
        ExpectRequestLine \<Rightarrow>
          (case split_line s of
             None \<Rightarrow> Some (True, c, s)
           | Some (line, rest) \<Rightarrow>
               (case ParseRequestLine line (ctx_request c) of
                  (False, r) \<Rightarrow> Some (False, c\<lparr>ctx_request := r\<rparr>, s)
                | (True, r) \<Rightarrow> finish c (header_spec r rest)))
      | ExpectHeaders \<Rightarrow> finish c (header_spec (ctx_request c) s)
      | _ \<Rightarrow> None)"

text \<open>A turn that changes nothing and does not set \<^verbatim>\<open>flag_end\<close> is repeated forever.\<close>

lemma parse_loop_spin:
  assumes stuck: "parse_body ok c b = Inr (False, ok, c, b)"
  shows "parse_loop ok c b = None"
proof (rule ccontr)
  assume "parse_loop ok c b \<noteq> None"
  then obtain r where ret: "parse_loop ok c b = Some r" by auto
  have "(ok, c, b) \<noteq> (ok, c, b)"
  proof (rule parse_loop.raw_induct[where P = "\<lambda>ok' c' b' r. (ok', c', b') \<noteq> (ok, c, b)", OF _ ret])
    fix f ok' c' b' r'
    assume IH: "\<And>ok' c' b' r. f ok' c' b' = Some r \<Longrightarrow> (ok', c', b') \<noteq> (ok, c, b)"
      and eq: "(case parse_body ok' c' b' of Inl e \<Rightarrow> Some (Inl e)
        | Inr (flag_end, ok'', c'', b'') \<Rightarrow>
            if flag_end then Some (Inr (ok'', c'', b'')) else f ok'' c'' b'') = Some r'"
    show "(ok', c', b') \<noteq> (ok, c, b)"
    proof
      assume same: "(ok', c', b') = (ok, c, b)"
      with eq stuck have "f ok c b = Some r'" by simp
      from IH[OF this] show False by simp
    qed
  qed
  then show False by simp
qed

lemma parse_headers:
  assumes "buf_inv b" and "payload b = s" and "ctx_state c = ExpectHeaders" and "ctx_request c = r"
  shows "case header_spec r s of
      None \<Rightarrow> parse_loop ok c b = None
    | Some (r', rest) \<Rightarrow> \<exists>b'. parse_loop ok c b = Some (Inr (ok, c\<lparr>ctx_request := r', ctx_state := Done\<rparr>, b'))
        \<and> buf_inv b' \<and> payload b' = rest"
  using assms
proof (induction r s arbitrary: b c rule: header_spec.induct)
  case (1 r s)
  show ?case
  proof (cases "findCRLF b")
    case None
    then have "split_line s = None" using findCRLF_split(1)[OF "1.prems"(1)] "1.prems"(2) by simp
    moreover have "parse_loop ok c b = None"
      by (rule parse_loop_spin) (simp add: parse_body_def "1.prems" None)
    ultimately show ?thesis by (simp add: header_spec.simps[of r s])
  next
    case (Some p)
    let ?line = "take p s"
    have sl: "split_line s = Some (?line, drop (p + 2) s)"
      using findCRLF_split(2)[OF "1.prems"(1) Some] "1.prems"(2) by simp
    have len: "length ?line = p"
      using findCRLF_SomeD(2)[OF "1.prems"(1) Some] length_payload[OF "1.prems"(1)] "1.prems"(2) by simp
    obtain b' where b': "move_read_index_until (int p + 2) b = Inr b'" "buf_inv b'"
      "payload b' = drop (p + 2) s"
      using move_past_line[OF "1.prems"(1) Some] "1.prems"(2) by auto
    have colon: "std_find CHR '':'' ?line = p \<longleftrightarrow> CHR '':'' \<notin> set ?line"
      using std_find_iff[of "CHR '':''" ?line] len by simp
    show ?thesis
    proof (cases "CHR '':'' \<in> set ?line")
      case True
      let ?r = "AddHeader ?line (std_find CHR '':'' ?line) r"
      let ?c = "c\<lparr>ctx_request := ?r\<rparr>"
      have "parse_loop ok c b = parse_loop ok ?c b'"
        using True colon b'(1)
        by (subst parse_loop.simps) (simp add: parse_body_def "1.prems" Some Let_def)
      moreover have "header_spec r s = header_spec ?r (drop (p + 2) s)"
        using True by (simp add: header_spec.simps[of r s] sl)
      ultimately show ?thesis
        using "1.IH"[OF sl refl True b'(2,3), of ?c] "1.prems" by (auto split: option.splits)
    next
      case False
      then have "parse_loop ok c b = Some (Inr (ok, c\<lparr>ctx_state := Done\<rparr>, b'))"
        using colon b'(1)
        by (subst parse_loop.simps) (simp add: parse_body_def "1.prems" Some Let_def)
      moreover have "c\<lparr>ctx_state := Done\<rparr> = c\<lparr>ctx_request := r, ctx_state := Done\<rparr>"
        using "1.prems"(4) by simp
      ultimately show ?thesis using False b' by (simp add: header_spec.simps[of r s] sl)
    qed
  qed
qed

fun abs_parse :: "(bool \<times> http_context \<times> buffer) res \<Rightarrow> (bool \<times> http_context \<times> string) res" where
  "abs_parse (Inl e) = Inl e"
| "abs_parse (Inr (ok, c, b)) = Inr (ok, c, payload b)"

lemma ParseRequest_cases:
  assumes "buf_inv b"
  shows "case request_spec c (payload b) of
      None \<Rightarrow> ParseRequest c b = None
    | Some (ok, c', rest) \<Rightarrow> \<exists>b'. ParseRequest c b = Some (Inr (ok, c', b')) \<and> buf_inv b' \<and> payload b' = rest"
proof (cases "ctx_state c")
  case ExpectRequestLine
  show ?thesis
  proof (cases "findCRLF b")
    case None
    then have "parse_loop True c b = Some (Inr (True, c, b))"
      by (subst parse_loop.simps) (simp add: parse_body_def ExpectRequestLine)
    with None findCRLF_split(1)[OF assms] assms ExpectRequestLine show ?thesis
      by (simp add: request_spec_def ParseRequest_def)
  next
    case (Some p)
    note sl = findCRLF_split(2)[OF assms Some]
    obtain ok r where pl: "ParseRequestLine (take p (payload b)) (ctx_request c) = (ok, r)" by fastforce
    obtain b' where b': "move_read_index_until (int p + 2) b = Inr b'" "buf_inv b'"
      "payload b' = drop (p + 2) (payload b)" using move_past_line[OF assms Some] by auto
    show ?thesis
    proof (cases ok)
      case True
      let ?c = "c\<lparr>ctx_request := r, ctx_state := ExpectHeaders\<rparr>"
      have "parse_loop True c b = parse_loop True ?c b'"
        using True b'(1) pl by (subst parse_loop.simps) (simp add: parse_body_def ExpectRequestLine Some)
      then show ?thesis
        using parse_headers[OF b'(2,3), of ?c r True] True sl pl ExpectRequestLine
        by (auto simp: request_spec_def ParseRequest_def finish_def split: option.splits)
    next
      case False
      then have "parse_loop True c b = Some (Inr (False, c\<lparr>ctx_request := r\<rparr>, b))"
        using pl by (subst parse_loop.simps) (simp add: parse_body_def ExpectRequestLine Some)
      with False sl pl assms ExpectRequestLine show ?thesis
        by (simp add: request_spec_def ParseRequest_def)
    qed
  qed
next
  case ExpectHeaders
  then show ?thesis
    using parse_headers[OF assms refl ExpectHeaders refl, of True]
    by (auto simp: request_spec_def ParseRequest_def finish_def split: option.splits)
qed (simp_all add: request_spec_def ParseRequest_def parse_loop_spin parse_body_def)

text \<open>
  Claim C19. \<^verbatim>\<open>HttpContext::ParseRequest\<close> refines the line by line specification: on every
  context and every buffer that satisfies its invariant it never fails an assertion and never
  leaves the buffer, and it returns exactly when the specification has a result, with that
  result, context and remaining payload.
\<close>

theorem ParseRequest_refines:
  assumes "buf_inv b"
  shows "map_option abs_parse (ParseRequest c b) = map_option Inr (request_spec c (payload b))"
  using ParseRequest_cases[OF assms, of c] by (auto split: option.splits)

theorem ParseRequest_refines_witness:
  "map_option abs_parse (ParseRequest context_init buffer_init) = Some (Inr (True, context_init, []))"
  using ParseRequest_refines[OF buffer_init_inv, of context_init]
  by (simp add: request_spec_def context_init_def split_line_def)

section \<open>Which request lines are accepted\<close>

lemma strncmp_eq_last:
  "length v = length t \<Longrightarrow> t \<noteq> [] \<Longrightarrow> CHR 0x00 \<notin> set (butlast t) \<Longrightarrow> strncmp_eq v t (length v) \<Longrightarrow> last v = last t"
proof (induction v t rule: list_induct2')
  case (4 x xs y ys)
  then show ?case by (cases "ys = []") (auto split: if_splits)
qed simp_all

lemma parse_version_iff:
  "fst (parse_version v r) \<longleftrightarrow> length v = 8 \<and> (last v = CHR ''0'' \<or> last v = CHR ''1'')"
proof (cases "length v = 8")
  case True
  then have l: "v ! (length v - 1) = last v" by (subst last_conv_nth) auto
  have "strncmp_eq v (''HTTP/1.'' @ [CHR 0x00]) (length v) \<Longrightarrow> last v = CHR 0x00"
    using strncmp_eq_last[of v "''HTTP/1.'' @ [CHR 0x00]"] True by simp
  with True l show ?thesis by (auto simp: parse_version_def Let_def)
qed (simp add: parse_version_def)

lemma split_at_first:
  "(\<exists>x y. xs = x @ c # y \<and> c \<notin> set x \<and> P x y) \<longleftrightarrow>
     std_find c xs \<noteq> length xs \<and> P (take (std_find c xs) xs) (drop (std_find c xs + 1) xs)"
proof
  assume "\<exists>x y. xs = x @ c # y \<and> c \<notin> set x \<and> P x y"
  then obtain x y where xy: "xs = x @ c # y" "c \<notin> set x" "P x y" by blast
  then have "std_find c xs = length x" by (simp add: std_find_first)
  with xy(1,3) show "std_find c xs \<noteq> length xs \<and> P (take (std_find c xs) xs) (drop (std_find c xs + 1) xs)"
    by simp
next
  assume a: "std_find c xs \<noteq> length xs \<and> P (take (std_find c xs) xs) (drop (std_find c xs + 1) xs)"
  have lt: "std_find c xs < length xs" by (rule le_neq_implies_less[OF std_find_le conjunct1[OF a]])
  have eq: "xs = take (std_find c xs) xs @ c # drop (std_find c xs + 1) xs"
    using id_take_nth_drop[OF lt] by (simp only: std_find_nth[OF lt] Suc_eq_plus1)
  show "\<exists>x y. xs = x @ c # y \<and> c \<notin> set x \<and> P x y"
  proof (intro exI conjI)
    show "xs = take (std_find c xs) xs @ c # drop (std_find c xs + 1) xs" by (rule eq)
    show "c \<notin> set (take (std_find c xs) xs)" by (rule std_find_before)
    show "P (take (std_find c xs) xs) (drop (std_find c xs + 1) xs)" using a by (rule conjunct2)
  qed
qed

lemma ParseRequestLine_fst:
  "fst (ParseRequestLine line r) \<longleftrightarrow>
     std_find CHR '' '' line \<noteq> length line \<and> fst (set_method (take (std_find CHR '' '' line) line) r)
     \<and> (let start = drop (std_find CHR '' '' line + 1) line
        in std_find CHR '' '' start \<noteq> length start
           \<and> fst (parse_version (drop (std_find CHR '' '' start + 1) start) r))"
  unfolding ParseRequestLine_def Let_def
  by (simp add: parse_version_iff case_prod_unfold del: drop_drop length_drop)

definition accepted_methods :: "string set" where
  "accepted_methods = {''GET'', ''POST'', ''HEAD'', ''PUT'', ''DELETE''}"

lemma ParseRequestLine_iff:
  "fst (ParseRequestLine line r) \<longleftrightarrow>
     (\<exists>m t v. line = m @ CHR '' '' # t @ CHR '' '' # v \<and> m \<in> accepted_methods \<and> CHR '' '' \<notin> set t
        \<and> length v = 8 \<and> last v \<in> {CHR ''0'', CHR ''1''})"
proof -
  let ?V = "\<lambda>v::string. length v = 8 \<and> last v \<in> {CHR ''0'', CHR ''1''}"
  have meth: "fst (set_method s r) \<longleftrightarrow> s \<in> accepted_methods" for s
    by (simp add: set_method_exact accepted_methods_def)
  have nosp: "m \<in> accepted_methods \<Longrightarrow> CHR '' '' \<notin> set m" for m
    by (auto simp: accepted_methods_def)
  have inner: "(\<exists>t v. y = t @ CHR '' '' # v \<and> CHR '' '' \<notin> set t \<and> ?V v) \<longleftrightarrow>
    std_find CHR '' '' y \<noteq> length y \<and> ?V (drop (std_find CHR '' '' y + 1) y)" for y
    by (rule split_at_first)
  have "fst (ParseRequestLine line r) \<longleftrightarrow>
    (\<exists>m y. line = m @ CHR '' '' # y \<and> CHR '' '' \<notin> set m \<and>
       (m \<in> accepted_methods \<and> (\<exists>t v. y = t @ CHR '' '' # v \<and> CHR '' '' \<notin> set t \<and> ?V v)))"
    unfolding inner split_at_first[of line "CHR '' ''"]
    by (simp only: ParseRequestLine_fst Let_def parse_version_iff meth insert_iff empty_iff simp_thms)
  also have "\<dots> \<longleftrightarrow> (\<exists>m t v. line = m @ CHR '' '' # t @ CHR '' '' # v \<and> m \<in> accepted_methods
      \<and> CHR '' '' \<notin> set t \<and> ?V v)"
    using nosp by blast
  finally show ?thesis by simp
qed

text \<open>
  Claim C38. \<^verbatim>\<open>ParseRequestLine\<close> accepts a line exactly when it is one of the five method
  names, a space, a target without a space, a space, and eight more bytes of which only the last
  one is looked at: it must be 0 or 1. The comparison with \<^verbatim>\<open>"HTTP/1."\<close> never rejects
  anything, so a version such as \<^verbatim>\<open>XXXXXXX1\<close> is accepted too.
\<close>

theorem ParseRequestLine_accepts:
  "fst (ParseRequestLine line r) \<longleftrightarrow>
     (\<exists>m t v. line = m @ CHR '' '' # t @ CHR '' '' # v \<and> m \<in> accepted_methods \<and> CHR '' '' \<notin> set t
        \<and> length v = 8 \<and> last v \<in> {CHR ''0'', CHR ''1''})"
  by (rule ParseRequestLine_iff)

lemma ParseRequestLine_bad_version: "fst (ParseRequestLine ''GET / XXXXXXX1'' r)"
  unfolding ParseRequestLine_iff accepted_methods_def
  by (rule exI[of _ "''GET''"], rule exI[of _ "''/''"], rule exI[of _ "''XXXXXXX1''"]) simp

section \<open>Printing and parsing\<close>

text \<open>A request as a client sends it, and when it can be sent without quoting.\<close>

record raw_request =
  raw_method :: string
  raw_path :: string
  raw_query :: string
  raw_version :: http_version
  raw_headers :: "(string \<times> string) list"

definition version_text :: "http_version \<Rightarrow> string" where
  "version_text v = (if v = HTTP10 then ''HTTP/1.0'' else ''HTTP/1.1'')"

definition render_line :: "raw_request \<Rightarrow> string" where
  "render_line q = raw_method q @ CHR '' '' # (raw_path q @ raw_query q) @ CHR '' '' # version_text (raw_version q)"

definition render_header :: "string \<times> string \<Rightarrow> string" where
  "render_header h = fst h @ CHR '':'' # '' '' @ snd h"

definition render_headers :: "(string \<times> string) list \<Rightarrow> string" where
  "render_headers hs = concat (map (\<lambda>h. render_header h @ crlf) hs) @ crlf"

definition render_request :: "raw_request \<Rightarrow> string" where
  "render_request q = render_line q @ crlf @ render_headers (raw_headers q)"

definition wf_header :: "string \<times> string \<Rightarrow> bool" where
  "wf_header h = (CHR '':'' \<notin> set (fst h) \<and> LF \<notin> set (fst h) \<and> trimmed (snd h) \<and> LF \<notin> set (snd h))"

definition wf_raw :: "raw_request \<Rightarrow> bool" where
  "wf_raw q = (raw_method q \<in> {''GET'', ''POST'', ''HEAD'', ''PUT''}
     \<and> CHR '' '' \<notin> set (raw_path q) \<and> CHR ''?'' \<notin> set (raw_path q) \<and> LF \<notin> set (raw_path q)
     \<and> (raw_query q = [] \<or> hd (raw_query q) = CHR ''?'')
     \<and> CHR '' '' \<notin> set (raw_query q) \<and> LF \<notin> set (raw_query q)
     \<and> raw_version q \<noteq> UNKNOWN \<and> list_all wf_header (raw_headers q))"

definition method_of :: "string \<Rightarrow> http_method" where
  "method_of m = (if m = ''GET'' then GET else if m = ''POST'' then POST
     else if m = ''HEAD'' then HEAD else PUT)"

definition put_all :: "(string \<times> string) list \<Rightarrow> string smap \<Rightarrow> string smap" where
  "put_all hs m = foldl (\<lambda>m kv. smap_put (fst kv) (snd kv) m) m hs"

definition parsed :: "raw_request \<Rightarrow> http_request \<Rightarrow> http_request" where
  "parsed q r = r\<lparr>req_method := method_of (raw_method q), req_version := raw_version q,
     req_path := raw_path q, req_query := raw_query q,
     req_headers := put_all (raw_headers q) (req_headers r)\<rparr>"

lemma parse_version_text:
  "v \<noteq> UNKNOWN \<Longrightarrow> parse_version (version_text v) r = (True, set_version v r)"
  by (cases v) (simp_all add: version_text_def parse_version_def)

lemma ParseRequestLine_render:
  assumes "wf_raw q"
  shows "ParseRequestLine (render_line q) r =
    (True, r\<lparr>req_method := method_of (raw_method q), req_version := raw_version q,
       req_path := raw_path q, req_query := raw_query q\<rparr>)"
proof -
  let ?start = "(raw_path q @ raw_query q) @ CHR '' '' # version_text (raw_version q)"
  have "CHR '' '' \<notin> set (raw_method q)" using assms by (auto simp: wf_raw_def)
  then have s1: "std_find CHR '' '' (render_line q) = length (raw_method q)"
    unfolding render_line_def by (rule std_find_first)
  have s2: "std_find CHR '' '' ?start = length (raw_path q @ raw_query q)"
    using assms by (intro std_find_first) (auto simp: wf_raw_def)
  have q1: "std_find CHR ''?'' (raw_path q @ raw_query q) = length (raw_path q)"
  proof (cases "raw_query q")
    case Nil
    then show ?thesis using assms std_find_iff[of "CHR ''?''" "raw_path q"] by (simp add: wf_raw_def)
  next
    case (Cons a as)
    then show ?thesis using assms by (simp add: wf_raw_def std_find_first)
  qed
  have sm: "set_method (raw_method q) r = (True, r\<lparr>req_method := method_of (raw_method q)\<rparr>)"
    using assms by (auto simp: wf_raw_def set_method_def method_of_def)
  have tk: "take (length (raw_method q)) (render_line q) = raw_method q"
    and dr: "drop (length (raw_method q) + 1) (render_line q) = ?start"
    and len: "length (raw_method q) \<noteq> length (render_line q)"
    by (simp_all add: render_line_def)
  have pv: "parse_version (version_text (raw_version q)) r' = (True, set_version (raw_version q) r')" for r'
    using assms by (simp add: wf_raw_def parse_version_text)
  show ?thesis
    unfolding ParseRequestLine_def Let_def s1 tk dr s2
    using len q1 sm pv by (simp add: set_query_def set_path_def set_version_def)
qed

lemma LF_not_letters [simp]:
  "LF \<noteq> CHR '' ''" "LF \<noteq> CHR '':''"
  by (simp_all add: LF_def)

lemma LF_notin_version: "LF \<notin> set (version_text v)"
  by (simp add: version_text_def LF_def)

lemma LF_notin_line: "wf_raw q \<Longrightarrow> LF \<notin> set (render_line q)"
  using LF_notin_version by (auto simp: wf_raw_def render_line_def LF_def)

lemma AddHeader_render:
  assumes "wf_header h"
  shows "AddHeader (render_header h) (std_find CHR '':'' (render_header h)) r
     = r\<lparr>req_headers := smap_put (fst h) (snd h) (req_headers r)\<rparr>"
proof -
  have "std_find CHR '':'' (render_header h) = length (fst h)"
    unfolding render_header_def using assms by (intro std_find_first) (simp add: wf_header_def)
  moreover have "strip_trailing (dropWhile isspace ('' '' @ snd h @ [])) = snd h"
    using assms by (intro strip_pad) (simp_all add: isspace_def wf_header_def)
  ultimately show ?thesis by (simp add: AddHeader_def render_header_def)
qed

lemma header_spec_render:
  "list_all wf_header hs \<Longrightarrow> header_spec r (render_headers hs @ rest)
     = Some (r\<lparr>req_headers := put_all hs (req_headers r)\<rparr>, rest)"
proof (induction hs arbitrary: r)
  case Nil
  have "split_line (crlf @ rest) = Some ([], rest)" using split_line_None_prefix[of "[]" rest] by simp
  then show ?case
    by (subst header_spec.simps) (simp add: render_headers_def put_all_def)
next
  case (Cons h hs)
  have wf: "wf_header h" and wfs: "list_all wf_header hs" using Cons.prems by simp_all
  then have "LF \<notin> set (render_header h)" by (auto simp: wf_header_def render_header_def LF_def)
  then have "split_line (render_header h @ crlf @ (render_headers hs @ rest))
      = Some (render_header h, render_headers hs @ rest)" by (rule split_line_None_prefix)
  then have "split_line (render_headers (h # hs) @ rest) = Some (render_header h, render_headers hs @ rest)"
    by (simp add: render_headers_def)
  moreover have "CHR '':'' \<in> set (render_header h)" by (simp add: render_header_def)
  ultimately show ?case
    using Cons.IH[OF wfs, of "r\<lparr>req_headers := smap_put (fst h) (snd h) (req_headers r)\<rparr>"]
    by (subst header_spec.simps) (simp add: AddHeader_render[OF wf] put_all_def)
qed

lemma request_spec_render:
  assumes "wf_raw q" and "ctx_state c = ExpectRequestLine"
  shows "request_spec c (render_request q @ rest)
    = Some (True, c\<lparr>ctx_request := parsed q (ctx_request c), ctx_state := Done\<rparr>, rest)"
proof -
  have "split_line (render_request q @ rest) = Some (render_line q, render_headers (raw_headers q) @ rest)"
    using split_line_None_prefix[OF LF_notin_line[OF assms(1)]] by (simp add: render_request_def)
  moreover have "list_all wf_header (raw_headers q)" using assms(1) by (simp add: wf_raw_def)
  ultimately show ?thesis
    using assms(2) ParseRequestLine_render[OF assms(1)]
    by (simp add: request_spec_def finish_def header_spec_render parsed_def)
qed

lemma GetHeader_parsed:
  "request_inv r \<Longrightarrow> GetHeader f (parsed q r) =
     (case map_of (rev (raw_headers q)) f of Some v \<Rightarrow> v | None \<Rightarrow> GetHeader f r)"
  by (simp add: GetHeader_def parsed_def put_all_def request_inv_def smap.look_puts split: option.split)

text \<open>
  Claim C21. Round trip: when the buffer starts with the text of a well formed request, one call
  of \<^verbatim>\<open>ParseRequest\<close> accepts it, is done, consumes exactly that text, and stores its
  method, target, query, version and headers; the last of two equal header names wins.
\<close>

theorem ParseRequest_roundtrip:
  assumes "buf_inv b" and "payload b = render_request q @ rest" and "wf_raw q"
    and "ctx_state c = ExpectRequestLine" and "request_inv (ctx_request c)"
  shows "\<exists>c' b'. ParseRequest c b = Some (Inr (True, c', b')) \<and> is_done c' \<and> buf_inv b' \<and> payload b' = rest
     \<and> req_method (ctx_request c') = method_of (raw_method q)
     \<and> req_path (ctx_request c') = raw_path q \<and> req_query (ctx_request c') = raw_query q
     \<and> req_version (ctx_request c') = raw_version q
     \<and> (\<forall>f. GetHeader f (ctx_request c') =
          (case map_of (rev (raw_headers q)) f of Some v \<Rightarrow> v | None \<Rightarrow> GetHeader f (ctx_request c)))"
proof -
  let ?c = "c\<lparr>ctx_request := parsed q (ctx_request c), ctx_state := Done\<rparr>"
  have "request_spec c (payload b) = Some (True, ?c, rest)"
    using request_spec_render[OF assms(3,4)] assms(2) by simp
  with ParseRequest_cases[OF assms(1), of c] obtain b' where
    "ParseRequest c b = Some (Inr (True, ?c, b'))" "buf_inv b'" "payload b' = rest" by auto
  moreover have "\<forall>f. GetHeader f (ctx_request ?c) =
      (case map_of (rev (raw_headers q)) f of Some v \<Rightarrow> v | None \<Rightarrow> GetHeader f (ctx_request c))"
    using GetHeader_parsed[OF assms(5)] by simp
  ultimately show ?thesis
    by (intro exI[of _ ?c] exI[of _ b']) (simp add: is_done_def parsed_def)
qed

definition demo_request :: raw_request where
  "demo_request = \<lparr>raw_method = ''GET'', raw_path = ''/hello'', raw_query = ''?x=1'',
     raw_version = HTTP11, raw_headers = [(''Host'', ''a'')]\<rparr>"

lemma demo_request_wf: "wf_raw demo_request"
  by (simp add: wf_raw_def demo_request_def wf_header_def trimmed_def isspace_def LF_def)

lemma buffer_with: "\<exists>b. buf_inv b \<and> payload b = d"
  using bq.enq_ok[OF buffer_init_inv, of d] by auto

lemma context_init_simps [simp]:
  "ctx_state context_init = ExpectRequestLine" "ctx_request context_init = request_init"
  by (simp_all add: context_init_def)

theorem ParseRequest_roundtrip_witness:
  "\<exists>b c' b'. payload b = render_request demo_request \<and> ParseRequest context_init b = Some (Inr (True, c', b'))
     \<and> req_path (ctx_request c') = ''/hello'' \<and> payload b' = []"
proof -
  obtain b where b: "buf_inv b" "payload b = render_request demo_request @ []"
    using buffer_with[of "render_request demo_request"] by auto
  show ?thesis
    using ParseRequest_roundtrip[OF b demo_request_wf, of context_init] b(2)
    by (auto simp: demo_request_def)
qed

text \<open>
  Claim C36. The parser does not wait for the rest of a request: when the bytes received so far
  hold a complete, acceptable request line and then an incomplete header line (or nothing), the
  call of \<^verbatim>\<open>ParseRequest\<close> never returns.
\<close>

theorem ParseRequest_spins_on_partial_headers:
  assumes "buf_inv b" and "payload b = line @ crlf @ part" and "LF \<notin> set line" and "LF \<notin> set part"
    and "ctx_state c = ExpectRequestLine" and "fst (ParseRequestLine line (ctx_request c))"
  shows "ParseRequest c b = None"
proof -
  obtain r where r: "ParseRequestLine line (ctx_request c) = (True, r)"
    using assms(6) by (cases "ParseRequestLine line (ctx_request c)") auto
  have "split_line part = None"
  proof (rule ccontr)
    assume "split_line part \<noteq> None"
    then have "std_search crlf part < length part"
      using std_search_le[of crlf part] by (auto simp: split_line_def Let_def le_neq_implies_less split: if_splits)
    from std_search_hit[OF crlf_neq_Nil this] have "LF \<in> set (drop (std_search crlf part) part)"
      by (auto simp: prefix_def crlf_def)
    then show False using assms(4) in_set_dropD by fast
  qed
  then have "header_spec r part = None" by (subst header_spec.simps) simp
  then have "request_spec c (payload b) = None"
    using r assms(2,5) split_line_None_prefix[OF assms(3)]
    by (simp add: request_spec_def finish_def)
  then show ?thesis using ParseRequest_cases[OF assms(1), of c] by simp
qed

theorem ParseRequest_spins_witness:
  "\<exists>b. payload b = ''GET / HTTP/1.1'' @ crlf @ ''Host: a'' \<and> ParseRequest context_init b = None"
proof -
  obtain b where b: "buf_inv b" "payload b = ''GET / HTTP/1.1'' @ crlf @ ''Host: a''"
    using buffer_with by blast
  have "fst (ParseRequestLine ''GET / HTTP/1.1'' request_init)" by code_simp
  then show ?thesis
    using ParseRequest_spins_on_partial_headers[OF b, of context_init] b(2) by (auto simp: LF_def)
qed

text \<open>
  \<^verbatim>\<open>Reset\<close> keeps the old request: on a connection that is kept alive, a header
  of an earlier request is still found in a later request that does not carry it.
\<close>

theorem Reset_leaks_headers:
  assumes "buf_inv b" and "payload b = render_request q @ rest" and "wf_raw q"
    and "request_inv (ctx_request c)" and "f \<notin> fst ` set (raw_headers q)"
  shows "\<exists>c' b'. ParseRequest (Reset c) b = Some (Inr (True, c', b')) \<and> is_done c'
     \<and> GetHeader f (ctx_request c') = GetHeader f (ctx_request c)"
proof -
  let ?c = "Reset c\<lparr>ctx_request := parsed q (ctx_request (Reset c)), ctx_state := Done\<rparr>"
  have "request_spec (Reset c) (payload b) = Some (True, ?c, rest)"
    using request_spec_render[OF assms(3), of "Reset c"] assms(2) by (simp add: Reset_def)
  with ParseRequest_cases[OF assms(1), of "Reset c"] obtain b' where
    "ParseRequest (Reset c) b = Some (Inr (True, ?c, b'))" by auto
  moreover have "map_of (rev (raw_headers q)) f = None"
    using assms(5) by (simp add: map_of_eq_None_iff)
  then have "GetHeader f (ctx_request ?c) = GetHeader f (ctx_request c)"
    using GetHeader_parsed[OF assms(4)] by (simp add: Reset_def)
  ultimately show ?thesis by (intro exI[of _ ?c] exI[of _ b']) (simp add: is_done_def)
qed

theorem Reset_leaks_headers_witness:
  "\<exists>b c' b'. ParseRequest (Reset (context_init\<lparr>ctx_request :=
       request_init\<lparr>req_headers := [(''Connection'', ''close'')]\<rparr>\<rparr>)) b = Some (Inr (True, c', b'))
     \<and> GetHeader ''Connection'' (ctx_request c') = ''close''"
proof -
  obtain b where b: "buf_inv b" "payload b = render_request demo_request @ []"
    using buffer_with[of "render_request demo_request"] by auto
  let ?r = "request_init\<lparr>req_headers := [(''Connection'', ''close'')]\<rparr>"
  have "request_inv ?r" by (simp add: request_inv_def smap_inv_def)
  then show ?thesis
    using Reset_leaks_headers[OF b demo_request_wf, of "context_init\<lparr>ctx_request := ?r\<rparr>" "''Connection''"]
    by (fastforce simp: demo_request_def GetHeader_def smap_get_def)
qed

end
