(* ===== verification/TcpConnection.thy ===== *)
theory TcpConnection
  imports Buffer EventHandler HttpContext
begin

text \<open>
  \<^verbatim>\<open>net/tcpconnection.h\<close> and \<^verbatim>\<open>net/tcpconnection.cc\<close>: one established connection,
  its state machine and its output path. The kernel is a parameter: \<open>wr d\<close> is the result of
  \<^verbatim>\<open>write(fd, d, length d)\<close>, an error number or how many bytes it took; \<open>readv\<close> is that of
  \<open>Buffer\<close>. The effects outside of the object are fields of the record: \<open>wire\<close>, the bytes
  the kernel has taken so far; \<open>fin\<close>, whether \<^verbatim>\<open>shutdown(SHUT_WR)\<close> was called;
  \<open>conn_tasks\<close>, the functions handed to \<^verbatim>\<open>dispatcher_->QueueInLoop\<close> for this connection,
  in order; \<open>conn_calls\<close>, the callbacks invoked. The flag \<open>same\<close> is
  \<^verbatim>\<open>dispatcher_->is_same_thread()\<close>.
\<close>

datatype conn_state = CONNECTING | CONNECTED | DISCONNECTING | DISCONNECTED

text \<open>
  A queued function keeps its bound arguments: \<open>TSendInLoop obj off len\<close> holds the pointer
  \<open>off\<close> bytes into the object \<open>obj\<close>, not the bytes.
\<close>

datatype conn_task =
    TWriteComplete | THighWater nat | TSendInLoop nat nat nat | TShutDownInLoop | TFlush

datatype conn_call = CbWriteComplete | CbHighWater nat | CbClose

record tcp_conn =
  conn_state :: conn_state
  conn_handler :: event_handler
  input_buf :: buffer
  output_buf :: buffer
  high_water_mark :: nat
  has_write_complete :: bool
  has_high_water :: bool
  conn_context :: "http_context option"
  wire :: string
  fin :: bool
  conn_tasks :: "conn_task list"
  conn_calls :: "conn_call list"

type_synonym write_fun = "string \<Rightarrow> int + nat"

definition TcpConnection_new :: "int \<Rightarrow> tcp_conn" where
  "TcpConnection_new fd = \<lparr>conn_state = CONNECTING, conn_handler = new_handler fd,
     input_buf = buffer_init, output_buf = buffer_init, high_water_mark = 64 * 1024 * 1024,
     has_write_complete = False, has_high_water = False, conn_context = None,
     wire = [], fin = False, conn_tasks = [], conn_calls = []\<rparr>"

definition is_connected :: "tcp_conn \<Rightarrow> bool" where
  "is_connected c = (conn_state c = CONNECTED)"

definition set_context :: "http_context \<Rightarrow> tcp_conn \<Rightarrow> tcp_conn" where
  "set_context ctx c = c\<lparr>conn_context := Some ctx\<rparr>"

definition set_write_complete_callback :: "bool \<Rightarrow> tcp_conn \<Rightarrow> tcp_conn" where
  "set_write_complete_callback present c = c\<lparr>has_write_complete := present\<rparr>"

definition set_high_water_mark_callback :: "bool \<Rightarrow> nat \<Rightarrow> tcp_conn \<Rightarrow> tcp_conn" where
  "set_high_water_mark_callback present mark c = c\<lparr>has_high_water := present, high_water_mark := mark\<rparr>"

definition queue_task :: "conn_task \<Rightarrow> tcp_conn \<Rightarrow> tcp_conn" where
  "queue_task t c = c\<lparr>conn_tasks := conn_tasks c @ [t]\<rparr>"

definition on_handler :: "(event_handler \<Rightarrow> event_handler) \<Rightarrow> tcp_conn \<Rightarrow> tcp_conn" where
  "on_handler f c = c\<lparr>conn_handler := f (conn_handler c)\<rparr>"

text \<open>\<^verbatim>\<open>AssertInLoopThread\<close> aborts in any other thread.\<close>

definition in_loop :: "bool \<Rightarrow> 'a res \<Rightarrow> 'a res" where
  "in_loop same r = (if same then r else Inl Aborted)"

section \<open>Sending\<close>

text \<open>The direct attempt of \<^verbatim>\<open>SendInLoop\<close>: how many bytes it wrote, and the connection.\<close>

definition direct_write :: "write_fun \<Rightarrow> string \<Rightarrow> tcp_conn \<Rightarrow> nat \<times> tcp_conn" where
  "direct_write wr data c =
     (case wr data of
        Inr n \<Rightarrow>
          (let c1 = c\<lparr>wire := wire c @ take n data\<rparr>;
               remain = length data - n
           in (n, if n < length data then c1
                  else if remain = 0 \<and> has_write_complete c then queue_task TWriteComplete c1
                  else c1))
      | Inl err \<Rightarrow> (0, c))"

definition buffer_rest :: "string \<Rightarrow> tcp_conn \<Rightarrow> tcp_conn res" where
  "buffer_rest rest c =
     (let remain = length rest; old_len = payload_size (output_buf c);
          c1 = (if old_len + remain \<ge> high_water_mark c \<and> old_len < high_water_mark c
                   \<and> has_high_water c
                then queue_task (THighWater (old_len + remain)) c else c)
      in rbind (Append rest (output_buf c1)) (\<lambda>b.
         let c2 = c1\<lparr>output_buf := b\<rparr>
         in Inr (if \<not> is_care_write (conn_handler c2) then on_handler set_care_write c2 else c2)))"

definition SendInLoop :: "bool \<Rightarrow> write_fun \<Rightarrow> string \<Rightarrow> tcp_conn \<Rightarrow> tcp_conn res" where
  "SendInLoop same wr data c = in_loop same
     (case (if \<not> is_care_write (conn_handler c) \<and> payload_size (output_buf c) = 0
            then direct_write wr data c else (0, c)) of
        (n, c1) \<Rightarrow>
          let remain = length data - n
          in if remain > 0 then buffer_rest (drop n data) c1 else Inr c1)"

text \<open>\<open>obj\<close> is the memory object that holds the argument of \<^verbatim>\<open>Send\<close>.\<close>

definition Send :: "bool \<Rightarrow> write_fun \<Rightarrow> nat \<Rightarrow> string \<Rightarrow> tcp_conn \<Rightarrow> tcp_conn res" where
  "Send same wr obj str c =
     (if conn_state c = CONNECTED
      then if same then SendInLoop same wr str c
           else Inr (queue_task (TSendInLoop obj 0 (length str)) c)
      else Inr c)"

definition Send_buffer ::
  "bool \<Rightarrow> write_fun \<Rightarrow> nat \<Rightarrow> buffer \<Rightarrow> tcp_conn \<Rightarrow> (tcp_conn \<times> buffer) res" where
  "Send_buffer same wr obj buf c =
     (if conn_state c = CONNECTED
      then if same
           then rbind (GetStringNoMove buf) (\<lambda>d. rbind (SendInLoop same wr d c) (\<lambda>c'.
                Inr (c', move_read_index_all buf)))
           else Inr (queue_task (TSendInLoop obj (read_index buf) (payload_size buf)) c,
                     move_read_index_all buf)
      else Inr (c, buf))"

text \<open>One \<^verbatim>\<open>write\<close>, and then the whole output buffer is dropped.\<close>

definition Flush :: "write_fun \<Rightarrow> tcp_conn \<Rightarrow> tcp_conn" where
  "Flush wr c =
     (let d = payload (output_buf c);
          c1 = (case wr d of Inr n \<Rightarrow> c\<lparr>wire := wire c @ take n d\<rparr> | Inl err \<Rightarrow> c)
      in c1\<lparr>output_buf := move_read_index_all (output_buf c1)\<rparr>)"

definition FlushOutputBuf :: "bool \<Rightarrow> write_fun \<Rightarrow> tcp_conn \<Rightarrow> tcp_conn" where
  "FlushOutputBuf same wr c =
     (if conn_state c = CONNECTED
      then if same then Flush wr c else queue_task TFlush c
      else c)"

section \<open>Shutting down\<close>

definition ShutDownInLoop :: "bool \<Rightarrow> tcp_conn \<Rightarrow> tcp_conn res" where
  "ShutDownInLoop same c = in_loop same
     (Inr (if \<not> is_care_write (conn_handler c) then c\<lparr>fin := True\<rparr> else c))"

definition ShutDown :: "bool \<Rightarrow> tcp_conn \<Rightarrow> tcp_conn res" where
  "ShutDown same c =
     (if conn_state c = CONNECTED
      then let c1 = c\<lparr>conn_state := DISCONNECTING\<rparr>
           in if same then ShutDownInLoop same c1 else Inr (queue_task TShutDownInLoop c1)
      else Inr c)"

section \<open>Establishing and destroying\<close>

text \<open>Calling an empty \<^verbatim>\<open>std::function\<close> throws, which nothing catches.\<close>

definition user_call :: "('s \<Rightarrow> 's res) option \<Rightarrow> 's \<Rightarrow> 's res" where
  "user_call f s = (case f of None \<Rightarrow> Inl Aborted | Some g \<Rightarrow> g s)"

definition set_connection_established ::
  "bool \<Rightarrow> (tcp_conn \<Rightarrow> tcp_conn res) option \<Rightarrow> tcp_conn \<Rightarrow> tcp_conn res" where
  "set_connection_established same on_conn c = in_loop same
     (assert_then (conn_state c = CONNECTING)
       (user_call on_conn (on_handler set_care_read (c\<lparr>conn_state := CONNECTED\<rparr>))))"

definition set_connection_destroyed ::
  "bool \<Rightarrow> (tcp_conn \<Rightarrow> tcp_conn res) option \<Rightarrow> tcp_conn \<Rightarrow> tcp_conn res" where
  "set_connection_destroyed same on_conn c = in_loop same
     (assert_then (conn_state c = CONNECTED \<or> conn_state c = DISCONNECTING)
       (rbind (user_call on_conn (on_handler set_stop_care_all (c\<lparr>conn_state := DISCONNECTED\<rparr>)))
          (\<lambda>c'. Inr (on_handler RemoveEventHandler c'))))"

section \<open>Handlers of epoll events\<close>

definition HandleClose :: "tcp_conn \<Rightarrow> tcp_conn res" where
  "HandleClose c =
     assert_then (conn_state c = CONNECTED \<or> conn_state c = DISCONNECTING)
       (let c1 = on_handler set_stop_care_all c in Inr (c1\<lparr>conn_calls := conn_calls c1 @ [CbClose]\<rparr>))"

text \<open>\<^verbatim>\<open>HandleError\<close> only reads the socket error and logs it.\<close>

definition HandleError :: "tcp_conn \<Rightarrow> tcp_conn" where
  "HandleError c = c"

definition HandleRead ::
  "(nat list \<Rightarrow> int + string) \<Rightarrow> (tcp_conn \<Rightarrow> tcp_conn res) option \<Rightarrow> tcp_conn \<Rightarrow> tcp_conn res" where
  "HandleRead readv on_msg c =
     rbind (readFd readv (input_buf c)) (\<lambda>(r, b).
       let c1 = c\<lparr>input_buf := b\<rparr>
       in case r of
            Inl err \<Rightarrow> Inr (HandleError c1)
          | Inr n \<Rightarrow> if n > 0 then user_call on_msg c1 else HandleClose c1)"

definition HandleWrite :: "write_fun \<Rightarrow> tcp_conn \<Rightarrow> tcp_conn res" where
  "HandleWrite wr c =
     (if is_care_write (conn_handler c)
      then let d = payload (output_buf c)
           in case wr d of
                Inl err \<Rightarrow> Inr c
              | Inr n \<Rightarrow>
                  if n > 0
                  then rbind (move_read_index n (output_buf c)) (\<lambda>b.
                       let c1 = c\<lparr>wire := wire c @ take n d, output_buf := b\<rparr>
                       in if payload_size b = 0
                          then let c2 = on_handler set_stop_care_write c1;
                                   c3 = (if has_write_complete c2 then queue_task TWriteComplete c2 else c2)
                               in if conn_state c3 = DISCONNECTING then ShutDownInLoop True c3 else Inr c3
                          else Inr c1)
                  else Inr c
      else Inr c)"

text \<open>
  The constructor's bindings: the error and the close function are bound to
  \<^verbatim>\<open>HandleWrite\<close>, as in the source.
\<close>

fun conn_funcs ::
  "(nat list \<Rightarrow> int + string) \<Rightarrow> write_fun \<Rightarrow> (tcp_conn \<Rightarrow> tcp_conn res) option
    \<Rightarrow> event_func \<Rightarrow> (tcp_conn \<Rightarrow> tcp_conn res) option" where
  "conn_funcs readv wr on_msg ReadFunc = Some (HandleRead readv on_msg)"
| "conn_funcs readv wr on_msg WriteFunc = Some (HandleWrite wr)"
| "conn_funcs readv wr on_msg ErrorFunc = Some (HandleWrite wr)"
| "conn_funcs readv wr on_msg CloseFunc = Some (HandleWrite wr)"

definition conn_event ::
  "(nat list \<Rightarrow> int + string) \<Rightarrow> write_fun \<Rightarrow> (tcp_conn \<Rightarrow> tcp_conn res) option
    \<Rightarrow> mask \<Rightarrow> tcp_conn \<Rightarrow> tcp_conn res" where
  "conn_event readv wr on_msg revents c =
     HandleEvent (\<lambda>on. on_handler (\<lambda>h. h\<lparr>eh_handling := on\<rparr>)) (conn_funcs readv wr on_msg) revents c"

text \<open>
  A queued function run by the loop thread. \<open>mem\<close> is the memory at that moment: the bytes of
  each live object, None for an object that no longer exists.
\<close>

fun run_task :: "(nat \<Rightarrow> string option) \<Rightarrow> write_fun \<Rightarrow> conn_task \<Rightarrow> tcp_conn \<Rightarrow> tcp_conn res" where
  "run_task mem wr TWriteComplete c = Inr (c\<lparr>conn_calls := conn_calls c @ [CbWriteComplete]\<rparr>)"
| "run_task mem wr (THighWater n) c = Inr (c\<lparr>conn_calls := conn_calls c @ [CbHighWater n]\<rparr>)"
| "run_task mem wr (TSendInLoop obj off len) c =
     (case mem obj of
        None \<Rightarrow> Inl OutOfRange
      | Some m \<Rightarrow> rbind (mem_read m off len) (\<lambda>d. SendInLoop True wr d c))"
| "run_task mem wr TShutDownInLoop c = ShutDownInLoop True c"
| "run_task mem wr TFlush c = Inr (Flush wr c)"

section \<open>The output path\<close>

text \<open>What \<^verbatim>\<open>write(2)\<close> documents: it takes at most the bytes it was given.\<close>

definition kernel_ok :: "write_fun \<Rightarrow> bool" where
  "kernel_ok wr = (\<forall>d n. wr d = Inr n \<longrightarrow> n \<le> length d)"

lemma kernel_okD: "kernel_ok wr \<Longrightarrow> wr d = Inr n \<Longrightarrow> n \<le> length d"
  by (simp add: kernel_ok_def)

text \<open>All bytes accepted for sending: those on the wire and those that wait.\<close>

definition outgoing :: "tcp_conn \<Rightarrow> string" where
  "outgoing c = wire c @ payload (output_buf c)"

text \<open>
  The invariant of the output path: write interest is registered exactly while bytes wait, and
  nothing waits once the FIN has been sent, which only happens after \<^verbatim>\<open>ShutDown\<close>.
\<close>

definition conn_inv :: "tcp_conn \<Rightarrow> bool" where
  "conn_inv c = (buf_inv (input_buf c) \<and> buf_inv (output_buf c)
     \<and> (is_care_write (conn_handler c) \<longleftrightarrow> payload (output_buf c) \<noteq> [])
     \<and> (fin c \<longrightarrow> payload (output_buf c) = [] \<and> conn_state c \<in> {DISCONNECTING, DISCONNECTED}))"

lemma conn_sel_simps [simp]:
  "conn_state (queue_task t c) = conn_state c" "conn_handler (queue_task t c) = conn_handler c"
  "input_buf (queue_task t c) = input_buf c" "output_buf (queue_task t c) = output_buf c"
  "wire (queue_task t c) = wire c" "fin (queue_task t c) = fin c"
  "has_write_complete (queue_task t c) = has_write_complete c"
  "has_high_water (queue_task t c) = has_high_water c"
  "high_water_mark (queue_task t c) = high_water_mark c"
  "conn_context (queue_task t c) = conn_context c" "conn_calls (queue_task t c) = conn_calls c"
  "conn_tasks (queue_task t c) = conn_tasks c @ [t]"
  "conn_state (on_handler f c) = conn_state c" "conn_handler (on_handler f c) = f (conn_handler c)"
  "input_buf (on_handler f c) = input_buf c" "output_buf (on_handler f c) = output_buf c"
  "wire (on_handler f c) = wire c" "fin (on_handler f c) = fin c"
  "has_write_complete (on_handler f c) = has_write_complete c"
  "has_high_water (on_handler f c) = has_high_water c"
  "high_water_mark (on_handler f c) = high_water_mark c"
  "conn_context (on_handler f c) = conn_context c" "conn_calls (on_handler f c) = conn_calls c"
  "conn_tasks (on_handler f c) = conn_tasks c"
  by (simp_all add: queue_task_def on_handler_def)

lemma in_loop_True [simp]: "in_loop True r = r"
  by (simp add: in_loop_def)

lemma in_loop_False [simp]: "in_loop False r = Inl Aborted"
  by (simp add: in_loop_def)

lemma payload_size_zero: "buf_inv b \<Longrightarrow> payload_size b = 0 \<longleftrightarrow> payload b = []"
  using length_payload[of b] by auto

lemma direct_write_spec:
  assumes "kernel_ok wr" and "direct_write wr data c = (n, c1)"
  shows "n \<le> length data" and "wire c1 = wire c @ take n data"
    and "conn_state c1 = conn_state c" "conn_handler c1 = conn_handler c"
    "input_buf c1 = input_buf c" "output_buf c1 = output_buf c" "fin c1 = fin c"
    "conn_context c1 = conn_context c" "conn_calls c1 = conn_calls c"
  using assms kernel_okD[OF assms(1), of data]
  by (auto simp: direct_write_def Let_def split: sum.splits if_splits)

lemma buffer_rest_spec:
  assumes "buf_inv (output_buf c)"
  shows "\<exists>c'. buffer_rest rest c = Inr c' \<and> buf_inv (output_buf c')
     \<and> payload (output_buf c') = payload (output_buf c) @ rest \<and> is_care_write (conn_handler c')
     \<and> wire c' = wire c \<and> conn_state c' = conn_state c \<and> input_buf c' = input_buf c \<and> fin c' = fin c
     \<and> conn_context c' = conn_context c \<and> conn_calls c' = conn_calls c"
proof -
  obtain b where "Append rest (output_buf c) = Inr b" "buf_inv b"
    "payload b = payload (output_buf c) @ rest" using bq.enqE[OF assms] .
  then show ?thesis by (auto simp: buffer_rest_def Let_def)
qed

text \<open>What one call of \<^verbatim>\<open>SendInLoop\<close> leaves alone, and what it adds.\<close>

lemma SendInLoop_spec:
  assumes inv: "conn_inv c" and nofin: "\<not> fin c" and ok: "kernel_ok wr"
  shows "\<exists>c'. SendInLoop True wr data c = Inr c' \<and> conn_inv c' \<and> \<not> fin c'
     \<and> outgoing c' = outgoing c @ data
     \<and> conn_state c' = conn_state c \<and> input_buf c' = input_buf c
     \<and> conn_context c' = conn_context c \<and> conn_calls c' = conn_calls c"
proof -
  let ?direct = "\<not> is_care_write (conn_handler c) \<and> payload_size (output_buf c) = 0"
  obtain n c1 where d: "(if ?direct then direct_write wr data c else (0, c)) = (n, c1)" by fastforce
  have c1: "n \<le> length data" "wire c1 = wire c @ take n data" "conn_state c1 = conn_state c"
    "conn_handler c1 = conn_handler c" "input_buf c1 = input_buf c" "output_buf c1 = output_buf c"
    "fin c1 = fin c" "conn_context c1 = conn_context c" "conn_calls c1 = conn_calls c"
    using d direct_write_spec[OF ok, of data c n c1] by (auto split: if_splits)
  have n0: "payload (output_buf c) \<noteq> [] \<Longrightarrow> n = 0"
    using d inv by (auto simp: conn_inv_def payload_size_zero split: if_splits)
  then have out1: "outgoing c1 @ drop n data = outgoing c @ data"
    using c1 by (cases "payload (output_buf c) = []") (simp_all add: outgoing_def)
  show ?thesis
  proof (cases "length data - n > 0")
    case True
    have "buf_inv (output_buf c1)" using c1 inv by (simp add: conn_inv_def)
    from buffer_rest_spec[OF this, of "drop n data"] obtain c' where
      c': "buffer_rest (drop n data) c1 = Inr c'" "buf_inv (output_buf c')"
      "payload (output_buf c') = payload (output_buf c1) @ drop n data" "is_care_write (conn_handler c')"
      "wire c' = wire c1" "conn_state c' = conn_state c1" "input_buf c' = input_buf c1" "fin c' = fin c1"
      "conn_context c' = conn_context c1" "conn_calls c' = conn_calls c1" by blast
    have "SendInLoop True wr data c = Inr c'"
      unfolding SendInLoop_def d using True c'(1) by simp
    moreover have "conn_inv c'" using c' c1 inv nofin True by (simp add: conn_inv_def)
    moreover have "outgoing c' = outgoing c @ data" using c' out1 by (simp add: outgoing_def)
    ultimately show ?thesis using c' c1 nofin by simp
  next
    case False
    then have "n = length data" using c1(1) by simp
    moreover have "SendInLoop True wr data c = Inr c1"
      unfolding SendInLoop_def d using False by simp
    ultimately show ?thesis using c1 inv nofin out1 by (simp add: conn_inv_def)
  qed
qed

lemma ShutDown_spec:
  assumes "conn_inv c"
  shows "\<exists>c'. ShutDown True c = Inr c' \<and> conn_inv c' \<and> outgoing c' = outgoing c
     \<and> conn_state c' = (if conn_state c = CONNECTED then DISCONNECTING else conn_state c)
     \<and> (conn_state c = CONNECTED \<longrightarrow> (fin c' \<longleftrightarrow> payload (output_buf c) = []))
     \<and> input_buf c' = input_buf c \<and> conn_context c' = conn_context c \<and> wire c' = wire c"
  using assms by (auto simp: ShutDown_def ShutDownInLoop_def conn_inv_def outgoing_def)

lemma HandleWrite_spec:
  assumes inv: "conn_inv c" and ok: "kernel_ok wr"
  shows "\<exists>c'. HandleWrite wr c = Inr c' \<and> conn_inv c' \<and> outgoing c' = outgoing c
     \<and> conn_state c' = conn_state c \<and> conn_calls c' = conn_calls c
     \<and> (\<forall>n. payload (output_buf c) \<noteq> [] \<and> wr (payload (output_buf c)) = Inr n \<longrightarrow>
          wire c' = wire c @ take n (payload (output_buf c)) \<and>
          (n = length (payload (output_buf c)) \<and> conn_state c = DISCONNECTING \<longrightarrow> fin c'))"
proof (cases "is_care_write (conn_handler c)")
  case False
  then show ?thesis using inv by (simp add: HandleWrite_def conn_inv_def)
next
  case True
  let ?d = "payload (output_buf c)"
  have ne: "?d \<noteq> []" and b: "buf_inv (output_buf c)" and nofin: "\<not> fin c"
    using True inv by (auto simp: conn_inv_def)
  show ?thesis
  proof (cases "wr ?d")
    case (Inl err)
    then show ?thesis using True inv by (simp add: HandleWrite_def)
  next
    case (Inr n)
    show ?thesis
    proof (cases "n > 0")
      case False
      then show ?thesis using True inv Inr ne by (simp add: HandleWrite_def)
    next
      case pos: True
      have "n \<le> length ?d" using kernel_okD[OF ok Inr] .
      from bq.deq_ok[OF b this] obtain b' where
        b': "move_read_index n (output_buf c) = Inr b'" "buf_inv b'" "payload b' = drop n ?d" by blast
      then show ?thesis
        using True Inr pos inv nofin b'(2,3)
        by (auto simp: HandleWrite_def Let_def payload_size_zero conn_inv_def outgoing_def
            ShutDownInLoop_def)
    qed
  qed
qed

section \<open>Runs of the loop thread\<close>

text \<open>
  One step of the connection in its own thread before the peer closes it; the label is the
  argument of a \<^verbatim>\<open>Send\<close> that the connection accepted. Every step has its own kernel answers.
\<close>

inductive loop_step :: "tcp_conn \<Rightarrow> string \<Rightarrow> tcp_conn \<Rightarrow> bool" where
  established: "set_connection_established True (Some Inr) c = Inr c' \<Longrightarrow> loop_step c [] c'"
| send: "kernel_ok wr \<Longrightarrow> Send True wr obj d c = Inr c' \<Longrightarrow>
    loop_step c (if conn_state c = CONNECTED then d else []) c'"
| shutdown: "ShutDown True c = Inr c' \<Longrightarrow> loop_step c [] c'"
| writable: "kernel_ok wr \<Longrightarrow> HandleWrite wr c = Inr c' \<Longrightarrow> loop_step c [] c'"
| readable: "readv (read_iov (input_buf c)) = Inr bytes \<Longrightarrow> bytes \<noteq> [] \<Longrightarrow>
    readv_ok readv \<Longrightarrow>
    HandleRead readv (Some Inr) c = Inr c' \<Longrightarrow> loop_step c [] c'"
| notify: "t = TWriteComplete \<or> t = THighWater n \<Longrightarrow> run_task mem wr t c = Inr c' \<Longrightarrow> loop_step c [] c'"
| new_context: "loop_step c [] (c\<lparr>conn_context := x\<rparr>)"
| consume: "buf_inv b \<Longrightarrow> loop_step c [] (c\<lparr>input_buf := b\<rparr>)"

inductive loop_run :: "tcp_conn \<Rightarrow> string \<Rightarrow> tcp_conn \<Rightarrow> bool" where
  start: "loop_run c [] c"
| step: "loop_run c sent c1 \<Longrightarrow> loop_step c1 d c2 \<Longrightarrow> loop_run c (sent @ d) c2"

inductive_cases loop_stepE: "loop_step c d c'"

lemma readable_ok:
  assumes "conn_inv c" and "readv (read_iov (input_buf c)) = Inr bytes" and "bytes \<noteq> []"
    and "readv_ok readv"
  shows "\<exists>b. HandleRead readv on_msg c = user_call on_msg (c\<lparr>input_buf := b\<rparr>) \<and> buf_inv b
     \<and> payload b = payload (input_buf c) @ bytes"
proof -
  have "buf_inv (input_buf c)" using assms(1) by (simp add: conn_inv_def)
  from readFd_spec[OF this, of readv] assms(2,4) obtain b where
    "readFd readv (input_buf c) = Inr (Inr (length bytes), b)" "buf_inv b"
    "payload b = payload (input_buf c) @ bytes" by auto
  with assms(3) show ?thesis by (auto simp: HandleRead_def)
qed

lemma loop_step_inv:
  assumes "loop_step c d c'" and inv: "conn_inv c"
  shows "conn_inv c' \<and> outgoing c' = outgoing c @ d"
  using assms(1)
proof cases
  case established
  then show ?thesis using inv
    by (auto simp: set_connection_established_def user_call_def conn_inv_def outgoing_def)
next
  case (send wr obj d)
  show ?thesis
  proof (cases "conn_state c = CONNECTED")
    case True
    then have "\<not> fin c" using inv by (auto simp: conn_inv_def)
    from SendInLoop_spec[OF inv this send(2), of d] send True show ?thesis by (auto simp: Send_def)
  next
    case False
    then show ?thesis using send inv by (simp add: Send_def)
  qed
next
  case shutdown
  then show ?thesis using ShutDown_spec[OF inv] by auto
next
  case (writable wr)
  then show ?thesis using HandleWrite_spec[OF inv, of wr] by auto
next
  case (readable readv bytes)
  from readable_ok[OF inv this(2,3,4), of "Some Inr"] readable(1,5) show ?thesis
    using inv by (auto simp: user_call_def conn_inv_def outgoing_def)
next
  case (notify t n mem wr)
  then show ?thesis using inv by (auto simp: conn_inv_def outgoing_def)
next
  case (new_context x)
  then show ?thesis using inv by (simp add: conn_inv_def outgoing_def)
next
  case (consume b)
  then show ?thesis using inv by (simp add: conn_inv_def outgoing_def)
qed

lemma loop_run_inv: "loop_run c sent c' \<Longrightarrow> conn_inv c \<Longrightarrow> conn_inv c' \<and> outgoing c' = outgoing c @ sent"
proof (induction rule: loop_run.induct)
  case (step c sent c1 d c2)
  then show ?case using loop_step_inv by fastforce
qed simp

lemma direct_write_wire: "direct_write wr d c = (n, c') \<Longrightarrow> prefix (wire c) (wire c')"
  by (auto simp: direct_write_def Let_def split: sum.splits if_splits)

lemma buffer_rest_wire: "buffer_rest d c = Inr c' \<Longrightarrow> wire c' = wire c"
  by (auto simp: buffer_rest_def Let_def rbind_Inr_iff split: if_splits)

lemma SendInLoop_wire: "SendInLoop True wr d c = Inr c' \<Longrightarrow> prefix (wire c) (wire c')"
  by (auto simp: SendInLoop_def Let_def dest!: buffer_rest_wire direct_write_wire split: prod.splits if_splits)

lemma ShutDown_wire: "ShutDown True c = Inr c' \<Longrightarrow> wire c' = wire c"
  by (auto simp: ShutDown_def ShutDownInLoop_def Let_def split: if_splits)

lemma HandleWrite_wire: "HandleWrite wr c = Inr c' \<Longrightarrow> prefix (wire c) (wire c')"
  by (auto simp: HandleWrite_def ShutDownInLoop_def Let_def rbind_Inr_iff split: sum.splits if_splits)

lemma HandleRead_wire:
  assumes "HandleRead readv (Some Inr) c = Inr c'"
  shows "wire c' = wire c"
proof -
  from assms obtain r b where rb: "readFd readv (input_buf c) = Inr (r, b)"
    by (auto simp: HandleRead_def rbind_Inr_iff)
  show ?thesis
  proof (cases r)
    case (Inl err)
    with assms rb show ?thesis by (auto simp: HandleRead_def HandleError_def)
  next
    case (Inr n)
    with assms rb show ?thesis
      by (cases "n > 0") (auto simp: HandleRead_def HandleClose_def user_call_def Let_def)
  qed
qed

lemma loop_step_wire:
  assumes "loop_step c d c'"
  shows "prefix (wire c) (wire c')"
  using assms
proof cases
  case (send wr obj d)
  then show ?thesis by (auto simp: Send_def dest: SendInLoop_wire split: if_splits)
next
  case shutdown
  then show ?thesis by (simp add: ShutDown_wire)
next
  case (readable readv bytes)
  then show ?thesis by (simp add: HandleRead_wire)
qed (auto simp: set_connection_established_def user_call_def HandleWrite_wire)

text \<open>The output path is a channel from \<^verbatim>\<open>Send\<close> to the wire; the state carries what was sent.\<close>

interpretation out: fifo_channel
    "\<lambda>(c, snt) (c', snt'). \<exists>d. loop_step c d c' \<and> snt' = snt @ d"
    "\<lambda>(c, snt). conn_inv c \<and> outgoing c = snt" snd "\<lambda>(c, snt). wire c" "\<lambda>(c, snt). payload (output_buf c)"
proof (unfold_locales, goal_cases)
  case (1 s t)
  then show ?case using loop_step_inv by (cases s; cases t) fastforce
next
  case (4 s t)
  then show ?case using loop_step_wire by (cases s; cases t) auto
qed (auto simp: outgoing_def)

lemma out_run:
  "loop_run c after c' \<Longrightarrow>
     (\<lambda>(c, snt) (c', snt'). \<exists>d. loop_step c d c' \<and> snt' = snt @ d)\<^sup>*\<^sup>* (c, snt) (c', snt @ after)"
proof (induction rule: loop_run.induct)
  case (step c sent c1 d c2)
  then show ?case by (elim rtranclp.rtrancl_into_rtrancl) auto
qed simp

lemma TcpConnection_new_inv [simp]: "conn_inv (TcpConnection_new fd)"
  by (simp add: TcpConnection_new_def conn_inv_def)

lemma outgoing_new [simp]: "outgoing (TcpConnection_new fd) = []"
  by (simp add: TcpConnection_new_def outgoing_def)


definition take_one :: write_fun where
  "take_one d = Inr (min 1 (length d))"

lemma take_one_ok: "kernel_ok take_one"
  by (simp add: kernel_ok_def take_one_def)

lemma demo_run: "\<exists>c. loop_run (TcpConnection_new 5) ''hi'' c \<and> conn_state c = CONNECTED"
proof -
  let ?c = "on_handler set_care_read (TcpConnection_new 5\<lparr>conn_state := CONNECTED\<rparr>)"
  have e: "set_connection_established True (Some Inr) (TcpConnection_new 5) = Inr ?c"
    by (simp add: set_connection_established_def TcpConnection_new_def user_call_def)
  have i: "conn_inv ?c" "\<not> fin ?c" "conn_state ?c = CONNECTED"
    by (simp_all add: TcpConnection_new_def conn_inv_def)
  from SendInLoop_spec[OF i(1,2) take_one_ok, of "''hi''"] obtain c where
    c: "Send True take_one 0 ''hi'' ?c = Inr c" "conn_state c = CONNECTED"
    using i(3) by (auto simp: Send_def)
  have "loop_run (TcpConnection_new 5) ([] @ []) ?c"
    by (rule loop_run.step[OF loop_run.start loop_step.established[OF e]])
  from loop_run.step[OF this loop_step.send[OF take_one_ok c(1)]] i(3) c(2) show ?thesis by auto
qed


section \<open>Draining the output buffer\<close>

definition takes_some :: "write_fun \<Rightarrow> bool" where
  "takes_some wr = (kernel_ok wr \<and> (\<forall>d. d \<noteq> [] \<longrightarrow> (\<exists>n>0. wr d = Inr n)))"

text \<open>One writable event sends at least one byte of those that wait, and the last one also sends the FIN.\<close>

lemma drain_step:
  assumes "conn_inv c" and "takes_some wr" and "payload (output_buf c) \<noteq> []"
  shows "\<exists>c1 n. n > 0 \<and> HandleWrite wr c = Inr c1 \<and> conn_inv c1 \<and> outgoing c1 = outgoing c
     \<and> conn_state c1 = conn_state c \<and> payload (output_buf c1) = drop n (payload (output_buf c))
     \<and> (payload (output_buf c1) = [] \<and> conn_state c = DISCONNECTING \<longrightarrow> fin c1)"
proof -
  let ?d = "payload (output_buf c)"
  have ok: "kernel_ok wr" using assms(2) by (simp add: takes_some_def)
  obtain n where n: "n > 0" "wr ?d = Inr n" using assms(2,3) by (auto simp: takes_some_def)
  from HandleWrite_spec[OF assms(1) ok] n(2) assms(3) obtain c1 where
    c1: "HandleWrite wr c = Inr c1" "conn_inv c1" "outgoing c1 = outgoing c" "conn_state c1 = conn_state c"
    "wire c1 = wire c @ take n ?d" "n = length ?d \<and> conn_state c = DISCONNECTING \<longrightarrow> fin c1" by blast
  have "take n ?d @ payload (output_buf c1) = take n ?d @ drop n ?d"
    using c1(3,5) by (simp only: outgoing_def append_assoc same_append_eq append_take_drop_id)
  then have out: "payload (output_buf c1) = drop n ?d" by (simp only: same_append_eq)
  moreover have "payload (output_buf c1) = [] \<longrightarrow> n = length ?d" using out kernel_okD[OF ok n(2)] by simp
  ultimately show ?thesis using c1 n(1) by blast
qed

lemma drained_stays:
  "conn_inv c \<Longrightarrow> payload (output_buf c) = [] \<Longrightarrow> seq_res HandleWrite wrs c = Inr c"
  by (induction wrs) (simp_all add: HandleWrite_def conn_inv_def)

text \<open>
  Claim C18. Draining: as many writable events as there are bytes waiting are enough, whatever
  number of bytes the kernel takes each time as long as it takes one. Afterwards the output
  buffer is empty, every accepted byte is on the wire, write interest is off, and a shutdown that
  was waiting for the data has sent its FIN.
\<close>

theorem writable_events_drain:
  assumes "conn_inv c" and "\<forall>wr\<in>set wrs. takes_some wr"
    and "length (payload (output_buf c)) \<le> length wrs"
  shows "\<exists>c'. seq_res HandleWrite wrs c = Inr c' \<and> wire c' = outgoing c \<and> payload (output_buf c') = []
     \<and> \<not> is_care_write (conn_handler c') \<and> conn_state c' = conn_state c
     \<and> (conn_state c = DISCONNECTING \<and> payload (output_buf c) \<noteq> [] \<longrightarrow> fin c')"
  using assms
proof (induction wrs arbitrary: c)
  case Nil
  then show ?case by (simp add: outgoing_def conn_inv_def)
next
  case (Cons wr wrs)
  show ?case
  proof (cases "payload (output_buf c) = []")
    case True
    with Cons.prems(1) drained_stays[OF Cons.prems(1) True, of "wr # wrs"] show ?thesis
      by (simp add: outgoing_def conn_inv_def del: seq_res.simps)
  next
    case False
    have "takes_some wr" using Cons.prems(2) by simp
    from drain_step[OF Cons.prems(1) this False] obtain c1 n where
      c1: "n > 0" "HandleWrite wr c = Inr c1" "conn_inv c1" "outgoing c1 = outgoing c" "conn_state c1 = conn_state c"
      "payload (output_buf c1) = drop n (payload (output_buf c))"
      "payload (output_buf c1) = [] \<and> conn_state c = DISCONNECTING \<longrightarrow> fin c1" by blast
    have "\<forall>wr\<in>set wrs. takes_some wr" "length (payload (output_buf c1)) \<le> length wrs"
      using Cons.prems(2,3) c1(1,6) by simp_all
    from Cons.IH[OF c1(3) this] obtain c' where
      c': "seq_res HandleWrite wrs c1 = Inr c'" "wire c' = outgoing c1" "payload (output_buf c') = []"
      "\<not> is_care_write (conn_handler c')" "conn_state c' = conn_state c1"
      "conn_state c1 = DISCONNECTING \<and> payload (output_buf c1) \<noteq> [] \<longrightarrow> fin c'" by blast
    have "payload (output_buf c1) = [] \<longrightarrow> c' = c1" using drained_stays[OF c1(3)] c'(1) by auto
    with c' c1 show ?thesis by auto
  qed
qed

theorem writable_events_drain_witness:
  "\<exists>c c'. payload (output_buf c) = ''ab'' \<and> seq_res HandleWrite [take_one, take_one] c = Inr c' \<and> wire c' = ''ab''
     \<and> fin c'"
proof -
  obtain b where b: "buf_inv b" "payload b = ''ab''" using buffer_with by blast
  let ?c = "on_handler set_care_write
     (TcpConnection_new 5\<lparr>conn_state := DISCONNECTING, output_buf := b\<rparr>)"
  have i: "conn_inv ?c" "payload (output_buf ?c) = ''ab''" "outgoing ?c = ''ab''"
    "conn_state ?c = DISCONNECTING"
    using b by (simp_all add: TcpConnection_new_def conn_inv_def outgoing_def)
  have t: "takes_some take_one"
    by (auto simp: takes_some_def take_one_ok) (auto simp: take_one_def)
  have "\<forall>wr\<in>set [take_one, take_one]. takes_some wr"
    "length (payload (output_buf ?c)) \<le> length [take_one, take_one]"
    using t i(2) by simp_all
  from writable_events_drain[OF i(1) this] i(2-4) show ?thesis by force
qed

section \<open>The high water mark\<close>

fun is_high_water :: "conn_task \<Rightarrow> bool" where
  "is_high_water (THighWater n) = True"
| "is_high_water _ = False"

definition high_waters :: "tcp_conn \<Rightarrow> conn_task list" where
  "high_waters c = filter is_high_water (conn_tasks c)"

lemma SendInLoop_buffering:
  assumes "conn_inv c" and "payload (output_buf c) \<noteq> []"
  shows "SendInLoop True wr d c = (if d = [] then Inr c else buffer_rest d c)"
  using assms by (auto simp: SendInLoop_def conn_inv_def)

lemma buffer_rest_high:
  assumes "conn_inv c" and "buffer_rest d c = Inr c'"
  shows "high_water_mark c' = high_water_mark c" and "has_high_water c' = has_high_water c"
    and "high_waters c' = high_waters c @
      (if has_high_water c \<and> length (payload (output_buf c)) < high_water_mark c
          \<and> high_water_mark c \<le> length (payload (output_buf c)) + length d
       then [THighWater (length (payload (output_buf c)) + length d)] else [])"
  using assms length_payload[of "output_buf c"]
  by (auto simp: buffer_rest_def Let_def rbind_Inr_iff high_waters_def conn_inv_def on_handler_def
      split: if_splits)

lemma SendInLoop_grow:
  assumes "conn_inv c" and "payload (output_buf c) \<noteq> []" and "kernel_ok wr"
    and "SendInLoop True wr d c = Inr c1"
  shows "conn_inv c1" and "payload (output_buf c1) = payload (output_buf c) @ d"
proof -
  have nofin: "\<not> fin c" and b: "buf_inv (output_buf c)" using assms(1,2) by (auto simp: conn_inv_def)
  show "conn_inv c1" using SendInLoop_spec[OF assms(1) nofin assms(3), of d] assms(4) by auto
  show "payload (output_buf c1) = payload (output_buf c) @ d"
    using SendInLoop_buffering[OF assms(1,2), of wr d] buffer_rest_spec[OF b, of d] assms(4)
    by (auto split: if_splits)
qed

lemma sends_grow:
  "conn_inv c \<Longrightarrow> payload (output_buf c) \<noteq> [] \<Longrightarrow> kernel_ok wr \<Longrightarrow> seq_res (SendInLoop True wr) ds c = Inr c'
    \<Longrightarrow> payload (output_buf c') = payload (output_buf c) @ concat ds"
proof (induction ds arbitrary: c)
  case (Cons d ds)
  then show ?case using SendInLoop_grow[OF Cons.prems(1-3), of d] by (auto simp: rbind_Inr_iff)
qed simp

text \<open>
  The high water callback is edge triggered: over any sequence of Sends while data
  is waiting, it is queued exactly once if the buffered size passes the mark during the sequence,
  and never otherwise.
\<close>

theorem high_water_edge:
  assumes "conn_inv c" and "payload (output_buf c) \<noteq> []"
    and "kernel_ok wr" and "seq_res (SendInLoop True wr) ds c = Inr c'"
  shows "length (high_waters c') = length (high_waters c) +
      (if has_high_water c \<and> length (payload (output_buf c)) < high_water_mark c
          \<and> high_water_mark c \<le> length (payload (output_buf c)) + length (concat ds) then 1 else 0)"
  using assms
proof (induction ds arbitrary: c)
  case (Cons d ds)
  from Cons.prems(4) obtain c1 where
    s1: "SendInLoop True wr d c = Inr c1" and run: "seq_res (SendInLoop True wr) ds c1 = Inr c'"
    by (auto simp: rbind_Inr_iff)
  note g = SendInLoop_grow[OF Cons.prems(1-3) s1]
  have ih: "length (high_waters c') = length (high_waters c1) +
      (if has_high_water c1 \<and> length (payload (output_buf c1)) < high_water_mark c1
          \<and> high_water_mark c1 \<le> length (payload (output_buf c1)) + length (concat ds) then 1 else 0)"
    using Cons.IH[OF g(1) _ Cons.prems(3) run] g(2) Cons.prems(2) by simp
  show ?case
  proof (cases "d = []")
    case True
    with s1 SendInLoop_buffering[OF Cons.prems(1,2), of wr d] ih show ?thesis by simp
  next
    case False
    then have "buffer_rest d c = Inr c1" using s1 SendInLoop_buffering[OF Cons.prems(1,2), of wr d] by simp
    from buffer_rest_high[OF Cons.prems(1) this] ih g(2) show ?thesis by (auto split: if_splits)
  qed
qed simp

theorem high_water_edge_witness:
  "\<exists>c c'. high_waters c = [] \<and> seq_res (SendInLoop True take_one) [''ab'', ''cd'', ''ef''] c = Inr c'
     \<and> length (high_waters c') = 1"
proof -
  obtain b where b: "buf_inv b" "payload b = ''x''" using buffer_with by blast
  let ?c = "on_handler set_care_write (TcpConnection_new 5\<lparr>conn_state := CONNECTED, output_buf := b,
     high_water_mark := 4, has_high_water := True\<rparr>)"
  have i: "conn_inv ?c" "\<not> fin ?c" and p: "payload (output_buf ?c) \<noteq> []"
    using b by (simp_all add: TcpConnection_new_def conn_inv_def)
  have run: "conn_inv c \<Longrightarrow> \<not> fin c \<Longrightarrow> \<exists>c'. seq_res (SendInLoop True take_one) ds c = Inr c'" for c ds
  proof (induction ds arbitrary: c)
    case (Cons d ds)
    then show ?case using SendInLoop_spec[OF Cons.prems take_one_ok, of d] by auto
  qed simp
  from run[OF i, of "[''ab'', ''cd'', ''ef'']"] obtain c' where
    r: "seq_res (SendInLoop True take_one) [''ab'', ''cd'', ''ef''] ?c = Inr c'" ..
  have e: "high_waters ?c = []" "has_high_water ?c" "high_water_mark ?c = 4" "payload (output_buf ?c) = ''x''"
    using b by (simp_all add: high_waters_def TcpConnection_new_def)
  have "length (high_waters c') = 1"
    using high_water_edge[OF i(1) p take_one_ok r] e by simp
  then show ?thesis using r e(1) by blast
qed

section \<open>Hang-up, other threads, flushing\<close>

lemma handling_flag_inv [simp]:
  "conn_inv (on_handler (\<lambda>h. h\<lparr>eh_handling := on\<rparr>) c) = conn_inv c"
  by (simp add: conn_inv_def is_care_write_def)

text \<open>
  A hang-up or an error that comes without a readable event is never treated as a
  close: for every mask without EPOLLIN, EPOLLPRI and EPOLLRDHUP, in particular for EPOLLHUP alone,
  the callbacks of the connection leave its state as it is and never invoke the close callback,
  because both functions are bound to \<^verbatim>\<open>HandleWrite\<close>.
\<close>

theorem hup_never_closes:
  assumes "conn_inv c" and "kernel_ok wr" and "revents AND (EPOLLIN OR EPOLLPRI OR EPOLLRDHUP) = 0"
  shows "\<exists>c'. conn_event readv wr on_msg revents c = Inr c' \<and> conn_state c' = conn_state c
     \<and> conn_calls c' = conn_calls c"
proof -
  let ?P = "\<lambda>c'. conn_inv c' \<and> conn_state c' = conn_state c \<and> conn_calls c' = conn_calls c"
  have noread: "k \<in> set (event_calls revents) \<Longrightarrow> conn_funcs readv wr on_msg k = Some (HandleWrite wr)" for k
    using assms(3) by (cases k) (auto simp: event_calls_def split: if_splits)
  have run: "?P s \<Longrightarrow> set ks \<subseteq> set (event_calls revents) \<Longrightarrow>
      \<exists>s'. seq_res (call_func (conn_funcs readv wr on_msg)) ks s = Inr s' \<and> ?P s'" for s ks
  proof (induction ks arbitrary: s)
    case (Cons k ks)
    then have "call_func (conn_funcs readv wr on_msg) k s = HandleWrite wr s"
      by (simp add: call_func_def noread)
    with HandleWrite_spec[of s wr] Cons assms(2) show ?case by fastforce
  qed simp
  from run[of "on_handler (\<lambda>h. h\<lparr>eh_handling := True\<rparr>) c" "event_calls revents"] assms(1)
  show ?thesis by (auto simp: conn_event_def HandleEvent_def)
qed

theorem hup_never_closes_witness:
  "\<exists>c'. conn_event (\<lambda>_. Inl 104) take_one (Some Inr) (EPOLLHUP OR EPOLLERR)
      (TcpConnection_new 5\<lparr>conn_state := CONNECTED\<rparr>) = Inr c'
    \<and> conn_state c' = CONNECTED \<and> conn_calls c' = []"
proof -
  have "conn_inv (TcpConnection_new 5\<lparr>conn_state := CONNECTED\<rparr>)"
    by (simp add: TcpConnection_new_def conn_inv_def)
  from hup_never_closes[OF this take_one_ok, of "EPOLLHUP OR EPOLLERR"] show ?thesis
    by (simp add: TcpConnection_new_def)
qed

text \<open>
  A Send from another thread keeps a pointer: it queues one function, and what that
  function sends is whatever the memory holds when the loop thread runs it. The bytes of the call
  are sent only if the memory is unchanged until then, and if the string is gone the read is
  outside of every live object.
\<close>

theorem cross_thread_send_reads_late:
  assumes "conn_inv c" and "conn_state c = CONNECTED" and "kernel_ok wr"
  shows "\<exists>c1. Send False wr0 obj d c = Inr c1 \<and> conn_tasks c1 = conn_tasks c @ [TSendInLoop obj 0 (length d)]
     \<and> outgoing c1 = outgoing c
     \<and> (\<forall>mem m. mem obj = Some m \<and> length d \<le> length m \<longrightarrow>
          (\<exists>c2. run_task mem wr (last (conn_tasks c1)) c1 = Inr c2
             \<and> outgoing c2 = outgoing c @ take (length d) m))
     \<and> (\<forall>mem. mem obj = None \<longrightarrow> run_task mem wr (last (conn_tasks c1)) c1 = Inl OutOfRange)"
proof -
  let ?c = "queue_task (TSendInLoop obj 0 (length d)) c"
  have "conn_inv ?c" "\<not> fin ?c" using assms(1,2) by (auto simp: conn_inv_def)
  from SendInLoop_spec[OF this assms(3)] show ?thesis
    using assms(2) by (auto simp: Send_def mem_read_def outgoing_def)
qed

theorem cross_thread_send_witness:
  "\<exists>c c1 c2. Send False take_one 7 ''ab'' c = Inr c1
     \<and> run_task (\<lambda>o'. Some ''zz'') take_one (last (conn_tasks c1)) c1 = Inr c2 \<and> outgoing c2 = ''zz''"
proof -
  let ?c = "TcpConnection_new 5\<lparr>conn_state := CONNECTED\<rparr>"
  have i: "conn_inv ?c" "conn_state ?c = CONNECTED" "outgoing ?c = []"
    by (simp_all add: TcpConnection_new_def conn_inv_def outgoing_def)
  from cross_thread_send_reads_late[OF i(1,2) take_one_ok, of take_one 7 "''ab''"] i(3) obtain c1 where
    c1: "Send False take_one 7 ''ab'' ?c = Inr c1"
    and r: "\<forall>mem m. mem 7 = Some m \<and> length ''ab'' \<le> length m \<longrightarrow>
       (\<exists>c2. run_task mem take_one (last (conn_tasks c1)) c1 = Inr c2
          \<and> outgoing c2 = [] @ take (length ''ab'') m)" by auto
  from r[rule_format, of "\<lambda>o'. Some ''zz''" "''zz''"] c1 show ?thesis by auto
qed

text \<open>
  \<^verbatim>\<open>FlushOutputBuf\<close> writes once and forgets the rest: after a partial write the bytes the
  kernel did not take are in neither place.
\<close>

lemma FlushOutputBuf_drops:
  "conn_state c = CONNECTED \<Longrightarrow> wr (payload (output_buf c)) = Inr n \<Longrightarrow>
     outgoing (FlushOutputBuf True wr c) = wire c @ take n (payload (output_buf c))"
  by (simp add: FlushOutputBuf_def Flush_def outgoing_def Let_def)

end
