(* ===== verification/HttpResponse.thy ===== *)
theory HttpResponse
  imports HttpContext
begin

text \<open>
  \<^verbatim>\<open>http/httpresponse.h\<close> and \<^verbatim>\<open>http/httpresponse.cc\<close>: the response and its text.
  \<open>response_chunks\<close> lists the arguments of the \<^verbatim>\<open>Append\<close> calls of
  \<^verbatim>\<open>AppendToBuffer\<close> in order.
\<close>

datatype http_status = Unknown | Ok | MovePermanently | BadRequest | NotFound | ServiceUnavailable

fun status_value :: "http_status \<Rightarrow> int" where
  "status_value Unknown = 0"
| "status_value Ok = 200"
| "status_value MovePermanently = 301"
| "status_value BadRequest = 400"
| "status_value NotFound = 404"
| "status_value ServiceUnavailable = 503"

record http_response =
  resp_headers :: "string smap"
  resp_status :: http_status
  resp_message :: string
  resp_close :: bool
  resp_body :: string

definition response_init :: "bool \<Rightarrow> http_response" where
  "response_init close = \<lparr>resp_headers = [], resp_status = Unknown, resp_message = [],
     resp_close = close, resp_body = []\<rparr>"

definition set_status_code :: "http_status \<Rightarrow> http_response \<Rightarrow> http_response" where
  "set_status_code s r = r\<lparr>resp_status := s\<rparr>"

definition set_status_message :: "string \<Rightarrow> http_response \<Rightarrow> http_response" where
  "set_status_message s r = r\<lparr>resp_message := s\<rparr>"

definition set_close_connection :: "bool \<Rightarrow> http_response \<Rightarrow> http_response" where
  "set_close_connection on r = r\<lparr>resp_close := on\<rparr>"

definition add_header :: "string \<Rightarrow> string \<Rightarrow> http_response \<Rightarrow> http_response" where
  "add_header k v r = r\<lparr>resp_headers := smap_put k v (resp_headers r)\<rparr>"

definition set_content_type :: "string \<Rightarrow> http_response \<Rightarrow> http_response" where
  "set_content_type t r = add_header ''Content-Type'' t r"

definition set_body :: "string \<Rightarrow> http_response \<Rightarrow> http_response" where
  "set_body s r = r\<lparr>resp_body := s\<rparr>"

text \<open>\<^verbatim>\<open>buf\<close> has 32 bytes, so \<^verbatim>\<open>snprintf\<close> keeps at most 31 characters.\<close>

definition response_chunks :: "http_response \<Rightarrow> string list" where
  "response_chunks r =
     [snprintf_keep 32 (''HTTP/1.1 '' @ dec_int (status_value (resp_status r)) @ '' ''),
      resp_message r, crlf]
     @ (if resp_close r then [''Connection: close'' @ crlf]
        else [snprintf_keep 32 (''Content-Length: '' @ dec_nat (length (resp_body r)) @ crlf),
              ''Connection: Keep-Alive'' @ crlf])
     @ concat (map (\<lambda>h. [fst h, '': '', snd h, crlf]) (resp_headers r))
     @ [crlf, resp_body r]"

definition AppendToBuffer :: "http_response \<Rightarrow> buffer \<Rightarrow> buffer res" where
  "AppendToBuffer r output = seq_res Append (response_chunks r) output"

section \<open>The text of a response\<close>

definition status_line :: "http_response \<Rightarrow> string" where
  "status_line r = ''HTTP/1.1 '' @ dec_int (status_value (resp_status r)) @ '' '' @ resp_message r"

definition fixed_headers :: "http_response \<Rightarrow> (string \<times> string) list" where
  "fixed_headers r =
     (if resp_close r then [(''Connection'', ''close'')]
      else [(''Content-Length'', dec_nat (length (resp_body r))), (''Connection'', ''Keep-Alive'')])"

definition response_text :: "http_response \<Rightarrow> string" where
  "response_text r =
     status_line r @ crlf @ render_headers (fixed_headers r @ resp_headers r) @ resp_body r"

definition response_inv :: "http_response \<Rightarrow> bool" where
  "response_inv r = (smap_inv (resp_headers r) \<and> length (resp_body r) < 10 ^ 13)"

lemma dec_status: "dec_int (status_value s) = (case s of Unknown \<Rightarrow> ''0'' | Ok \<Rightarrow> ''200''
   | MovePermanently \<Rightarrow> ''301'' | BadRequest \<Rightarrow> ''400'' | NotFound \<Rightarrow> ''404'' | ServiceUnavailable \<Rightarrow> ''503'')"
  by (cases s) (simp_all add: dec_int_def, code_simp+)

lemma dec_int_0: "dec_int 0 = ''0''"
  by code_simp

lemma concat_chunks:
  "length (resp_body r) < 10 ^ 13 \<Longrightarrow> concat (response_chunks r) = response_text r"
proof -
  assume small: "length (resp_body r) < 10 ^ 13"
  have "length (dec_nat (length (resp_body r))) \<le> 13" by (rule length_dec_nat_le[OF small]) simp
  then have cl: "snprintf_keep 32 (''Content-Length: '' @ dec_nat (length (resp_body r)) @ crlf)
      = ''Content-Length: '' @ dec_nat (length (resp_body r)) @ crlf"
    by (intro snprintf_keep_id) (simp add: crlf_def)
  have st: "snprintf_keep 32 (''HTTP/1.1 '' @ dec_int (status_value (resp_status r)) @ '' '')
      = ''HTTP/1.1 '' @ dec_int (status_value (resp_status r)) @ '' ''"
    by (intro snprintf_keep_id) (simp add: dec_status split: http_status.split)
  have hs: "concat (concat (map (\<lambda>h. [fst h, '': '', snd h, crlf]) hs))
      = concat (map (\<lambda>h. render_header h @ crlf) hs)" for hs
    by (induction hs) (simp_all add: render_header_def)
  show ?thesis
    unfolding response_chunks_def cl st
    by (simp add: response_text_def status_line_def hs render_headers_def fixed_headers_def
        render_header_def)
qed

lemma AppendToBuffer_spec:
  assumes "buf_inv b" and "length (resp_body r) < 10 ^ 13"
  shows "\<exists>b'. AppendToBuffer r b = Inr b' \<and> buf_inv b' \<and> payload b' = payload b @ response_text r"
  using bq.enq_seq[OF assms(1), of "response_chunks r"] concat_chunks[OF assms(2)]
  by (simp add: AppendToBuffer_def)

text \<open>
  \<^verbatim>\<open>AppendToBuffer\<close> adds the status line, the headers and the body of the
  response to the end of the buffer and nothing else, without leaving the buffer, and no
  formatted number is cut off by the 32 byte scratch array while the body is below ten trillion bytes.
\<close>

theorem AppendToBuffer_correct:
  assumes "buf_inv b" and "length (resp_body r) < 10 ^ 13"
  shows "\<exists>b'. AppendToBuffer r b = Inr b' \<and> buf_inv b' \<and> payload b' = payload b @ response_text r"
  using assms by (rule AppendToBuffer_spec)

theorem AppendToBuffer_correct_witness:
  "\<exists>b'. AppendToBuffer (response_init True) buffer_init = Inr b'
     \<and> payload b' = ''HTTP/1.1 0 '' @ crlf @ ''Connection: close'' @ crlf @ crlf"
  using AppendToBuffer_correct[OF buffer_init_inv, of "response_init True"]
  by (auto simp: response_init_def response_text_def status_line_def dec_status render_headers_def
      fixed_headers_def render_header_def dec_int_0)



end
