(* ===== verification/HttpServer.thy ===== *)
theory HttpServer
  imports TcpConnection HttpResponse
begin

text \<open>
  \<^verbatim>\<open>http/httpserver.cc\<close>: the HTTP callbacks of a connection, and the callback of
  \<^verbatim>\<open>http/httptest.cc\<close>. \<open>cb\<close> is the user's \<^verbatim>\<open>http_call_back_\<close>; \<open>same\<close>, \<open>wr\<close> and
  \<open>obj\<close> are those of \<open>TcpConnection\<close>. The input buffer of the connection is the
  \<^verbatim>\<open>Buffer*\<close> that \<^verbatim>\<open>HandleRead\<close> passes on.
\<close>

type_synonym http_callback = "http_request \<Rightarrow> http_response \<Rightarrow> http_response"

definition DefaultHttpCallBack :: http_callback where
  "DefaultHttpCallBack req r =
     set_close_connection True (set_status_message ''Not Found'' (set_status_code NotFound r))"

record http_server =
  http_call_back :: http_callback
  num_conn :: int
  max_conn :: int

definition HttpServer_new :: "int \<Rightarrow> http_server" where
  "HttpServer_new m = \<lparr>http_call_back = DefaultHttpCallBack, num_conn = 0, max_conn = m\<rparr>"

definition set_call_back :: "http_callback \<Rightarrow> http_server \<Rightarrow> http_server" where
  "set_call_back cb s = s\<lparr>http_call_back := cb\<rparr>"

definition OnConnection :: "tcp_conn \<Rightarrow> tcp_conn res" where
  "OnConnection c = Inr (if is_connected c then set_context context_init c else c)"

definition wants_close :: "http_request \<Rightarrow> bool" where
  "wants_close req =
     (let connection = GetHeader ''Connection'' req
      in connection = ''close'' \<or> (req_version req = HTTP10 \<and> connection \<noteq> ''Keep-Alive''))"

definition OnRequest ::
  "bool \<Rightarrow> write_fun \<Rightarrow> nat \<Rightarrow> http_callback \<Rightarrow> http_request \<Rightarrow> tcp_conn \<Rightarrow> tcp_conn res" where
  "OnRequest same wr obj cb req c =
     (let response = cb req (response_init (wants_close req))
      in rbind (AppendToBuffer response buffer_init) (\<lambda>buf.
         rbind (Send_buffer same wr obj buf c) (\<lambda>(c1, buf').
         if resp_close response then ShutDown same c1 else Inr c1)))"

definition bad_request_text :: string where
  "bad_request_text = ''HTTP/1.1 400 Bad Request'' @ crlf @ crlf"

text \<open>None: \<^verbatim>\<open>ParseRequest\<close> does not return.\<close>

definition OnMessage ::
  "bool \<Rightarrow> write_fun \<Rightarrow> nat \<Rightarrow> http_callback \<Rightarrow> tcp_conn \<Rightarrow> tcp_conn res option" where
  "OnMessage same wr obj cb c =
     (case conn_context c of
        None \<Rightarrow> Some (Inl NullDeref)
      | Some ctx \<Rightarrow>
          (case ParseRequest ctx (input_buf c) of
             None \<Rightarrow> None
           | Some (Inl e) \<Rightarrow> Some (Inl e)
           | Some (Inr (ok, ctx', b)) \<Rightarrow>
               (let c1 = c\<lparr>conn_context := Some ctx', input_buf := b\<rparr>
                in Some
                 (rbind (if ok then Inr c1
                         else rbind (Send same wr obj bad_request_text c1) (ShutDown same)) (\<lambda>c2.
                  if is_done ctx'
                  then rbind (OnRequest same wr obj cb (ctx_request ctx') c2) (\<lambda>c3.
                       Inr (c3\<lparr>conn_context := Some (Reset ctx')\<rparr>))
                  else Inr c2)))))"

text \<open>\<^verbatim>\<open>OnMessage\<close> as the message callback of a connection.\<close>

definition message_callback ::
  "bool \<Rightarrow> write_fun \<Rightarrow> nat \<Rightarrow> http_callback \<Rightarrow> tcp_conn \<Rightarrow> tcp_conn res" where
  "message_callback same wr obj cb c =
     (case OnMessage same wr obj cb c of None \<Rightarrow> Inl Diverges | Some r \<Rightarrow> r)"

definition response_503 :: "bool \<Rightarrow> write_fun \<Rightarrow> nat \<Rightarrow> tcp_conn \<Rightarrow> tcp_conn res" where
  "response_503 same wr obj c =
     (let response =
        set_body (''<html><head><title>Yxalp</title></head>''
                  @ ''<body><h1>Service Temporary Unavailable</h1></body></html>'')
         (add_header ''Server'' ''Yxalp''
         (set_content_type ''text/html''
         (set_status_message ''Service Temporary Unavailable''
         (set_status_code ServiceUnavailable (response_init True)))))
      in rbind (AppendToBuffer response buffer_init) (\<lambda>buf.
         rbind (Send_buffer same wr obj buf c) (\<lambda>(c1, buf'). ShutDown same c1)))"

text \<open>The callback of the example server; \<open>favicon\<close> is its 555 byte image.\<close>

definition example_OnRequest :: "string \<Rightarrow> http_callback" where
  "example_OnRequest favicon req resp =
     (if req_path req = ''/'' then
        set_body (''<html><head><title>Yxalp</title></head>'' @ ''<body><h1>Hello</h1></body></html>'')
         (add_header ''Server'' ''Yxalp''
         (set_content_type ''text/html'' (set_status_message ''OK'' (set_status_code Ok resp))))
      else if req_path req = ''/favicon.ico'' then
        set_body favicon
         (set_content_type ''image/png'' (set_status_message ''OK'' (set_status_code Ok resp)))
      else if req_path req = ''/hello'' then
        set_body (''hello, world!'' @ [LF])
         (add_header ''Server'' ''Yxalp''
         (set_content_type ''text/plain'' (set_status_message ''OK'' (set_status_code Ok resp))))
      else
        set_close_connection True (set_status_message ''Not Found'' (set_status_code NotFound resp)))"

section \<open>One message\<close>

text \<open>Sending a local buffer and sending its bytes are the same in the loop thread.\<close>

lemma Send_buffer_spec:
  assumes "conn_inv c" and "kernel_ok wr" and "buf_inv buf" and "conn_state c = CONNECTED"
  shows "\<exists>c'. Send_buffer True wr obj buf c = Inr (c', move_read_index_all buf) \<and> conn_inv c'
     \<and> outgoing c' = outgoing c @ payload buf \<and> conn_state c' = CONNECTED \<and> input_buf c' = input_buf c
     \<and> conn_context c' = conn_context c"
proof -
  have "\<not> fin c" using assms(1,4) by (auto simp: conn_inv_def)
  from SendInLoop_spec[OF assms(1) this assms(2), of "payload buf"] obtain c' where
    "SendInLoop True wr (payload buf) c = Inr c'" "conn_inv c'" "outgoing c' = outgoing c @ payload buf"
    "conn_state c' = CONNECTED" "input_buf c' = input_buf c" "conn_context c' = conn_context c"
    using assms(4) by auto
  then show ?thesis using assms(3,4) by (simp add: Send_buffer_def GetStringNoMove_spec)
qed

lemma OnRequest_connected:
  assumes "conn_inv c" and "kernel_ok wr" and "conn_state c = CONNECTED"
    and "resp = cb req (response_init (wants_close req))" and "length (resp_body resp) < 10 ^ 13"
  shows "\<exists>c'. OnRequest True wr obj cb req c = Inr c' \<and> conn_inv c'
     \<and> outgoing c' = outgoing c @ response_text resp \<and> input_buf c' = input_buf c
     \<and> conn_state c' = (if resp_close resp then DISCONNECTING else CONNECTED)"
proof -
  obtain buf where buf: "AppendToBuffer resp buffer_init = Inr buf" "buf_inv buf"
    "payload buf = response_text resp"
    using AppendToBuffer_spec[OF buffer_init_inv assms(5)] by auto
  from Send_buffer_spec[OF assms(1,2) buf(2) assms(3)] obtain c1 where
    c1: "Send_buffer True wr obj buf c = Inr (c1, move_read_index_all buf)" "conn_inv c1"
    "outgoing c1 = outgoing c @ response_text resp" "conn_state c1 = CONNECTED" "input_buf c1 = input_buf c"
    using buf(3) by metis
  from ShutDown_spec[OF c1(2)] obtain c2 where
    c2: "ShutDown True c1 = Inr c2" "conn_inv c2" "outgoing c2 = outgoing c1"
    "conn_state c2 = DISCONNECTING" "input_buf c2 = input_buf c1" using c1(4) by auto
  show ?thesis
    unfolding OnRequest_def Let_def assms(4)[symmetric] buf(1)
    using c1 c2 by simp
qed

lemma OnRequest_closing:
  assumes "conn_state c \<noteq> CONNECTED"
    and "length (resp_body (cb req (response_init (wants_close req)))) < 10 ^ 13"
  shows "OnRequest True wr obj cb req c = Inr c"
  using AppendToBuffer_spec[OF buffer_init_inv assms(2)] assms(1)
  by (auto simp: OnRequest_def Let_def Send_buffer_def ShutDown_def)

lemma conn_inv_updates [simp]:
  "conn_inv (c\<lparr>conn_context := x\<rparr>) = conn_inv c"
  "outgoing (c\<lparr>conn_context := x\<rparr>) = outgoing c"
  "outgoing (c\<lparr>input_buf := b\<rparr>) = outgoing c"
  "buf_inv b \<Longrightarrow> conn_inv c \<Longrightarrow> conn_inv (c\<lparr>input_buf := b\<rparr>)"
  by (simp_all add: conn_inv_def outgoing_def)

definition demo_callback :: http_callback where
  "demo_callback = example_OnRequest []"

lemma Reset_request [simp]: "ctx_request (Reset c) = ctx_request c" "ctx_state (Reset c) = ExpectRequestLine"
  by (simp_all add: Reset_def)

lemma request_inv_parsed: "request_inv r \<Longrightarrow> request_inv (parsed q r)"
  by (simp add: request_inv_def parsed_def put_all_def smap.puts_inv)

text \<open>
  What one well formed request at the front of the input buffer leads to: \<open>req\<close> is the parsed
  request, on top of what the context kept of the previous one, and \<open>resp\<close> the answer to it.
\<close>

lemma OnMessage_request:
  assumes inv: "conn_inv c" and ok: "kernel_ok wr"
    and ctx: "conn_context c = Some ctx" "ctx_state ctx = ExpectRequestLine"
    and inp: "payload (input_buf c) = render_request q @ rest" and wf: "wf_raw q"
    and req: "req = parsed q (ctx_request ctx)"
    and resp: "resp = cb req (response_init (wants_close req))" "length (resp_body resp) < 10 ^ 13"
  shows "\<exists>c' ctx'. OnMessage True wr obj cb c = Some (Inr c') \<and> conn_inv c' \<and> payload (input_buf c') = rest
     \<and> conn_context c' = Some ctx' \<and> ctx_state ctx' = ExpectRequestLine \<and> ctx_request ctx' = req
     \<and> outgoing c' = outgoing c @ (if conn_state c = CONNECTED then response_text resp else [])
     \<and> conn_state c' = (if conn_state c = CONNECTED \<and> resp_close resp then DISCONNECTING else conn_state c)"
proof -
  have b: "buf_inv (input_buf c)" using inv by (simp add: conn_inv_def)
  let ?ctx = "ctx\<lparr>ctx_request := req, ctx_state := Done\<rparr>"
  have "request_spec ctx (payload (input_buf c)) = Some (True, ?ctx, rest)"
    using request_spec_render[OF wf ctx(2), of rest] inp req by simp
  with ParseRequest_cases[OF b, of ctx] obtain b' where
    p: "ParseRequest ctx (input_buf c) = Some (Inr (True, ?ctx, b'))" "buf_inv b'" "payload b' = rest" by auto
  let ?c1 = "c\<lparr>conn_context := Some ?ctx, input_buf := b'\<rparr>"
  have i1: "conn_inv ?c1" "outgoing ?c1 = outgoing c" using inv p(2) by (simp_all add: conn_inv_def outgoing_def)
  have run: "OnMessage True wr obj cb c = Some (rbind (OnRequest True wr obj cb req ?c1)
      (\<lambda>c3. Inr (c3\<lparr>conn_context := Some (Reset ?ctx)\<rparr>)))"
    using p(1) ctx(1) by (simp add: OnMessage_def is_done_def)
  show ?thesis
  proof (cases "conn_state c = CONNECTED")
    case True
    then have "conn_state ?c1 = CONNECTED" by simp
    from OnRequest_connected[of ?c1 wr resp cb req obj, OF i1(1) ok this resp(1,2)] obtain c2 where
      c2: "OnRequest True wr obj cb req ?c1 = Inr c2" "conn_inv c2"
      "outgoing c2 = outgoing ?c1 @ response_text resp" "input_buf c2 = b'"
      "conn_state c2 = (if resp_close resp then DISCONNECTING else CONNECTED)" by auto
    show ?thesis unfolding run c2(1) using c2(2-5) i1(2) True p(3) by simp
  next
    case False
    then have "OnRequest True wr obj cb req ?c1 = Inr ?c1"
      using OnRequest_closing[of ?c1 cb req wr obj] resp by simp
    then show ?thesis unfolding run using i1 False p(2,3) inv by simp
  qed
qed

text \<open>
  A complete request is answered: when the input of an established connection starts
  with the text of a well formed request, \<^verbatim>\<open>OnMessage\<close> returns, appends exactly the serialised
  response of the user's callback to the outgoing bytes, leaves the bytes after the request in the
  input buffer, is ready for the next request, and closes its sending side exactly when the
  response asks for it.
\<close>

theorem OnMessage_answers:
  assumes "conn_inv c" and "kernel_ok wr" and "conn_state c = CONNECTED"
    and "conn_context c = Some ctx" and "ctx_state ctx = ExpectRequestLine"
    and "payload (input_buf c) = render_request q @ rest" and "wf_raw q"
    and "req = parsed q (ctx_request ctx)"
    and "resp = cb req (response_init (wants_close req))" and "length (resp_body resp) < 10 ^ 13"
  shows "\<exists>c' ctx'. OnMessage True wr obj cb c = Some (Inr c') \<and> conn_inv c'
     \<and> outgoing c' = outgoing c @ response_text resp \<and> payload (input_buf c') = rest
     \<and> conn_context c' = Some ctx' \<and> ctx_state ctx' = ExpectRequestLine
     \<and> conn_state c' = (if resp_close resp then DISCONNECTING else CONNECTED)"
  using OnMessage_request[of c wr ctx q rest req resp cb obj, OF assms(1,2,4,5,6,7,8,9,10)] assms(3) by auto

section \<open>A keep-alive session\<close>

text \<open>A kernel that delivers \<open>text\<close> whenever the blocks can hold it.\<close>

definition delivers :: "(nat list \<Rightarrow> int + string) \<Rightarrow> string \<Rightarrow> bool" where
  "delivers readv text = (readv_ok readv \<and> (\<forall>iov. length text \<le> sum_list iov \<longrightarrow> readv iov = Inr text))"

lemma read_iov_large: "kExtraBuf \<le> sum_list (read_iov b)"
  by (simp add: read_iov_def)

lemma deliversD: "delivers readv text \<Longrightarrow> length text \<le> kExtraBuf \<Longrightarrow> readv (read_iov b) = Inr text"
  using read_iov_large[of b] by (auto simp: delivers_def)

text \<open>
  The specification of a session: the responses, one after another, until one of them closes
  the connection.
\<close>

fun session :: "http_callback \<Rightarrow> http_request \<Rightarrow> raw_request list \<Rightarrow> string" where
  "session cb r [] = []"
| "session cb r (q # qs) =
     (let req = parsed q r; resp = cb req (response_init (wants_close req))
      in response_text resp @ (if resp_close resp then [] else session cb req qs))"

text \<open>One readable event of the connection per request.\<close>

definition serve :: "http_callback \<Rightarrow> (nat list \<Rightarrow> int + string) \<times> write_fun \<Rightarrow> tcp_conn \<Rightarrow> tcp_conn res" where
  "serve cb k c = HandleRead (fst k) (Some (message_callback True (snd k) 0 cb)) c"

definition idle :: "tcp_conn \<Rightarrow> http_request \<Rightarrow> bool" where
  "idle c r = (conn_inv c \<and> payload (input_buf c) = []
     \<and> (\<exists>ctx. conn_context c = Some ctx \<and> ctx_state ctx = ExpectRequestLine \<and> ctx_request ctx = r))"

lemma serve_request:
  assumes idle: "idle c r" and wf: "wf_raw q" and len: "length (render_request q) \<le> kExtraBuf"
    and k: "delivers (fst k) (render_request q)" "kernel_ok (snd k)"
    and req: "req = parsed q r" and resp: "resp = cb req (response_init (wants_close req))"
    and body: "length (resp_body resp) < 10 ^ 13"
  shows "\<exists>c'. serve cb k c = Inr c' \<and> idle c' req
     \<and> outgoing c' = outgoing c @ (if conn_state c = CONNECTED then response_text resp else [])
     \<and> conn_state c' = (if conn_state c = CONNECTED \<and> resp_close resp then DISCONNECTING else conn_state c)"
proof -
  obtain ctx where inv: "conn_inv c" and emp: "payload (input_buf c) = []"
    and ctx: "conn_context c = Some ctx" "ctx_state ctx = ExpectRequestLine" "ctx_request ctx = r"
    using idle by (auto simp: idle_def)
  have ne: "render_request q \<noteq> []" by (simp add: render_request_def render_line_def)
  have "readv_ok (fst k)" using k(1) by (simp add: delivers_def)
  from readable_ok[OF inv deliversD[OF k(1) len] ne this] obtain b where
    b: "HandleRead (fst k) (Some (message_callback True (snd k) 0 cb)) c
      = user_call (Some (message_callback True (snd k) 0 cb)) (c\<lparr>input_buf := b\<rparr>)"
    "buf_inv b" "payload b = render_request q" using emp by (metis append_Nil)
  let ?c1 = "c\<lparr>input_buf := b\<rparr>"
  have "conn_inv ?c1" "conn_context ?c1 = Some ctx" "payload (input_buf ?c1) = render_request q @ []"
    using inv b(2,3) ctx(1) by simp_all
  from OnMessage_request[of ?c1 "snd k" ctx q "[]" req resp cb 0, OF this(1) k(2) this(2) ctx(2) this(3) wf _ resp body] req ctx(3)
  obtain c2 ctx' where c2: "OnMessage True (snd k) 0 cb ?c1 = Some (Inr c2)" "conn_inv c2"
    "payload (input_buf c2) = []" "conn_context c2 = Some ctx'" "ctx_state ctx' = ExpectRequestLine"
    "ctx_request ctx' = req"
    "outgoing c2 = outgoing c @ (if conn_state c = CONNECTED then response_text resp else [])"
    "conn_state c2 = (if conn_state c = CONNECTED \<and> resp_close resp then DISCONNECTING else conn_state c)"
    by auto
  then show ?thesis using b(1)
    by (auto simp: serve_def user_call_def message_callback_def idle_def)
qed

lemma serve_silent:
  assumes "conn_state c \<noteq> CONNECTED" and "idle c r" and "list_all wf_raw qs"
    and "list_all (\<lambda>q. length (render_request q) \<le> kExtraBuf) qs"
    and "list_all2 (\<lambda>k q. delivers (fst k) (render_request q) \<and> kernel_ok (snd k)) ks qs"
    and "\<forall>req close. length (resp_body (cb req (response_init close))) < 10 ^ 13"
  shows "\<exists>c'. seq_res (serve cb) ks c = Inr c' \<and> conn_inv c' \<and> outgoing c' = outgoing c"
  using assms
proof (induction qs arbitrary: c r ks)
  case Nil
  then show ?case by (simp add: idle_def)
next
  case (Cons q qs)
  then obtain k ks' where ks: "ks = k # ks'" by (cases ks) auto
  have "\<exists>c'. serve cb k c = Inr c' \<and> idle c' (parsed q r) \<and> outgoing c' = outgoing c
      \<and> conn_state c' = conn_state c"
    using serve_request[of c r q k "parsed q r" "cb (parsed q r) (response_init (wants_close (parsed q r)))" cb]
      Cons.prems ks by auto
  then obtain c1 where c1: "serve cb k c = Inr c1" "idle c1 (parsed q r)" "outgoing c1 = outgoing c"
    "conn_state c1 = conn_state c" by blast
  from Cons.IH[OF _ c1(2), of ks'] Cons.prems c1 ks show ?case by auto
qed

text \<open>
  Claim C8. A session: when a client sends well formed requests on an established connection,
  one per readable event, the outgoing bytes are the responses of the callback in the order of the
  requests, up to and including the first response that closes the connection; the server neither
  fails nor hangs, whatever part of each write the kernel takes.
\<close>

theorem session_correct:
  assumes "conn_state c = CONNECTED" and "idle c r" and "list_all wf_raw qs"
    and "list_all (\<lambda>q. length (render_request q) \<le> kExtraBuf) qs"
    and "list_all2 (\<lambda>k q. delivers (fst k) (render_request q) \<and> kernel_ok (snd k)) ks qs"
    and "\<forall>req close. length (resp_body (cb req (response_init close))) < 10 ^ 13"
  shows "\<exists>c'. seq_res (serve cb) ks c = Inr c' \<and> conn_inv c'
     \<and> outgoing c' = outgoing c @ session cb r qs"
  using assms
proof (induction qs arbitrary: c r ks)
  case Nil
  then show ?case by (simp add: idle_def)
next
  case (Cons q qs)
  then obtain k ks' where ks: "ks = k # ks'" by (cases ks) auto
  let ?req = "parsed q r" and ?resp = "cb (parsed q r) (response_init (wants_close (parsed q r)))"
  have "\<exists>c'. serve cb k c = Inr c' \<and> idle c' ?req \<and> outgoing c' = outgoing c @ response_text ?resp
      \<and> conn_state c' = (if resp_close ?resp then DISCONNECTING else CONNECTED)"
    using serve_request[of c r q k "parsed q r" "cb (parsed q r) (response_init (wants_close (parsed q r)))" cb]
      Cons.prems ks by auto
  then obtain c1 where c1: "serve cb k c = Inr c1" "idle c1 ?req"
    "outgoing c1 = outgoing c @ response_text ?resp"
    "conn_state c1 = (if resp_close ?resp then DISCONNECTING else CONNECTED)" by blast
  show ?case
  proof (cases "resp_close ?resp")
    case True
    then have "conn_state c1 \<noteq> CONNECTED" using c1(4) by simp
    from serve_silent[OF this c1(2), of qs ks' cb] Cons.prems c1(1,3) True ks show ?thesis
      by (auto simp: Let_def)
  next
    case False
    from Cons.IH[OF _ c1(2), of ks'] Cons.prems c1(1,3,4) False ks show ?thesis by (auto simp: Let_def)
  qed
qed

definition demo_readv_of :: "string \<Rightarrow> nat list \<Rightarrow> int + string" where
  "demo_readv_of t iov = (if length t \<le> sum_list iov then Inr t else Inl 11)"

lemma demo_readv_of_delivers: "delivers (demo_readv_of t) t"
  by (simp add: delivers_def demo_readv_of_def readv_ok_def)

definition demo_conn :: "string \<Rightarrow> tcp_conn \<Rightarrow> bool" where
  "demo_conn input c = (conn_inv c \<and> conn_state c = CONNECTED \<and> conn_context c = Some context_init
     \<and> payload (input_buf c) = input \<and> outgoing c = [] \<and> \<not> fin c)"

lemma demo_conn_exists: "\<exists>c. demo_conn input c"
proof -
  obtain b where "buf_inv b" "payload b = input" using buffer_with by blast
  then have "demo_conn input (TcpConnection_new 5\<lparr>conn_state := CONNECTED,
      conn_context := Some context_init, input_buf := b\<rparr>)"
    by (simp add: demo_conn_def TcpConnection_new_def conn_inv_def outgoing_def)
  then show ?thesis ..
qed

lemma demo_callback_small: "length (resp_body (demo_callback req (response_init close))) < 10 ^ 13"
  by (simp add: demo_callback_def example_OnRequest_def set_body_def set_status_code_def
      set_status_message_def set_close_connection_def response_init_def)

lemma demo_request_fits: "length (render_request demo_request) \<le> kExtraBuf"
  by (simp add: kExtraBuf_def render_request_def render_line_def render_headers_def render_header_def
      demo_request_def version_text_def crlf_def)

lemma demo_callback_open:
  "req_path req = ''/hello'' \<Longrightarrow> \<not> close \<Longrightarrow> \<not> resp_close (demo_callback req (response_init close))"
  by (simp add: demo_callback_def example_OnRequest_def set_body_def add_header_def set_content_type_def
      set_status_code_def set_status_message_def response_init_def)

theorem session_witness:
  "\<exists>c c' r1 r2. demo_conn [] c
     \<and> seq_res (serve demo_callback)
         [(demo_readv_of (render_request demo_request), take_one),
          (demo_readv_of (render_request demo_request), take_one)] c = Inr c'
     \<and> outgoing c' = response_text r1 @ response_text r2"
proof -
  obtain c where c: "demo_conn [] c" using demo_conn_exists by blast
  let ?k = "(demo_readv_of (render_request demo_request), take_one)"
  let ?q = "parsed demo_request request_init"
  have "conn_state c = CONNECTED" "idle c request_init" "outgoing c = []"
    using c by (simp_all add: demo_conn_def idle_def)
  note s = session_correct[OF this(1,2), of "[demo_request, demo_request]" "[?k, ?k]" demo_callback]
  have conn: "GetHeader ''Connection'' ?q = []"
    using GetHeader_parsed[OF request_init_inv, of "''Connection''" demo_request]
    by (simp add: demo_request_def) (simp add: GetHeader_def request_init_def smap_get_def)
  have "\<not> wants_close ?q" using conn by (simp add: wants_close_def) (simp add: parsed_def demo_request_def)
  moreover have "req_path ?q = ''/hello''" by (simp add: parsed_def demo_request_def)
  ultimately have "\<not> resp_close (demo_callback ?q (response_init (wants_close ?q)))"
    by (intro demo_callback_open)
  then have "session demo_callback request_init [demo_request, demo_request]
      = response_text (demo_callback ?q (response_init (wants_close ?q)))
        @ response_text (demo_callback (parsed demo_request ?q)
            (response_init (wants_close (parsed demo_request ?q))))" by (simp add: Let_def)
  with s c demo_request_wf demo_request_fits demo_readv_of_delivers take_one_ok demo_callback_small
    \<open>outgoing c = []\<close> show ?thesis by auto
qed

theorem OnMessage_answers_witness:
  "\<exists>c c' r. demo_conn (render_request demo_request @ ''GET'') c
     \<and> OnMessage True take_one 0 demo_callback c = Some (Inr c')
     \<and> outgoing c' = response_text r \<and> payload (input_buf c') = ''GET''"
proof -
  obtain c where c: "demo_conn (render_request demo_request @ ''GET'') c" using demo_conn_exists by blast
  then have "conn_inv c" "conn_state c = CONNECTED" "conn_context c = Some context_init"
    "payload (input_buf c) = render_request demo_request @ ''GET''" "outgoing c = []"
    by (simp_all add: demo_conn_def)
  then show ?thesis
    using OnMessage_answers[of c take_one context_init demo_request "''GET''" _ _ demo_callback 0]
      take_one_ok demo_request_wf demo_callback_small c by fastforce
qed

section \<open>A request that cannot be parsed\<close>

text \<open>
  A bad request line is answered by a 400 response and the sending side is closed;
  the bytes of the bad request stay in the input buffer, and the callback of the user is not called
  for it.
\<close>

theorem OnMessage_rejects:
  assumes "conn_inv c" and "kernel_ok wr" and "conn_state c = CONNECTED"
    and "conn_context c = Some ctx" and "ctx_state ctx = ExpectRequestLine"
    and "split_line (payload (input_buf c)) = Some (line, rest)"
    and "\<not> fst (ParseRequestLine line (ctx_request ctx))"
  shows "\<exists>c'. OnMessage True wr obj cb c = Some (Inr c') \<and> conn_inv c'
     \<and> outgoing c' = outgoing c @ bad_request_text \<and> conn_state c' = DISCONNECTING
     \<and> payload (input_buf c') = payload (input_buf c)"
proof -
  obtain r where r: "ParseRequestLine line (ctx_request ctx) = (False, r)"
    using assms(7) by (cases "ParseRequestLine line (ctx_request ctx)") auto
  let ?ctx = "ctx\<lparr>ctx_request := r\<rparr>"
  have b: "buf_inv (input_buf c)" using assms(1) by (simp add: conn_inv_def)
  have "request_spec ctx (payload (input_buf c)) = Some (False, ?ctx, payload (input_buf c))"
    using assms(5,6) r by (simp add: request_spec_def)
  with ParseRequest_cases[OF b, of ctx] obtain b' where
    p: "ParseRequest ctx (input_buf c) = Some (Inr (False, ?ctx, b'))" "buf_inv b'"
      "payload b' = payload (input_buf c)" by auto
  let ?c1 = "c\<lparr>conn_context := Some ?ctx, input_buf := b'\<rparr>"
  have i1: "conn_inv ?c1" "\<not> fin ?c1" "outgoing ?c1 = outgoing c"
    using assms(1,3) p(2) by (auto simp: conn_inv_def outgoing_def)
  from SendInLoop_spec[OF i1(1,2) assms(2), of bad_request_text] obtain c2 where
    c2: "SendInLoop True wr bad_request_text ?c1 = Inr c2" "conn_inv c2"
    "outgoing c2 = outgoing c @ bad_request_text" "conn_state c2 = CONNECTED" "input_buf c2 = b'"
    using i1(3) assms(3) by auto
  from ShutDown_spec[OF c2(2)] c2(4) obtain c3 where
    c3: "ShutDown True c2 = Inr c3" "conn_inv c3" "outgoing c3 = outgoing c2"
    "conn_state c3 = DISCONNECTING" "input_buf c3 = input_buf c2" by auto
  have "OnMessage True wr obj cb c = Some (Inr c3)"
    using p(1) assms(3,4,5) c2(1) c3(1) by (simp add: OnMessage_def Send_def is_done_def)
  then show ?thesis using c2 c3 p(3) by simp
qed

theorem OnMessage_rejects_witness:
  "\<exists>c c'. demo_conn (''FETCH / HTTP/1.1'' @ crlf) c
     \<and> OnMessage True take_one 0 demo_callback c = Some (Inr c') \<and> outgoing c' = bad_request_text
     \<and> conn_state c' = DISCONNECTING"
proof -
  obtain c where c: "demo_conn (''FETCH / HTTP/1.1'' @ crlf) c" using demo_conn_exists by blast
  have "split_line (''FETCH / HTTP/1.1'' @ crlf @ []) = Some (''FETCH / HTTP/1.1'', [])"
    by (rule split_line_None_prefix) (simp add: LF_def)
  moreover have "\<not> fst (ParseRequestLine ''FETCH / HTTP/1.1'' request_init)" by code_simp
  moreover have "conn_inv c" "conn_state c = CONNECTED" "conn_context c = Some context_init"
    "payload (input_buf c) = ''FETCH / HTTP/1.1'' @ crlf" "outgoing c = []"
    using c by (simp_all add: demo_conn_def)
  ultimately show ?thesis
    using OnMessage_rejects[of c take_one context_init "''FETCH / HTTP/1.1''" "[]" 0 demo_callback]
      take_one_ok c by auto
qed

text \<open>An established connection starts in the state in which requests are expected.\<close>

lemma OnConnection_idle:
  "conn_inv c \<Longrightarrow> conn_state c = CONNECTED \<Longrightarrow> payload (input_buf c) = [] \<Longrightarrow>
     \<exists>c'. OnConnection c = Inr c' \<and> idle c' request_init"
  by (simp add: OnConnection_def is_connected_def set_context_def idle_def)

end
