(* ===== verification/Selector.thy ===== *)
theory Selector
  imports EventHandler
begin

text \<open>
  \<^verbatim>\<open>reactor/selector.cc\<close>: waiting for events and dispatching them. The kernel is a
  parameter: \<open>wait n\<close> is \<^verbatim>\<open>epoll_wait\<close> with room for \<open>n\<close> events, an error number or the
  triggered handlers with their masks. \<open>handle h revents\<close> is \<^verbatim>\<open>HandleEvent\<close> of the
  handler \<open>h\<close>, on the state \<open>'s\<close> of the thread.
\<close>

definition kEEventsSize :: nat where "kEEventsSize = 128"

record selector =
  e_events_size :: nat

definition Selector_new :: selector where
  "Selector_new = \<lparr>e_events_size = kEEventsSize\<rparr>"

type_synonym 'h wait_fun = "int \<Rightarrow> int + ('h \<times> mask) list"

definition EINVAL :: int where "EINVAL = 22"
definition EINTR :: int where "EINTR = 4"

text \<open>Only \<^verbatim>\<open>EINVAL\<close> ends the process; every other error is logged and forgotten.\<close>

definition epoll_err :: "int \<Rightarrow> 'a \<Rightarrow> 'a res" where
  "epoll_err err x = (if err = EINVAL then Inl Aborted else Inr x)"

definition UpdataTriggeredEventHandlers ::
  "('h \<Rightarrow> mask \<Rightarrow> 's \<Rightarrow> 's res) \<Rightarrow> ('h \<times> mask) list \<Rightarrow> selector \<Rightarrow> 's \<Rightarrow> 's res" where
  "UpdataTriggeredEventHandlers handle evs sel s =
     assert_then (length evs \<le> e_events_size sel) (seq_res (\<lambda>(h, m). handle h m) evs s)"

text \<open>The size of the vector is cast to an \<^verbatim>\<open>int\<close> for the kernel.\<close>

definition max_events :: "selector \<Rightarrow> int" where
  "max_events sel = sint (of_nat (e_events_size sel) :: 32 word)"

definition Select ::
  "'h wait_fun \<Rightarrow> ('h \<Rightarrow> mask \<Rightarrow> 's \<Rightarrow> 's res) \<Rightarrow> selector \<Rightarrow> 's \<Rightarrow> (selector \<times> 's) res" where
  "Select wait handle sel s =
     (case wait (max_events sel) of
        Inl err \<Rightarrow> epoll_err err (sel, s)
      | Inr evs \<Rightarrow>
          if length evs > 0
          then let sel1 = (if length evs = e_events_size sel
                           then sel\<lparr>e_events_size := e_events_size sel * 2\<rparr> else sel)
               in rbind (UpdataTriggeredEventHandlers handle evs sel1 s) (\<lambda>s'. Inr (sel1, s'))
          else Inr (sel, s))"

text \<open>
  What \<^verbatim>\<open>epoll_wait(2)\<close> documents: at most \<open>n\<close> events for a positive \<open>n\<close>, and
  \<^verbatim>\<open>EINVAL\<close> otherwise; the descriptor is an epoll descriptor.
\<close>

definition wait_ok :: "nat \<Rightarrow> 'h wait_fun \<Rightarrow> bool" where
  "wait_ok fds wait = (\<forall>n. if n > 0
     then (case wait n of Inl err \<Rightarrow> err \<noteq> EINVAL | Inr evs \<Rightarrow> length evs \<le> nat n \<and> length evs \<le> fds)
     else wait n = Inl EINVAL)"

definition sel_inv :: "nat \<Rightarrow> selector \<Rightarrow> bool" where
  "sel_inv fds sel = (kEEventsSize \<le> e_events_size sel \<and> e_events_size sel \<le> max kEEventsSize (2 * fds))"

lemma max_events_eq:
  assumes "e_events_size sel < 2 ^ 31"
  shows "max_events sel = int (e_events_size sel)"
proof -
  have "sint (of_nat (e_events_size sel) :: 32 word) = signed_take_bit 31 (int (e_events_size sel))"
    by (simp add: sint_uint uint_nat unsigned_of_nat signed_take_bit_take_bit flip: take_bit_of_nat)
  also have "\<dots> = int (e_events_size sel)"
    using assms by (intro signed_take_bit_int_eq_self) auto
  finally show ?thesis by (simp add: max_events_def)
qed

lemma Select_step:
  assumes "sel_inv fds sel" and "wait_ok fds wait" and "fds < 2 ^ 30"
  shows "case wait (int (e_events_size sel)) of
      Inl err \<Rightarrow> Select wait handle sel s = Inr (sel, s)
    | Inr evs \<Rightarrow> \<exists>sel'. sel_inv fds sel' \<and> Select wait handle sel s
        = rbind (seq_res (\<lambda>(h, m). handle h m) evs s) (\<lambda>s'. Inr (sel', s'))"
proof -
  have "e_events_size sel < 2 ^ 31" using assms(1,3) by (auto simp: sel_inv_def kEEventsSize_def max_def split: if_splits)
  then have m: "max_events sel = int (e_events_size sel)" by (rule max_events_eq)
  have pos: "0 < int (e_events_size sel)" using assms(1) by (simp add: sel_inv_def kEEventsSize_def)
  show ?thesis
  proof (cases "wait (int (e_events_size sel))")
    case (Inl err)
    then have "err \<noteq> EINVAL" using assms(2) pos by (auto simp: wait_ok_def split: if_splits dest: spec[of _ "int (e_events_size sel)"])
    with Inl m show ?thesis by (simp add: Select_def epoll_err_def)
  next
    case (Inr evs)
    then have len: "length evs \<le> e_events_size sel" "length evs \<le> fds"
      using assms(2) pos by (auto simp: wait_ok_def dest!: spec[of _ "int (e_events_size sel)"])
    let ?sel = "if length evs = e_events_size sel then sel\<lparr>e_events_size := e_events_size sel * 2\<rparr> else sel"
    have i: "sel_inv fds ?sel" using assms(1) len by (auto simp: sel_inv_def)
    show ?thesis
    proof (cases "evs = []")
      case True
      then show ?thesis using Inr m assms(1) by (auto simp: Select_def)
    next
      case False
      then have "Select wait handle sel s = rbind (seq_res (\<lambda>(h, m). handle h m) evs s) (\<lambda>s'. Inr (?sel, s'))"
        using Inr m len by (simp add: Select_def UpdataTriggeredEventHandlers_def Let_def)
      then show ?thesis using Inr i by auto
    qed
  qed
qed

definition answers :: "'h wait_fun \<Rightarrow> ('h \<times> mask) list \<Rightarrow> bool" where
  "answers wait evs = (\<exists>n>0. wait n = Inr evs \<or> (evs = [] \<and> (\<exists>err. wait n = Inl err)))"

lemma seq_res_append: "seq_res f (xs @ ys) s = rbind (seq_res f xs s) (seq_res f ys)"
proof (induction xs arbitrary: s)
  case (Cons x xs)
  then show ?case by (cases "f x s") simp_all
qed simp

text \<open>
  Claim C32. Over any number of turns of the loop, every event the kernel reported is dispatched to
  its handler exactly once, in the order of the reports, and nothing else is; the event array is
  never overrun, the size passed to the kernel is always positive, and the array stays below
  twice the number of descriptors however often it is doubled.
\<close>

theorem Select_dispatches:
  assumes "sel_inv fds sel" and "list_all (wait_ok fds) ws" and "fds < 2 ^ 30"
  shows "\<exists>evss sel'. sel_inv fds sel' \<and> list_all2 answers ws evss
     \<and> seq_res (\<lambda>w (sel, s). Select w handle sel s) ws (sel, s)
        = rbind (seq_res (\<lambda>(h, m). handle h m) (concat evss) s) (\<lambda>s'. Inr (sel', s'))"
  using assms(1,2)
proof (induction ws arbitrary: sel s)
  case Nil
  then show ?case by auto
next
  case (Cons w ws)
  have pos: "0 < int (e_events_size sel)" using Cons.prems(1) by (simp add: sel_inv_def kEEventsSize_def)
  have "wait_ok fds w" using Cons.prems(2) by simp
  note st = Select_step[OF Cons.prems(1) this assms(3), of handle s]
  have "\<exists>evs sel1. answers w evs \<and> sel_inv fds sel1
      \<and> Select w handle sel s = rbind (seq_res (\<lambda>(h, m). handle h m) evs s) (\<lambda>s'. Inr (sel1, s'))"
  proof (cases "w (int (e_events_size sel))")
    case (Inl err)
    with pos have "answers w []" unfolding answers_def by blast
    moreover have "Select w handle sel s = Inr (sel, s)" using st Inl by simp
    ultimately show ?thesis using Cons.prems(1) by (intro exI[of _ "[]"] exI[of _ sel]) simp
  next
    case (Inr evs)
    with pos have "answers w evs" unfolding answers_def by blast
    then show ?thesis using st Inr by auto
  qed
  then obtain evs sel1 where
    e: "answers w evs" "sel_inv fds sel1"
      "Select w handle sel s = rbind (seq_res (\<lambda>(h, m). handle h m) evs s) (\<lambda>s'. Inr (sel1, s'))" by blast
  have ws: "list_all (wait_ok fds) ws" using Cons.prems(2) by simp
  show ?case
  proof (cases "seq_res (\<lambda>(h, m). handle h m) evs s")
    case (Inl err)
    from Cons.IH[OF e(2) ws, of s] obtain evss sel2 where "sel_inv fds sel2" "list_all2 answers ws evss" by blast
    then show ?thesis using e(1,3) Inl
      by (intro exI[of _ "evs # evss"] exI[of _ sel2]) (simp add: seq_res_append)
  next
    case (Inr s1)
    from Cons.IH[OF e(2) ws, of s1] obtain evss sel2 where "sel_inv fds sel2" "list_all2 answers ws evss"
      "seq_res (\<lambda>w (sel, s). Select w handle sel s) ws (sel1, s1)
        = rbind (seq_res (\<lambda>(h, m). handle h m) (concat evss) s1) (\<lambda>s'. Inr (sel2, s'))" by blast
    then show ?thesis using e(1,3) Inr
      by (intro exI[of _ "evs # evss"] exI[of _ sel2]) (simp add: seq_res_append)
  qed
qed

definition demo_wait :: "(nat \<times> mask) list \<Rightarrow> nat wait_fun" where
  "demo_wait evs n = (if n > 0 then Inr (take (nat n) (take 3 evs)) else Inl EINVAL)"

lemma demo_wait_ok: "wait_ok 3 (demo_wait evs)"
  by (auto simp: wait_ok_def demo_wait_def min_def)

theorem Select_dispatches_witness:
  "\<exists>sel' log. seq_res (\<lambda>w (sel, s). Select w (\<lambda>h m s. Inr (s @ [h])) sel s)
      [demo_wait [(7, EPOLLIN)], demo_wait []] (Selector_new, []) = Inr (sel', log)"
proof -
  have i: "sel_inv 3 Selector_new" by (simp add: sel_inv_def Selector_new_def)
  have log: "\<exists>l'. seq_res (\<lambda>(h, m). (\<lambda>h m s. Inr (s @ [h])) h m) es l = Inr l'"
    for es :: "(nat \<times> mask) list" and l
    by (induction es arbitrary: l) auto
  have ok: "list_all (wait_ok 3) [demo_wait [(7, EPOLLIN)], demo_wait []]" by (simp add: demo_wait_ok)
  have f: "(3 :: nat) < 2 ^ 30" by simp
  obtain evss sel' where
    e: "seq_res (\<lambda>w (sel, s). Select w (\<lambda>h m s. Inr (s @ [h])) sel s)
        [demo_wait [(7, EPOLLIN)], demo_wait []] (Selector_new, [])
      = rbind (seq_res (\<lambda>(h, m). (\<lambda>h m s. Inr (s @ [h])) h m) (concat evss :: (nat \<times> mask) list) [])
          (\<lambda>s'. Inr (sel', s'))"
    using Select_dispatches[OF i ok f, of "\<lambda>h m s. Inr (s @ [h])" "[]"]
    by (elim exE conjE)
  from log[of "concat evss" "[]"] obtain l' where
    "seq_res (\<lambda>(h, m). (\<lambda>h m s. Inr (s @ [h])) h m) (concat evss) [] = Inr l'" by blast
  with e show ?thesis by auto
qed

end
