(* ===== verification/Dispatcher.thy ===== *)
theory Dispatcher
  imports Selector
begin

text \<open>
  \<^verbatim>\<open>reactor/dispatcher.h\<close> and \<^verbatim>\<open>reactor/dispatcher.cc\<close>: the event loop of one thread and
  the queue of functions that other threads hand to it. A queued function is a value of the type
  \<open>'f\<close>. \<open>wakeup_count\<close> is the kernel's counter behind \<^verbatim>\<open>wakeup_fd_\<close>; \<open>ran\<close> is the
  trace of the queued functions that have been called. \<open>same\<close> is \<^verbatim>\<open>is_same_thread()\<close>.
\<close>

record 'f dispatcher =
  looping :: bool
  quit :: bool
  owner_tid :: int
  in_calling_pending_funcs :: bool
  pending_funcs :: "'f list"
  wakeup_count :: nat
  ran :: "'f list"

definition kEpollTimeOut :: int where "kEpollTimeOut = 1000"

text \<open>
  \<^verbatim>\<open>eventfd(2)\<close>: a write adds its value, fails with \<^verbatim>\<open>EAGAIN\<close> if the counter would
  pass its maximum, and with \<^verbatim>\<open>EINVAL\<close> for the largest value; a read takes the whole counter.
  \<^verbatim>\<open>Wakeup\<close> writes the eight bytes of a pointer: \<open>v\<close> is that pointer as a number.
\<close>

definition eventfd_write :: "nat \<Rightarrow> nat \<Rightarrow> nat" where
  "eventfd_write v c = (if v = 2 ^ 64 - 1 \<or> c + v > 2 ^ 64 - 2 then c else c + v)"

definition Wakeup :: "nat \<Rightarrow> 'f dispatcher \<Rightarrow> 'f dispatcher" where
  "Wakeup v d = d\<lparr>wakeup_count := eventfd_write v (wakeup_count d)\<rparr>"

definition Dispatcher_HandleRead :: "'f dispatcher \<Rightarrow> 'f dispatcher" where
  "Dispatcher_HandleRead d = d\<lparr>wakeup_count := 0\<rparr>"

definition CreateEventFd :: "int \<Rightarrow> int res" where
  "CreateEventFd fd = (if fd < 0 then Inl Aborted else Inr fd)"

text \<open>
  \<open>existing\<close>: the thread already has a dispatcher. The result is the object and the handler of
  its descriptor \<open>efd\<close>, which cares for reading.
\<close>

definition Dispatcher_new :: "bool \<Rightarrow> int \<Rightarrow> int \<Rightarrow> ('f dispatcher \<times> event_handler) res" where
  "Dispatcher_new existing tid efd =
     rbind (CreateEventFd efd) (\<lambda>fd.
     if existing then Inl Aborted
     else Inr (\<lparr>looping = False, quit = False, owner_tid = tid, in_calling_pending_funcs = False,
                pending_funcs = [], wakeup_count = 0, ran = []\<rparr>, set_care_read (new_handler fd)))"

definition Dispatcher_destroy :: "'f dispatcher \<Rightarrow> unit res" where
  "Dispatcher_destroy d = assert_then (\<not> looping d) (Inr ())"

definition is_same_thread :: "int \<Rightarrow> 'f dispatcher \<Rightarrow> bool" where
  "is_same_thread tid d = (owner_tid d = tid)"

definition AssertInLoopThread :: "bool \<Rightarrow> 'a \<Rightarrow> 'a res" where
  "AssertInLoopThread same d = (if \<not> same then Inl Aborted else Inr d)"

definition Quit :: "bool \<Rightarrow> nat \<Rightarrow> 'f dispatcher \<Rightarrow> 'f dispatcher res" where
  "Quit same v d = assert_then (\<not> quit d)
     (let d1 = d\<lparr>quit := True\<rparr> in Inr (if \<not> same then Wakeup v d1 else d1))"

definition queue_push :: "'f \<Rightarrow> 'f dispatcher \<Rightarrow> 'f dispatcher" where
  "queue_push f d = d\<lparr>pending_funcs := pending_funcs d @ [f]\<rparr>"

definition needs_wakeup :: "bool \<Rightarrow> 'f dispatcher \<Rightarrow> bool" where
  "needs_wakeup same d = (\<not> same \<or> in_calling_pending_funcs d)"

definition QueueInLoop :: "bool \<Rightarrow> nat \<Rightarrow> 'f \<Rightarrow> 'f dispatcher \<Rightarrow> 'f dispatcher" where
  "QueueInLoop same v f d =
     (let d1 = queue_push f d in if needs_wakeup same d1 then Wakeup v d1 else d1)"

text \<open>\<open>call f\<close> is the effect of the function itself.\<close>

definition RunInLoop ::
  "bool \<Rightarrow> nat \<Rightarrow> ('f \<Rightarrow> 'f dispatcher \<Rightarrow> 'f dispatcher res) \<Rightarrow> 'f \<Rightarrow> 'f dispatcher \<Rightarrow> 'f dispatcher res" where
  "RunInLoop same v call f d = (if same then call f d else Inr (QueueInLoop same v f d))"

definition take_pending :: "'f dispatcher \<Rightarrow> 'f list \<times> 'f dispatcher" where
  "take_pending d = (pending_funcs d, d\<lparr>pending_funcs := []\<rparr>)"

definition call_pending ::
  "('f \<Rightarrow> 'f dispatcher \<Rightarrow> 'f dispatcher res) \<Rightarrow> 'f \<Rightarrow> 'f dispatcher \<Rightarrow> 'f dispatcher res" where
  "call_pending call f d = call f (d\<lparr>ran := ran d @ [f]\<rparr>)"

definition ExecutePendingFuncs ::
  "('f \<Rightarrow> 'f dispatcher \<Rightarrow> 'f dispatcher res) \<Rightarrow> 'f dispatcher \<Rightarrow> 'f dispatcher res" where
  "ExecutePendingFuncs call d =
     (case take_pending (d\<lparr>in_calling_pending_funcs := True\<rparr>) of (fs, d1) \<Rightarrow>
        rbind (seq_res (call_pending call) fs d1) (\<lambda>d2.
        Inr (d2\<lparr>in_calling_pending_funcs := False\<rparr>)))"

definition Loop_begin :: "bool \<Rightarrow> 'f dispatcher \<Rightarrow> 'f dispatcher res" where
  "Loop_begin same d = assert_then (\<not> looping d)
     (rbind (AssertInLoopThread same d) (\<lambda>d. assert_then (\<not> quit d)
       (Inr (d\<lparr>looping := True, quit := False\<rparr>))))"

text \<open>
  The loop: \<open>polls\<close> are the effects of the successive calls of \<^verbatim>\<open>Select\<close>. None stands for
  a loop that is still running when they are used up.
\<close>

fun Loop_turns ::
  "('f \<Rightarrow> 'f dispatcher \<Rightarrow> 'f dispatcher res) \<Rightarrow> ('f dispatcher \<Rightarrow> 'f dispatcher res) list
    \<Rightarrow> 'f dispatcher \<Rightarrow> 'f dispatcher res option" where
  "Loop_turns call polls d =
     (if quit d then Some (Inr (d\<lparr>looping := False\<rparr>))
      else case polls of
             [] \<Rightarrow> None
           | p # ps \<Rightarrow> (case rbind (p d) (ExecutePendingFuncs call) of
               Inl e \<Rightarrow> Some (Inl e)
             | Inr d' \<Rightarrow> Loop_turns call ps d'))"

definition Loop ::
  "bool \<Rightarrow> ('f \<Rightarrow> 'f dispatcher \<Rightarrow> 'f dispatcher res) \<Rightarrow> ('f dispatcher \<Rightarrow> 'f dispatcher res) list
    \<Rightarrow> 'f dispatcher \<Rightarrow> 'f dispatcher res option" where
  "Loop same call polls d =
     (case Loop_begin same d of Inl e \<Rightarrow> Some (Inl e) | Inr d1 \<Rightarrow> Loop_turns call polls d1)"

section \<open>Interleaving with other threads\<close>

text \<open>
  The position of the loop thread. \<open>owing\<close> counts the other threads that are between an entry
  into the queue (or the quit flag) and their \<^verbatim>\<open>Wakeup\<close>; \<open>self_owing\<close> says that the loop
  thread itself is there. \<open>queued\<close> is the history of everything put into the queue.
\<close>

datatype 'f phase = NotLooping | Starting | Head | Polling | Handling | Calling | Running "'f list" | Stopped

record 'f dsys =
  disp :: "'f dispatcher"
  phase :: "'f phase"
  owing :: nat
  self_owing :: bool
  queued :: "'f list"

text \<open>In a function that the loop thread calls.\<close>

fun in_callback :: "'f phase \<Rightarrow> bool" where
  "in_callback Handling = True"
| "in_callback (Running fs) = True"
| "in_callback _ = False"

definition wakeup_value :: "nat \<Rightarrow> bool" where
  "wakeup_value v = (0 < v \<and> v < 2 ^ 64 - 1)"

inductive disp_step :: "'f dsys \<Rightarrow> 'f dsys \<Rightarrow> bool" where
  check: "phase s = NotLooping \<Longrightarrow> \<not> looping (disp s) \<Longrightarrow> \<not> quit (disp s) \<Longrightarrow>
    disp_step s (s\<lparr>phase := Starting\<rparr>)"
| set_flags: "phase s = Starting \<Longrightarrow>
    disp_step s (s\<lparr>disp := (disp s)\<lparr>looping := True, quit := False\<rparr>, phase := Head\<rparr>)"
| leave: "phase s = Head \<Longrightarrow> quit (disp s) \<Longrightarrow>
    disp_step s (s\<lparr>disp := (disp s)\<lparr>looping := False\<rparr>, phase := Stopped\<rparr>)"
| poll: "phase s = Head \<Longrightarrow> \<not> quit (disp s) \<Longrightarrow> disp_step s (s\<lparr>phase := Polling\<rparr>)"
| select: "phase s = Polling \<Longrightarrow> disp_step s (s\<lparr>phase := Handling\<rparr>)"
| wake_read: "phase s = Handling \<Longrightarrow> \<not> self_owing s \<Longrightarrow>
    disp_step s (s\<lparr>disp := Dispatcher_HandleRead (disp s)\<rparr>)"
| callback_queue: "in_callback (phase s) \<Longrightarrow> \<not> self_owing s \<Longrightarrow>
    disp_step s (s\<lparr>disp := queue_push f (disp s), self_owing := needs_wakeup True (disp s),
                  queued := queued s @ [f]\<rparr>)"
| callback_wake: "self_owing s \<Longrightarrow> wakeup_value v \<Longrightarrow>
    disp_step s (s\<lparr>disp := Wakeup v (disp s), self_owing := False\<rparr>)"
| callback_quit: "in_callback (phase s) \<Longrightarrow> \<not> self_owing s \<Longrightarrow> Quit True 0 (disp s) = Inr d \<Longrightarrow>
    disp_step s (s\<lparr>disp := d\<rparr>)"
| execute: "phase s = Handling \<Longrightarrow> \<not> self_owing s \<Longrightarrow>
    disp_step s (s\<lparr>disp := (disp s)\<lparr>in_calling_pending_funcs := True\<rparr>, phase := Calling\<rparr>)"
| swap: "phase s = Calling \<Longrightarrow> take_pending (disp s) = (fs, d) \<Longrightarrow>
    disp_step s (s\<lparr>disp := d, phase := Running fs\<rparr>)"
| run: "phase s = Running (f # fs) \<Longrightarrow> \<not> self_owing s \<Longrightarrow> call_pending (\<lambda>f. Inr) f (disp s) = Inr d \<Longrightarrow>
    disp_step s (s\<lparr>disp := d, phase := Running fs\<rparr>)"
| finish: "phase s = Running [] \<Longrightarrow> \<not> self_owing s \<Longrightarrow>
    disp_step s (s\<lparr>disp := (disp s)\<lparr>in_calling_pending_funcs := False\<rparr>, phase := Head\<rparr>)"
| other_queue: "disp_step s (s\<lparr>disp := queue_push f (disp s), owing := Suc (owing s), queued := queued s @ [f]\<rparr>)"
| other_quit: "\<not> quit (disp s) \<Longrightarrow>
    disp_step s (s\<lparr>disp := (disp s)\<lparr>quit := True\<rparr>, owing := Suc (owing s)\<rparr>)"
| other_wake: "owing s = Suc n \<Longrightarrow> wakeup_value v \<Longrightarrow>
    disp_step s (s\<lparr>disp := Wakeup v (disp s), owing := n\<rparr>)"

inductive disp_reach :: "'f dsys \<Rightarrow> 'f dsys \<Rightarrow> bool" where
  here: "disp_reach s s"
| there: "disp_reach s s1 \<Longrightarrow> disp_step s1 s2 \<Longrightarrow> disp_reach s s2"

definition disp_init :: "int \<Rightarrow> 'f dsys" where
  "disp_init tid = \<lparr>disp = \<lparr>looping = False, quit = False, owner_tid = tid, in_calling_pending_funcs = False,
     pending_funcs = [], wakeup_count = 0, ran = []\<rparr>,
     phase = NotLooping, owing = 0, self_owing = False, queued = []\<rparr>"

text \<open>Somebody is about to write to the descriptor, or it is readable already.\<close>

definition alarmed :: "'f dsys \<Rightarrow> bool" where
  "alarmed s = (0 < wakeup_count (disp s) \<or> 0 < owing s)"

definition in_flight :: "'f dsys \<Rightarrow> 'f list" where
  "in_flight s = (case phase s of Running fs \<Rightarrow> fs | _ \<Rightarrow> [])"

definition disp_inv :: "'f dsys \<Rightarrow> bool" where
  "disp_inv s =
     ((self_owing s \<longrightarrow> (\<exists>fs. phase s = Running fs))
     \<and> (in_calling_pending_funcs (disp s) \<longleftrightarrow> phase s = Calling \<or> (\<exists>fs. phase s = Running fs))
     \<and> wakeup_count (disp s) \<le> 2 ^ 64 - 2
     \<and> ran (disp s) @ in_flight s @ pending_funcs (disp s) = queued s
     \<and> (pending_funcs (disp s) \<noteq> [] \<longrightarrow> alarmed s \<or> self_owing s \<or> phase s \<in> {Handling, Calling, Stopped})
     \<and> (quit (disp s) \<longrightarrow> phase s = Polling \<longrightarrow> alarmed s))"

lemma eventfd_write_pos:
  "wakeup_value v \<Longrightarrow> c \<le> 2 ^ 64 - 2 \<Longrightarrow> 0 < eventfd_write v c \<and> eventfd_write v c \<le> 2 ^ 64 - 2"
  by (auto simp: eventfd_write_def wakeup_value_def)

lemma disp_init_inv [simp]: "disp_inv (disp_init tid)"
  by (simp add: disp_inv_def disp_init_def in_flight_def)

lemma disp_step_inv:
  assumes "disp_step s s'" and inv: "disp_inv s"
  shows "disp_inv s'"
  using assms
proof cases
  case (callback_wake v)
  then show ?thesis using inv eventfd_write_pos[of v "wakeup_count (disp s)"]
    by (auto simp: disp_inv_def Wakeup_def alarmed_def in_flight_def)
next
  case (other_wake n v)
  then show ?thesis using inv eventfd_write_pos[of v "wakeup_count (disp s)"]
    by (auto simp: disp_inv_def Wakeup_def alarmed_def in_flight_def)
next
  case (callback_queue f)
  then show ?thesis using inv
    by (cases "phase s") (auto simp: disp_inv_def queue_push_def alarmed_def in_flight_def needs_wakeup_def)
next
  case (callback_quit d)
  then show ?thesis using inv
    by (cases "phase s") (auto simp: disp_inv_def Quit_def Let_def alarmed_def in_flight_def)
qed (use inv in \<open>auto simp: disp_inv_def Dispatcher_HandleRead_def alarmed_def in_flight_def queue_push_def
    take_pending_def call_pending_def split: phase.splits\<close>)

lemma disp_reach_inv: "disp_reach s s' \<Longrightarrow> disp_inv s \<Longrightarrow> disp_inv s'"
  by (induction rule: disp_reach.induct) (auto intro: disp_step_inv)

lemma disp_step_queued: "disp_step s t \<Longrightarrow> prefix (queued s) (queued t)"
  by (cases rule: disp_step.cases) auto

lemma disp_step_ran: "disp_step s t \<Longrightarrow> prefix (ran (disp s)) (ran (disp t))"
  by (cases rule: disp_step.cases)
    (auto simp: Dispatcher_HandleRead_def queue_push_def Wakeup_def Quit_def Let_def take_pending_def
      call_pending_def split: if_splits)

text \<open>The queue of functions is a channel from whoever queues to the loop.\<close>

interpretation dq: fifo_channel disp_step disp_inv queued "\<lambda>s. ran (disp s)"
    "\<lambda>s. in_flight s @ pending_funcs (disp s)"
proof
  fix s t :: "'f dsys"
  assume inv: "disp_inv s"
  show "ran (disp s) @ in_flight s @ pending_funcs (disp s) = queued s"
    using inv by (simp add: disp_inv_def)
  assume step: "disp_step s t"
  show "disp_inv t" using disp_step_inv[OF step inv] .
  show "prefix (queued s) (queued t)" and "prefix (ran (disp s)) (ran (disp t))"
    using disp_step_queued[OF step] disp_step_ran[OF step] .
qed

lemma disp_reach_rtranclp: "disp_reach s t \<Longrightarrow> disp_step\<^sup>*\<^sup>* s t"
  by (induction rule: disp_reach.induct) (auto intro: rtranclp.rtrancl_into_rtrancl)


text \<open>A run in which another thread queues a function while the loop thread is polling.\<close>

lemma demo_polling:
  "\<exists>s. disp_reach (disp_init 1) s \<and> phase s = Polling \<and> owing s = 0 \<and> pending_funcs (disp s) = [''f'']
     \<and> queued s = [''f'']"
proof -
  let ?s0 = "disp_init 1 :: string dsys"
  note step = disp_reach.there
  have 1: "disp_reach ?s0 (?s0\<lparr>phase := Starting\<rparr>)"
    by (rule step[OF disp_reach.here disp_step.check]) (simp_all add: disp_init_def)
  let ?s2 = "(?s0\<lparr>phase := Starting\<rparr>)\<lparr>disp := (disp ?s0)\<lparr>looping := True, quit := False\<rparr>, phase := Head\<rparr>"
  have 2: "disp_reach ?s0 ?s2" using step[OF 1 disp_step.set_flags] by simp
  have 3: "disp_reach ?s0 (?s2\<lparr>phase := Polling\<rparr>)" by (rule step[OF 2 disp_step.poll]) simp_all
  let ?s4 = "?s2\<lparr>phase := Polling, disp := queue_push ''f'' (disp ?s2), owing := 1, queued := [''f'']\<rparr>"
  have 4: "disp_reach ?s0 ?s4"
    using step[OF 3 disp_step.other_queue[of _ "''f''"]] by (simp add: disp_init_def)
  have "wakeup_value 1" by (simp add: wakeup_value_def)
  with step[OF 4 disp_step.other_wake[of _ 0 1]]
  have "disp_reach ?s0 (?s4\<lparr>disp := Wakeup 1 (disp ?s4), owing := 0\<rparr>)" (is "disp_reach ?s0 ?s5") by simp
  then show ?thesis by (intro exI[of _ ?s5]) (simp add: Wakeup_def queue_push_def disp_init_def)
qed


text \<open>
  Claim C26. Exactly once and in order: at every moment the functions that have been called, those
  of the batch being called and those still in the queue are, in this order, all the functions that
  were ever queued, whichever thread queued them; what has been called stays called, and a function that
  is queued later never overtakes: as soon as as many functions have been called as were queued before,
  these are the ones.
\<close>

theorem queued_exactly_once:
  assumes "disp_reach (disp_init tid) s" and "disp_reach s t"
  shows "ran (disp s) @ in_flight s @ pending_funcs (disp s) = queued s
     \<and> prefix (ran (disp s)) (ran (disp t))
     \<and> (length (queued s) \<le> length (ran (disp t)) \<longrightarrow> prefix (queued s) (ran (disp t)))"
proof -
  have inv: "disp_inv s" using disp_reach_inv[OF assms(1) disp_init_inv] .
  show ?thesis
    using dq.conserves[OF inv] dq.reach[OF disp_reach_rtranclp[OF assms(2)] inv]
      dq.first_in_first_out[OF disp_reach_rtranclp[OF assms(2)] inv] by blast
qed

theorem queued_exactly_once_witness:
  "\<exists>s :: string dsys. phase s = Polling \<and> ran (disp s) @ in_flight s @ pending_funcs (disp s) = [''f'']"
proof -
  obtain s where "disp_reach (disp_init 1) s" "phase s = Polling" "queued s = [''f'']"
    using demo_polling by blast
  with queued_exactly_once[of 1 s s] disp_reach.here show ?thesis by auto
qed

lemma run_batch:
  "disp_reach s0 s \<Longrightarrow> phase s = Running fs \<Longrightarrow> \<not> self_owing s \<Longrightarrow>
     disp_reach s0 (s\<lparr>disp := (disp s)\<lparr>ran := ran (disp s) @ fs\<rparr>, phase := Running []\<rparr>)"
proof (induction fs arbitrary: s)
  case (Cons f fs)
  let ?s = "s\<lparr>disp := (disp s)\<lparr>ran := ran (disp s) @ [f]\<rparr>, phase := Running fs\<rparr>"
  have "disp_reach s0 ?s"
    using disp_reach.there[OF Cons.prems(1) disp_step.run[OF Cons.prems(2,3)]] by (simp add: call_pending_def)
  from Cons.IH[OF this] Cons.prems(3) show ?case by simp
next
  case Nil
  then have e: "s\<lparr>disp := (disp s)\<lparr>ran := ran (disp s) @ []\<rparr>, phase := Running []\<rparr> = s" by (cases s) simp
  show ?case unfolding e by (rule Nil.prems(1))
qed

text \<open>
  Progress: from every reachable state in which the loop thread polls, one more turn of
  the loop on its own calls every function that has been queued by then, and empties the queue.
\<close>

theorem turn_calls_everything:
  assumes "disp_reach (disp_init tid) s" and "phase s = Polling"
  shows "\<exists>s'. disp_reach s s' \<and> phase s' = Head \<and> queued s' = queued s \<and> ran (disp s') = queued s'
     \<and> pending_funcs (disp s') = []"
proof -
  have inv: "disp_inv s" using disp_reach_inv[OF assms(1) disp_init_inv] .
  have ns: "\<not> self_owing s" using inv assms(2) by (auto simp: disp_inv_def)
  note step = disp_reach.there
  let ?s1 = "s\<lparr>phase := Handling\<rparr>"
  have 1: "disp_reach s ?s1" by (rule step[OF disp_reach.here disp_step.select[OF assms(2)]])
  let ?s2 = "?s1\<lparr>disp := (disp s)\<lparr>in_calling_pending_funcs := True\<rparr>, phase := Calling\<rparr>"
  have 2: "disp_reach s ?s2" using step[OF 1 disp_step.execute] ns by simp
  let ?fs = "pending_funcs (disp s)"
  let ?s3 = "?s2\<lparr>disp := (disp ?s2)\<lparr>pending_funcs := []\<rparr>, phase := Running ?fs\<rparr>"
  have 3: "disp_reach s ?s3" using step[OF 2 disp_step.swap] by (simp add: take_pending_def)
  from run_batch[OF this, of ?fs] ns
  have 4: "disp_reach s (?s3\<lparr>disp := (disp ?s3)\<lparr>ran := ran (disp ?s3) @ ?fs\<rparr>, phase := Running []\<rparr>)"
    (is "disp_reach s ?s4") by simp
  have 5: "disp_reach s (?s4\<lparr>disp := (disp ?s4)\<lparr>in_calling_pending_funcs := False\<rparr>, phase := Head\<rparr>)"
    (is "disp_reach s ?s5") using step[OF 4 disp_step.finish] ns by simp
  have "ran (disp s) @ ?fs = queued s"
    using inv assms(2) by (simp add: disp_inv_def in_flight_def)
  then show ?thesis using 5 by (intro exI[of _ ?s5]) simp
qed

theorem turn_calls_everything_witness:
  "\<exists>(s :: string dsys) (s' :: string dsys). phase s = Polling \<and> disp_reach s s' \<and> ran (disp s') = [''f'']"
proof -
  obtain s where s: "disp_reach (disp_init 1) s" "phase s = Polling" "queued s = [''f'']"
    using demo_polling by blast
  from turn_calls_everything[OF s(1,2)] s(3) obtain s' where "disp_reach s s'" "ran (disp s') = [''f'']" by auto
  with s(2) show ?thesis by blast
qed

section \<open>Quitting early\<close>

text \<open>
  A quit request can get lost: when another thread calls \<^verbatim>\<open>Quit\<close> after
  \<^verbatim>\<open>Loop\<close> has checked the flag and before \<^verbatim>\<open>Loop\<close> clears it, the loop starts with the
  request forgotten; and when \<^verbatim>\<open>Quit\<close> comes before \<^verbatim>\<open>Loop\<close> is entered, the assertion
  in \<^verbatim>\<open>Loop\<close> fails.
\<close>

lemma early_quit:
  "(\<exists>(s1 :: 'f dsys) (s2 :: 'f dsys). disp_reach (disp_init tid) s1 \<and> quit (disp s1) \<and> disp_step s1 s2
      \<and> phase s2 = Head \<and> \<not> quit (disp s2))
   \<and> (\<exists>d :: 'f dispatcher. Quit False 1 (disp (disp_init tid)) = Inr d \<and> Loop_begin True d = Inl AssertFail)"
proof
  let ?s0 = "disp_init tid :: 'f dsys"
  have 1: "disp_reach ?s0 (?s0\<lparr>phase := Starting\<rparr>)"
    by (rule disp_reach.there[OF disp_reach.here disp_step.check]) (simp_all add: disp_init_def)
  let ?s1 = "(?s0\<lparr>phase := Starting\<rparr>)\<lparr>disp := (disp ?s0)\<lparr>quit := True\<rparr>, owing := 1\<rparr>"
  have 2: "disp_reach ?s0 ?s1"
    using disp_reach.there[OF 1 disp_step.other_quit] by (simp add: disp_init_def)
  let ?s2 = "?s1\<lparr>disp := (disp ?s1)\<lparr>looping := True, quit := False\<rparr>, phase := Head\<rparr>"
  have "disp_step ?s1 ?s2" by (rule disp_step.set_flags) simp
  with 2 show "\<exists>(s1 :: 'f dsys) (s2 :: 'f dsys). disp_reach (disp_init tid) s1 \<and> quit (disp s1) \<and> disp_step s1 s2
      \<and> phase s2 = Head \<and> \<not> quit (disp s2)" by (intro exI[of _ ?s1] exI[of _ ?s2]) simp
  show "\<exists>d :: 'f dispatcher. Quit False 1 (disp (disp_init tid)) = Inr d \<and> Loop_begin True d = Inl AssertFail"
    by (simp add: Quit_def Loop_begin_def AssertInLoopThread_def disp_init_def Wakeup_def)
qed

section \<open>One batch\<close>

text \<open>A function that queues others, called in the loop thread.\<close>

definition queue_all :: "nat \<Rightarrow> ('f \<Rightarrow> 'f list) \<Rightarrow> 'f \<Rightarrow> 'f dispatcher \<Rightarrow> 'f dispatcher res" where
  "queue_all v body f d = Inr (fold (QueueInLoop True v) (body f) d)"

lemma QueueInLoop_calling:
  "in_calling_pending_funcs d \<Longrightarrow> wakeup_value v \<Longrightarrow> wakeup_count d \<le> 2 ^ 64 - 2 \<Longrightarrow>
     in_calling_pending_funcs (QueueInLoop True v f d) \<and> 0 < wakeup_count (QueueInLoop True v f d)
     \<and> wakeup_count (QueueInLoop True v f d) \<le> 2 ^ 64 - 2 \<and> ran (QueueInLoop True v f d) = ran d
     \<and> pending_funcs (QueueInLoop True v f d) = pending_funcs d @ [f] \<and> quit (QueueInLoop True v f d) = quit d"
  using eventfd_write_pos[of v "wakeup_count d"]
  by (simp add: QueueInLoop_def queue_push_def needs_wakeup_def Wakeup_def)

lemma queue_all_fold:
  assumes "in_calling_pending_funcs d" and "wakeup_value v" and "wakeup_count d \<le> 2 ^ 64 - 2"
  shows "\<exists>d'. fold (QueueInLoop True v) gs d = d' \<and> in_calling_pending_funcs d' \<and> wakeup_count d' \<le> 2 ^ 64 - 2
     \<and> pending_funcs d' = pending_funcs d @ gs \<and> ran d' = ran d
     \<and> (wakeup_count d \<noteq> 0 \<or> gs \<noteq> [] \<longrightarrow> 0 < wakeup_count d')"
  using assms
proof (induction gs arbitrary: d)
  case (Cons g gs)
  note q = QueueInLoop_calling[OF Cons.prems, of g]
  from Cons.IH[OF _ Cons.prems(2)] q show ?case by fastforce
qed simp

text \<open>
  \<^verbatim>\<open>ExecutePendingFuncs\<close> calls the functions that were in the queue when it
  started, in order and once each. What they queue is kept for the next turn of the loop, in
  order, and if there is anything, that turn will not block.
\<close>

theorem ExecutePendingFuncs_batch:
  assumes "wakeup_value v" and "wakeup_count d \<le> 2 ^ 64 - 2"
  shows "\<exists>d'. ExecutePendingFuncs (queue_all v body) d = Inr d' \<and> ran d' = ran d @ pending_funcs d
     \<and> pending_funcs d' = concat (map body (pending_funcs d)) \<and> \<not> in_calling_pending_funcs d'
     \<and> (pending_funcs d' \<noteq> [] \<longrightarrow> 0 < wakeup_count d')"
proof -
  have batch: "in_calling_pending_funcs e \<Longrightarrow> wakeup_count e \<le> 2 ^ 64 - 2 \<Longrightarrow>
    \<exists>e'. seq_res (call_pending (queue_all v body)) fs e = Inr e' \<and> ran e' = ran e @ fs
      \<and> pending_funcs e' = pending_funcs e @ concat (map body fs)
      \<and> (wakeup_count e \<noteq> 0 \<or> concat (map body fs) \<noteq> [] \<longrightarrow> 0 < wakeup_count e')" for fs e
  proof (induction fs arbitrary: e)
    case (Cons f fs)
    let ?e = "e\<lparr>ran := ran e @ [f]\<rparr>"
    have "in_calling_pending_funcs ?e" "wakeup_count ?e \<le> 2 ^ 64 - 2" using Cons.prems by simp_all
    from queue_all_fold[OF this(1) assms(1) this(2), of "body f"] obtain e1 where
      e1: "fold (QueueInLoop True v) (body f) ?e = e1" "in_calling_pending_funcs e1" "wakeup_count e1 \<le> 2 ^ 64 - 2"
      "pending_funcs e1 = pending_funcs e @ body f" "ran e1 = ran e @ [f]"
      "wakeup_count e \<noteq> 0 \<or> body f \<noteq> [] \<longrightarrow> 0 < wakeup_count e1" by auto
    from Cons.IH[OF e1(2,3)] e1 show ?case by (auto simp: call_pending_def queue_all_def)
  qed simp
  let ?d = "d\<lparr>in_calling_pending_funcs := True, pending_funcs := []\<rparr>"
  have "in_calling_pending_funcs ?d" "wakeup_count ?d \<le> 2 ^ 64 - 2" using assms(2) by simp_all
  from batch[OF this, of "pending_funcs d"] show ?thesis
    by (auto simp: ExecutePendingFuncs_def take_pending_def)
qed

theorem ExecutePendingFuncs_batch_witness:
  "\<exists>d'. ExecutePendingFuncs (queue_all 1 (\<lambda>n. if n = 0 then [] else [n - 1 :: nat]))
       (queue_push 2 (queue_push 0 (disp (disp_init 1)))) = Inr d'
     \<and> ran d' = [0, 2] \<and> pending_funcs d' = [1] \<and> 0 < wakeup_count d'"
  using ExecutePendingFuncs_batch[of 1 "queue_push 2 (queue_push 0 (disp (disp_init 1)))"
      "\<lambda>n. if n = 0 then [] else [n - 1 :: nat]"]
  by (auto simp: wakeup_value_def queue_push_def disp_init_def)

text \<open>A function queued by the owner outside of the queue's functions does not wake the loop.\<close>

lemma QueueInLoop_own_silent:
  "\<not> in_calling_pending_funcs d \<Longrightarrow> wakeup_count (QueueInLoop True v f d) = wakeup_count d"
  by (simp add: QueueInLoop_def queue_push_def needs_wakeup_def)

end
