(* ===== verification/DispatcherPool.thy ===== *)
theory DispatcherPool
  imports Dispatcher
begin

text \<open>
  \<^verbatim>\<open>reactor/dispatcherpool.cc\<close> and \<^verbatim>\<open>reactor/dispatchthread.cc\<close>: the loops of the
  I/O threads and how connections are distributed over them. A dispatcher is named by a number:
  the base is 0, and the \<open>i\<close>-th thread of the pool is \<open>i + 1\<close>.
\<close>

record dispatcher_pool =
  pool_started :: bool
  num_threads :: int
  next_index :: int
  dispatchers :: "nat list"

definition DispatcherPool_new :: dispatcher_pool where
  "DispatcherPool_new = \<lparr>pool_started = False, num_threads = 0, next_index = 0, dispatchers = []\<rparr>"

definition set_thread_num :: "int \<Rightarrow> dispatcher_pool \<Rightarrow> dispatcher_pool" where
  "set_thread_num n p = p\<lparr>num_threads := n\<rparr>"

text \<open>The loop appends one dispatcher per thread; a second start appends again.\<close>

definition Pool_Start :: "bool \<Rightarrow> dispatcher_pool \<Rightarrow> dispatcher_pool res" where
  "Pool_Start same p =
     rbind (AssertInLoopThread same p) (\<lambda>p.
     Inr (p\<lparr>pool_started := True,
           dispatchers := dispatchers p @ map (\<lambda>i. length (dispatchers p) + i + 1) [0..<nat (num_threads p)]\<rparr>))"

text \<open>
  \<^verbatim>\<open>%\<close> is the remainder of C++, whose division by zero is undefined, and the index is not
  checked by the vector.
\<close>

definition get_next_dispatcher :: "bool \<Rightarrow> dispatcher_pool \<Rightarrow> (nat \<times> dispatcher_pool) res" where
  "get_next_dispatcher same p =
     rbind (AssertInLoopThread same p) (\<lambda>p.
     if dispatchers p \<noteq> []
     then if 0 \<le> next_index p \<and> next_index p < int (length (dispatchers p))
          then if num_threads p = 0 then Inl OutOfRange
               else Inr (dispatchers p ! nat (next_index p),
                         p\<lparr>next_index := (next_index p + 1) mod \<bar>num_threads p\<bar>\<rparr>)
          else Inl OutOfRange
     else Inr (0, p))"

section \<open>The start of an I/O thread\<close>

text \<open>
  The handshake of \<^verbatim>\<open>DispatchThread\<close>: \<open>dt_pointer\<close> is \<^verbatim>\<open>dispatcher_\<close>, None for null;
  \<open>dt_disp\<close> is the dispatcher in the thread.
\<close>

record 'f dispatch_thread =
  dt_started :: bool
  dt_disp :: "'f dispatcher option"
  dt_pointer :: "'f dispatcher option"

definition DispatchThread_new :: "'f dispatch_thread" where
  "DispatchThread_new = \<lparr>dt_started = False, dt_disp = None, dt_pointer = None\<rparr>"

definition DispatchThread_Start_begin :: "'f dispatch_thread \<Rightarrow> 'f dispatch_thread res" where
  "DispatchThread_Start_begin t = assert_then (\<not> dt_started t) (Inr (t\<lparr>dt_started := True\<rparr>))"

text \<open>The thread function up to the call of \<^verbatim>\<open>Loop\<close>.\<close>

definition DispatchThread_ThreadFunc :: "int \<Rightarrow> int \<Rightarrow> 'f dispatch_thread \<Rightarrow> 'f dispatch_thread res" where
  "DispatchThread_ThreadFunc tid efd t =
     rbind (Dispatcher_new False tid efd) (\<lambda>(d, h). Inr (t\<lparr>dt_disp := Some d, dt_pointer := Some d\<rparr>))"

text \<open>The end of \<^verbatim>\<open>Start\<close>: None while it waits for the condition.\<close>

definition DispatchThread_Start_end :: "'f dispatch_thread \<Rightarrow> 'f dispatcher option" where
  "DispatchThread_Start_end t = dt_pointer t"

text \<open>The destructor quits the loop through the pointer, then joins the thread.\<close>

definition DispatchThread_destroy :: "nat \<Rightarrow> 'f dispatch_thread \<Rightarrow> 'f dispatch_thread res" where
  "DispatchThread_destroy v t =
     (case dt_pointer t of None \<Rightarrow> Inl NullDeref
      | Some d \<Rightarrow> rbind (Quit False v d) (\<lambda>d'. Inr (t\<lparr>dt_disp := Some d', dt_pointer := Some d'\<rparr>)))"

text \<open>
  A thread object that was never started cannot be destroyed, and one that is destroyed between the
  end of \<^verbatim>\<open>Start\<close> and the start of the loop makes the assertion in \<^verbatim>\<open>Loop\<close> fail.
\<close>

lemma DispatchThread_destroy_unstarted: "DispatchThread_destroy v DispatchThread_new = Inl NullDeref"
  by (simp add: DispatchThread_destroy_def DispatchThread_new_def)

lemma DispatchThread_destroy_early:
  assumes "DispatchThread_ThreadFunc tid efd t = Inr t1" and "0 \<le> efd"
  shows "\<exists>t2 d. DispatchThread_destroy v t1 = Inr t2 \<and> dt_disp t2 = Some d \<and> Loop_begin True d = Inl AssertFail"
  using assms
  by (auto simp: DispatchThread_ThreadFunc_def DispatchThread_destroy_def Dispatcher_new_def CreateEventFd_def
      Quit_def Loop_begin_def AssertInLoopThread_def Wakeup_def Let_def)

section \<open>Round robin\<close>

fun next_dispatchers :: "nat \<Rightarrow> dispatcher_pool \<Rightarrow> (nat list \<times> dispatcher_pool) res" where
  "next_dispatchers 0 p = Inr ([], p)"
| "next_dispatchers (Suc k) p =
     rbind (get_next_dispatcher True p) (\<lambda>(d, p1). rbind (next_dispatchers k p1) (\<lambda>(ds, p2). Inr (d # ds, p2)))"

text \<open>The pool after \<^verbatim>\<open>set_thread_num(n)\<close> and \<^verbatim>\<open>Start\<close>.\<close>

definition started_pool :: "nat \<Rightarrow> dispatcher_pool" where
  "started_pool n = \<lparr>pool_started = True, num_threads = int n, next_index = 0, dispatchers = [1..<n + 1]\<rparr>"

lemma started_pool_eq: "Pool_Start True (set_thread_num (int n) DispatcherPool_new) = Inr (started_pool n)"
proof -
  have "map (\<lambda>i. i + 1) [0..<n] = [1..<n + 1]"
    using map_Suc_upt[of 0 n] by (simp add: One_nat_def)
  then show ?thesis
    by (simp add: Pool_Start_def AssertInLoopThread_def set_thread_num_def DispatcherPool_new_def started_pool_def)
qed

definition pool_inv :: "nat \<Rightarrow> dispatcher_pool \<Rightarrow> bool" where
  "pool_inv n p = (num_threads p = int n \<and> dispatchers p = [1..<n + 1]
     \<and> 0 \<le> next_index p \<and> (n > 0 \<longrightarrow> next_index p < int n) \<and> (n = 0 \<longrightarrow> next_index p = 0))"

lemma started_pool_inv: "pool_inv n (started_pool n)"
  by (simp add: pool_inv_def started_pool_def)

lemma get_next_ok:
  assumes "pool_inv n p"
  shows "\<exists>d p'. get_next_dispatcher True p = Inr (d, p') \<and> pool_inv n p' \<and> d \<le> n
    \<and> (n > 0 \<longrightarrow> d = Suc (nat (next_index p)) \<and> next_index p' = (next_index p + 1) mod int n)"
proof (cases "n = 0")
  case True
  then show ?thesis using assms by (simp add: get_next_dispatcher_def AssertInLoopThread_def pool_inv_def)
next
  case False
  then have "[1..<n + 1] ! nat (next_index p) = Suc (nat (next_index p))"
    using assms by (subst nth_upt) (auto simp: pool_inv_def)
  with False assms show ?thesis
    by (auto simp: get_next_dispatcher_def AssertInLoopThread_def pool_inv_def)
qed

lemma next_dispatchers_from:
  assumes "n > 0" and "pool_inv n p" and "next_index p = int (j mod n)"
  shows "\<exists>p'. next_dispatchers k p = Inr (map (\<lambda>i. Suc (i mod n)) [j..<j + k], p')"
  using assms(2,3)
proof (induction k arbitrary: p j)
  case (Suc k)
  from get_next_ok[OF Suc.prems(1)] assms(1) Suc.prems(2) obtain p1 where
    p1: "get_next_dispatcher True p = Inr (Suc (j mod n), p1)" "pool_inv n p1"
    "next_index p1 = (int (j mod n) + 1) mod int n" by auto
  have "(int (j mod n) + 1) mod int n = int (Suc j mod n)"
    by (simp add: zmod_int mod_simps add.commute)
  with Suc.IH[OF p1(2), of "Suc j"] p1(3) obtain p2 where
    "next_dispatchers k p1 = Inr (map (\<lambda>i. Suc (i mod n)) [Suc j..<Suc j + k], p2)" by auto
  with p1(1) show ?case by (simp add: upt_conv_Cons del: upt_Suc)
qed simp

text \<open>
  Round robin: after \<^verbatim>\<open>Start\<close> with \<open>n\<close> threads, the \<open>i\<close>-th new connection is
  given to thread \<open>i mod n\<close> of the pool, and to the base loop when there are no threads; the
  vector is never indexed out of its bounds.
\<close>

theorem round_robin:
  "\<exists>p0 p. Pool_Start True (set_thread_num (int n) DispatcherPool_new) = Inr p0
     \<and> next_dispatchers k p0 = Inr (map (\<lambda>i. if n = 0 then 0 else Suc (i mod n)) [0..<k], p)"
proof (cases "n = 0")
  case True
  have "next_dispatchers k p = Inr (replicate k 0, p)" if "dispatchers p = []" for p
    using that by (induction k) (simp_all add: get_next_dispatcher_def AssertInLoopThread_def)
  then have "next_dispatchers k (started_pool 0) = Inr (replicate k 0, started_pool 0)"
    by (simp add: started_pool_def)
  then show ?thesis using started_pool_eq[of n] True by (auto simp: map_replicate_const)
next
  case False
  then have "\<exists>p. next_dispatchers k (started_pool n) = Inr (map (\<lambda>i. Suc (i mod n)) [0..<k], p)"
    using next_dispatchers_from[OF _ started_pool_inv, of n 0 k] by (simp add: started_pool_def)
  then show ?thesis using started_pool_eq[of n] False by auto
qed

end
