(* ===== verification/InetAddr.thy ===== *)
theory InetAddr
  imports CLib Prelude "HOL-Library.Word"
begin

text \<open>
  \<^verbatim>\<open>net/inetaddr.cc\<close>: IPv4 socket addresses on a little endian machine. The fields of
  \<^verbatim>\<open>sockaddr_in\<close> are the machine words the program stores; \<^verbatim>\<open>htonl\<close> and
  \<^verbatim>\<open>htons\<close> swap their bytes.
\<close>

unbundle bit_operations_syntax

record sockaddr_in =
  sin_family :: int
  s_addr :: "32 word"
  sin_port :: "16 word"

definition AF_INET :: int where "AF_INET = 2"

definition htons :: "16 word \<Rightarrow> 16 word" where
  "htons w = (push_bit 8 w AND 0xFF00) OR (drop_bit 8 w AND 0x00FF)"

definition htonl :: "32 word \<Rightarrow> 32 word" where
  "htonl w = push_bit 24 (w AND 0xFF) OR push_bit 8 (w AND 0xFF00)
     OR (drop_bit 8 w AND 0xFF00) OR (drop_bit 24 w AND 0xFF)"

text \<open>The \<open>i\<close>-th byte of a word in memory.\<close>

definition mem_byte :: "nat \<Rightarrow> 32 word \<Rightarrow> nat" where
  "mem_byte i w = unat (drop_bit (8 * i) w AND 0xFF)"

text \<open>\<^verbatim>\<open>inet_ntop\<close> prints the four bytes in memory order; 16 bytes are enough for them.\<close>

definition inet_ntop :: "32 word \<Rightarrow> string" where
  "inet_ntop a = dec_nat (mem_byte 0 a) @ ''.'' @ dec_nat (mem_byte 1 a) @ ''.'' @ dec_nat (mem_byte 2 a)
     @ ''.'' @ dec_nat (mem_byte 3 a)"

text \<open>
  \<^verbatim>\<open>std::atoi\<close>: white space, a sign, then decimal digits up to the first other character.
  Out of range values are undefined; the model keeps the low 32 bits.
\<close>

definition is_digit :: "char \<Rightarrow> bool" where
  "is_digit c = (48 \<le> (of_char c :: nat) \<and> of_char c \<le> (57 :: nat))"

definition atoi :: "string \<Rightarrow> int" where
  "atoi s = (let t = dropWhile isspace s in
     case t of
       [] \<Rightarrow> 0
     | c # r \<Rightarrow> if c = CHR ''-'' then - int (undec (takeWhile is_digit r))
               else if c = CHR ''+'' then int (undec (takeWhile is_digit r))
               else int (undec (takeWhile is_digit t)))"

definition InetAddr_port :: "16 word \<Rightarrow> sockaddr_in" where
  "InetAddr_port port = \<lparr>sin_family = AF_INET, s_addr = htonl 0, sin_port = htons port\<rparr>"

definition set_host_port :: "string \<Rightarrow> 16 word \<Rightarrow> sockaddr_in" where
  "set_host_port ip port =
     \<lparr>sin_family = AF_INET, s_addr = htonl (word_of_int (atoi ip)), sin_port = htons port\<rparr>"

definition InetAddr_ip :: "string \<Rightarrow> 16 word \<Rightarrow> sockaddr_in" where
  "InetAddr_ip ip port = set_host_port ip port"

definition get_host_port :: "nat \<Rightarrow> sockaddr_in \<Rightarrow> string" where
  "get_host_port len addr =
     snprintf_keep len (inet_ntop (s_addr addr) @ '':'' @ dec_nat (unat (htons (sin_port addr))))"

definition get_iner_host_port :: "sockaddr_in \<Rightarrow> string" where
  "get_iner_host_port addr = get_host_port 32 addr"

lemma low_mask: "(0x00FF :: 16 word) = mask 8" and high_mask: "(0xFF00 :: 16 word) = push_bit 8 (mask 8)"
  by (simp_all add: mask_eq_exp_minus_1 push_bit_eq_mult)

lemma htons_twice [simp]: "htons (htons w) = w"
  unfolding htons_def low_mask high_mask
  by (rule bit_word_eqI) (auto simp: bit_simps)

lemma mem_byte_le: "mem_byte i w \<le> 255"
proof -
  have "unat (drop_bit (8 * i) w AND 0xFF) = unat (take_bit 8 (drop_bit (8 * i) w))"
    by (simp add: take_bit_eq_mask mask_numeral)
  also have "\<dots> < 2 ^ 8" using take_bit_nat_less_exp[of 8] by (simp only: unsigned_take_bit_eq)
  finally show ?thesis by (simp add: mem_byte_def)
qed

lemma length_dec_byte: "length (dec_nat (mem_byte i w)) \<le> 3"
  using mem_byte_le[of i w] by (intro length_dec_nat_le) simp_all

lemma length_inet_ntop: "length (inet_ntop a) \<le> 15"
  using length_dec_byte[of 0 a] length_dec_byte[of 1 a] length_dec_byte[of 2 a] length_dec_byte[of 3 a]
  by (simp add: inet_ntop_def)

lemma length_port: "length (dec_nat (unat (w :: 16 word))) \<le> 5"
  using unsigned_less[of w, where 'a = nat] by (intro length_dec_nat_le) simp_all

text \<open>The text is never cut: 21 characters are enough for every address and port, the array has 32.\<close>

lemma get_iner_host_port_text:
  "get_iner_host_port addr = inet_ntop (s_addr addr) @ '':'' @ dec_nat (unat (htons (sin_port addr)))"
  unfolding get_iner_host_port_def get_host_port_def
  using length_inet_ntop[of "s_addr addr"] length_port[of "htons (sin_port addr)"]
  by (intro snprintf_keep_id) simp

text \<open>
  The text of an address: it is the dotted address, a colon and the port given to the
  constructor, never truncated, and different ports give different texts; but the constructor that
  takes an address as text reads only its first number, so \<^verbatim>\<open>127.0.0.1\<close> becomes
  \<^verbatim>\<open>0.0.0.127\<close>.
\<close>

lemma host_port_text:
  "get_iner_host_port (InetAddr_port p) = ''0.0.0.0:'' @ dec_nat (unat p)
   \<and> (get_iner_host_port (InetAddr_port p) = get_iner_host_port (InetAddr_port q) \<longleftrightarrow> p = q)
   \<and> get_iner_host_port (InetAddr_ip ''127.0.0.1'' p) = ''0.0.0.127:'' @ dec_nat (unat p)"
proof -
  have z: "inet_ntop (htonl 0) = ''0.0.0.0''"
    by (simp add: inet_ntop_def htonl_def mem_byte_def dec_nat.simps)
  have a: "atoi ''127.0.0.1'' = 127" by code_simp
  have "inet_ntop (htonl 127) = ''0.0.0.127''"
    by (simp add: inet_ntop_def htonl_def mem_byte_def dec_nat.simps)
  moreover have "unat p = unat q \<longleftrightarrow> p = q" by (simp add: word_unat_eq_iff)
  ultimately show ?thesis using z a
    by (simp add: get_iner_host_port_text InetAddr_port_def InetAddr_ip_def set_host_port_def)
qed

end
