(* ===== verification/Acceptor.thy ===== *)
theory Acceptor
  imports EventHandler InetAddr
begin

text \<open>
  \<^verbatim>\<open>net/socket.cc\<close> and \<^verbatim>\<open>net/acceptor.cc\<close>: accepting connections, as built without
  \<^verbatim>\<open>LONGCONN\<close>. The kernel's answers are lists that the program consumes in order: an answer
  of \<^verbatim>\<open>accept4\<close> is an error number or a descriptor with the peer's address. The options set
  on a socket are a trace of \<^verbatim>\<open>(level, option, value)\<close>.
\<close>

section \<open>Socket\<close>

datatype sock_level = SOL_SOCKET | IPPROTO_IP
datatype sock_option = SO_REUSEADDR | SO_REUSEPORT | SO_KEEPALIVE | TCP_NODELAY

record socket =
  sock_fd :: int
  sock_options :: "(sock_level \<times> sock_option \<times> int) list"
  sock_bound :: "sockaddr_in option"
  sock_listening :: bool
  sock_shut :: bool

definition Socket_new :: "int \<Rightarrow> socket" where
  "Socket_new fd = \<lparr>sock_fd = fd, sock_options = [], sock_bound = None, sock_listening = False, sock_shut = False\<rparr>"

text \<open>\<open>ret\<close> is the return value of the system call.\<close>

definition Bind :: "int \<Rightarrow> sockaddr_in \<Rightarrow> socket \<Rightarrow> socket res" where
  "Bind ret addr s = (if ret < 0 then Inl Aborted else Inr (s\<lparr>sock_bound := Some addr\<rparr>))"

definition Socket_Listen :: "int \<Rightarrow> socket \<Rightarrow> socket res" where
  "Socket_Listen ret s = (if ret < 0 then Inl Aborted else Inr (s\<lparr>sock_listening := True\<rparr>))"

definition ShutDownWrite :: "int \<Rightarrow> socket \<Rightarrow> socket" where
  "ShutDownWrite ret s = (if ret = -1 then s else s\<lparr>sock_shut := True\<rparr>)"

definition setsockopt :: "sock_level \<Rightarrow> sock_option \<Rightarrow> int \<Rightarrow> socket \<Rightarrow> socket" where
  "setsockopt l opt val s = s\<lparr>sock_options := sock_options s @ [(l, opt, val)]\<rparr>"

definition enable_reuse_addr :: "socket \<Rightarrow> socket" where
  "enable_reuse_addr = setsockopt SOL_SOCKET SO_REUSEADDR 1"

definition disable_reuse_addr :: "socket \<Rightarrow> socket" where
  "disable_reuse_addr = setsockopt SOL_SOCKET SO_REUSEADDR 0"

definition enable_tcp_nodelay :: "socket \<Rightarrow> socket" where
  "enable_tcp_nodelay = setsockopt IPPROTO_IP TCP_NODELAY 1"

definition disable_tcp_nodelay :: "socket \<Rightarrow> socket" where
  "disable_tcp_nodelay = setsockopt IPPROTO_IP TCP_NODELAY 0"

definition enable_keep_alive :: "int \<Rightarrow> socket \<Rightarrow> socket res" where
  "enable_keep_alive ret s = (if ret < 0 then Inl Aborted else Inr (setsockopt SOL_SOCKET SO_KEEPALIVE 1 s))"

definition disable_keep_alive :: "int \<Rightarrow> socket \<Rightarrow> socket res" where
  "disable_keep_alive ret s = (if ret < 0 then Inl Aborted else Inr (setsockopt SOL_SOCKET SO_KEEPALIVE 0 s))"

definition enable_reuse_port :: "int \<Rightarrow> socket \<Rightarrow> socket res" where
  "enable_reuse_port ret s = (if ret < 0 then Inl Aborted else Inr (setsockopt SOL_SOCKET SO_REUSEPORT 1 s))"

definition disable_reuse_port :: "int \<Rightarrow> socket \<Rightarrow> socket res" where
  "disable_reuse_port ret s = (if ret < 0 then Inl Aborted else Inr (setsockopt SOL_SOCKET SO_REUSEPORT 0 s))"

text \<open>
  \<^verbatim>\<open>accept4\<close>: an error number or a descriptor and an address. Four errors are returned, the
  listed fatal ones and every other one abort the process. The result is the descriptor (negative
  after an error), the saved error number and the address.
\<close>

type_synonym accept_answer = "int + (int \<times> sockaddr_in)"

definition EPERM :: int where "EPERM = 1"
definition EINTR :: int where "EINTR = 4"
definition EAGAIN :: int where "EAGAIN = 11"
definition EMFILE :: int where "EMFILE = 24"
definition ECONNABORTED :: int where "ECONNABORTED = 103"

definition Accept :: "accept_answer \<Rightarrow> sockaddr_in \<Rightarrow> (int \<times> int \<times> sockaddr_in) res" where
  "Accept ans con_addr =
     (case ans of
        Inl err \<Rightarrow> if err = EAGAIN \<or> err = EINTR \<or> err = EPERM \<or> err = EMFILE
                   then Inr (-1, err, con_addr) else Inl Aborted
      | Inr (fd, addr) \<Rightarrow> Inr (fd, 0, addr))"

section \<open>Acceptor\<close>

text \<open>
  \<open>has_callback\<close> says whether \<^verbatim>\<open>newConnectionCallback_\<close> is set; \<open>accepted\<close> is the trace of its
  calls, \<open>closed\<close> the descriptors that were closed.
\<close>

record acceptor =
  server_socket :: socket
  acc_handler :: event_handler
  listenning :: bool
  idle_fd :: int
  has_callback :: bool
  accepted :: "(int \<times> sockaddr_in) list"
  closed :: "int list"

definition CreateServerSocket :: "int \<Rightarrow> int res" where
  "CreateServerSocket fd = (if fd < 0 then Inl Aborted else Inr fd)"

text \<open>\<open>fd\<close>, \<open>null_fd\<close>, \<open>rp\<close> and \<open>rb\<close> are the results of the system calls in their order.\<close>

definition Acceptor_new :: "int \<Rightarrow> int \<Rightarrow> int \<Rightarrow> int \<Rightarrow> sockaddr_in \<Rightarrow> acceptor res" where
  "Acceptor_new fd null_fd rp rb addr =
     rbind (CreateServerSocket fd) (\<lambda>fd.
     rbind (enable_reuse_port rp (enable_tcp_nodelay (enable_reuse_addr (Socket_new fd)))) (\<lambda>s.
     rbind (Bind rb addr s) (\<lambda>s.
     Inr \<lparr>server_socket = s, acc_handler = new_handler fd, listenning = False, idle_fd = null_fd,
          has_callback = False, accepted = [], closed = []\<rparr>)))"

definition set_new_connection_callback :: "bool \<Rightarrow> acceptor \<Rightarrow> acceptor" where
  "set_new_connection_callback b a = a\<lparr>has_callback := b\<rparr>"

definition Listen :: "int \<Rightarrow> acceptor \<Rightarrow> acceptor res" where
  "Listen ret a =
     rbind (Socket_Listen ret (server_socket a)) (\<lambda>s.
     Inr (a\<lparr>listenning := True, server_socket := s, acc_handler := set_care_read (acc_handler a)\<rparr>))"

text \<open>The destructor, followed by the one of the member \<^verbatim>\<open>server_socket_\<close>, which closes its descriptor.\<close>

definition Acceptor_destroy :: "acceptor \<Rightarrow> acceptor" where
  "Acceptor_destroy a =
     a\<lparr>acc_handler := set_stop_care_all (acc_handler a),
       closed := closed a @ [idle_fd a, sock_fd (server_socket a)]\<rparr>"

text \<open>
  One spare descriptor makes room to accept and drop a connection when the process has no
  descriptor left: \<open>extra\<close> is what \<^verbatim>\<open>accept\<close> then returns, \<open>null_fd\<close> the reopened file.
\<close>

definition drop_one :: "int \<Rightarrow> int \<Rightarrow> acceptor \<Rightarrow> acceptor" where
  "drop_one extra null_fd a =
     (let a1 = a\<lparr>closed := closed a @ [idle_fd a], idle_fd := extra\<rparr>;
          a2 = a1\<lparr>closed := closed a1 @ [idle_fd a1]\<rparr>
      in a2\<lparr>idle_fd := null_fd\<rparr>)"

definition deliver :: "int \<Rightarrow> sockaddr_in \<Rightarrow> acceptor \<Rightarrow> acceptor" where
  "deliver fd addr a =
     (if has_callback a then a\<lparr>accepted := accepted a @ [(fd, addr)]\<rparr> else a\<lparr>closed := closed a @ [fd]\<rparr>)"

text \<open>None: the answers are used up and the loop is still running.\<close>

fun accept_loop ::
  "int \<Rightarrow> int \<Rightarrow> sockaddr_in \<Rightarrow> accept_answer list \<Rightarrow> acceptor \<Rightarrow> acceptor res option" where
  "accept_loop extra null_fd client_addr [] a = None"
| "accept_loop extra null_fd client_addr (ans # rest) a =
     (case Accept ans client_addr of
        Inl e \<Rightarrow> Some (Inl e)
      | Inr (connfd, err, addr) \<Rightarrow>
          if connfd > 0 then accept_loop extra null_fd addr rest (deliver connfd addr a)
          else Some (Inr (if connfd < 0 \<and> err = EMFILE then drop_one extra null_fd a else a)))"

definition EventHandlerCallBack :: "int \<Rightarrow> int \<Rightarrow> accept_answer list \<Rightarrow> acceptor \<Rightarrow> acceptor res option" where
  "EventHandlerCallBack extra null_fd answers a = accept_loop extra null_fd (InetAddr_port 0) answers a"

section \<open>Accepting everything that waits\<close>

lemma accept_loop_pending:
  assumes "\<forall>(fd, addr)\<in>set conns. fd > 0" and "has_callback a"
  shows "\<exists>ca'. accept_loop extra null_fd ca (map Inr conns @ rest) a
     = accept_loop extra null_fd ca' rest (a\<lparr>accepted := accepted a @ conns\<rparr>)"
  using assms
proof (induction conns arbitrary: a ca)
  case Nil
  then show ?case by (auto intro!: exI[of _ ca])
next
  case (Cons c conns)
  obtain fd addr where c: "c = (fd, addr)" by fastforce
  from Cons.IH[of "a\<lparr>accepted := accepted a @ [c]\<rparr>" addr] Cons.prems c show ?case
    by (simp add: Accept_def deliver_def)
qed

text \<open>
  Claim C33. One readable event accepts every connection that waits: each is handed to the server
  exactly once, in the kernel's order; the loop ends at the first transient error; when the process
  has run out of descriptors exactly one more connection is accepted and closed at once, and the spare
  descriptor is back in place. Any other error, a connection that was reset before it was accepted
  included, ends the whole process.
\<close>

theorem accept_all:
  assumes "\<forall>(fd, addr)\<in>set conns. fd > 0" and "has_callback a"
  shows "\<exists>a'. a' = a\<lparr>accepted := accepted a @ conns\<rparr>
     \<and> EventHandlerCallBack extra null_fd (map Inr conns @ [Inl EAGAIN]) a = Some (Inr a')
     \<and> EventHandlerCallBack extra null_fd (map Inr conns @ [Inl EMFILE]) a
        = Some (Inr (a'\<lparr>closed := closed a @ [idle_fd a, extra], idle_fd := null_fd\<rparr>))
     \<and> EventHandlerCallBack extra null_fd (map Inr conns @ [Inl ECONNABORTED]) a = Some (Inl Aborted)"
proof -
  let ?a = "a\<lparr>accepted := accepted a @ conns\<rparr>"
  have "accept_loop extra null_fd ca' [Inl EAGAIN] ?a = Some (Inr ?a)"
    and "accept_loop extra null_fd ca' [Inl EMFILE] ?a
      = Some (Inr (?a\<lparr>closed := closed a @ [idle_fd a, extra], idle_fd := null_fd\<rparr>))"
    and "accept_loop extra null_fd ca' [Inl ECONNABORTED] ?a = Some (Inl Aborted)" for ca'
    by (simp_all add: Accept_def EAGAIN_def EMFILE_def EINTR_def EPERM_def ECONNABORTED_def drop_one_def Let_def)
  then show ?thesis unfolding EventHandlerCallBack_def
    using accept_loop_pending[OF assms, of extra null_fd "InetAddr_port 0"] by metis
qed

theorem accept_all_witness:
  "\<exists>a a'. Acceptor_new 3 4 0 0 (InetAddr_port 80) = Inr a
     \<and> EventHandlerCallBack 9 10 [Inr (7, InetAddr_port 1), Inl EMFILE] (set_new_connection_callback True a)
        = Some (Inr a') \<and> accepted a' = [(7, InetAddr_port 1)] \<and> closed a' = [4, 9] \<and> idle_fd a' = 10"
proof -
  obtain a where a: "Acceptor_new 3 4 0 0 (InetAddr_port 80) = Inr a" "accepted a = []" "closed a = []" "idle_fd a = 4"
    by (auto simp: Acceptor_new_def CreateServerSocket_def enable_reuse_port_def Bind_def)
  let ?a = "set_new_connection_callback True a"
  have "\<forall>(fd, addr)\<in>set [(7, InetAddr_port 1)]. (fd :: int) > 0" "has_callback ?a"
    by (simp_all add: set_new_connection_callback_def)
  from accept_all[OF this, of 9 10] a show ?thesis
    by (auto simp: set_new_connection_callback_def)
qed

text \<open>
  A listening acceptor is watched by the kernel, and the option that was meant to switch Nagle's
  algorithm off is set at the level of IP, where it does not exist.
\<close>

lemma acceptor_setup:
  assumes "Acceptor_new fd null_fd rp rb addr = Inr a" and "Listen rl a = Inr a'"
  shows "sock_bound (server_socket a') = Some addr \<and> sock_listening (server_socket a') \<and> cares_read (acc_handler a')
     \<and> sock_options (server_socket a') =
        [(SOL_SOCKET, SO_REUSEADDR, 1), (IPPROTO_IP, TCP_NODELAY, 1), (SOL_SOCKET, SO_REUSEPORT, 1)]"
  using assms
  by (auto simp: Acceptor_new_def Listen_def rbind_Inr_iff CreateServerSocket_def enable_reuse_port_def
      enable_tcp_nodelay_def enable_reuse_addr_def setsockopt_def Socket_new_def Bind_def Socket_Listen_def
      split: if_splits)

end
