(* ===== verification/TcpServer.thy ===== *)
theory TcpServer
  imports TcpConnection DispatcherPool Acceptor
begin

text \<open>
  \<^verbatim>\<open>net/tcpserver.cc\<close>: the server's map of connections and the life of a connection across
  the threads. A connection object is a number, its \<^verbatim>\<open>shared_ptr\<close>s are copies of that
  number. Dispatcher 0 is the server's own. \<open>net_queues i\<close> holds the functions queued in
  dispatcher \<open>i\<close> for the server and its connections.
\<close>

record tcp_server =
  server_name :: string
  srv_started :: bool
  conn_id :: int
  srv_pool :: dispatcher_pool
  connections :: "nat smap"

datatype net_task = EstablishTask nat | RemoveTask nat | DestroyTask nat

record net =
  server :: tcp_server
  conns :: "nat \<Rightarrow> tcp_conn"
  conn_disp :: "nat \<Rightarrow> nat"
  conn_name :: "nat \<Rightarrow> string"
  num_conns :: nat
  net_queues :: "nat \<Rightarrow> net_task list"

definition TcpServer_new :: "sockaddr_in \<Rightarrow> tcp_server" where
  "TcpServer_new addr = \<lparr>server_name = get_iner_host_port addr, srv_started = False, conn_id = 0,
     srv_pool = DispatcherPool_new, connections = []\<rparr>"

definition SetThreadNum :: "int \<Rightarrow> tcp_server \<Rightarrow> tcp_server res" where
  "SetThreadNum n s = assert_then (0 \<le> n) (Inr (s\<lparr>srv_pool := set_thread_num n (srv_pool s)\<rparr>))"

text \<open>
  \<^verbatim>\<open>Start\<close>: the flag says whether \<^verbatim>\<open>Acceptor::Listen\<close> is handed to the dispatcher.
\<close>

definition Server_Start :: "bool \<Rightarrow> bool \<Rightarrow> tcp_server \<Rightarrow> (tcp_server \<times> bool) res" where
  "Server_Start same is_listenning s =
     rbind (if \<not> srv_started s
            then rbind (Pool_Start same (srv_pool s)) (\<lambda>p. Inr (s\<lparr>srv_started := True, srv_pool := p\<rparr>))
            else Inr s)
       (\<lambda>s'. Inr (s', \<not> is_listenning))"

definition queue_net :: "nat \<Rightarrow> net_task \<Rightarrow> net \<Rightarrow> net" where
  "queue_net i t n = n\<lparr>net_queues := (net_queues n)(i := net_queues n i @ [t])\<rparr>"

text \<open>The server thread part of a removal; \<open>cur\<close> is the dispatcher of the running thread.\<close>

definition RemoveConnectionInLoop :: "nat \<Rightarrow> nat \<Rightarrow> net \<Rightarrow> net res" where
  "RemoveConnectionInLoop cur k n =
     rbind (AssertInLoopThread (cur = 0) n) (\<lambda>n.
     (case smap_erase (conn_name n k) (connections (server n)) of (m, ret) \<Rightarrow>
        assert_then (ret = 1)
          (Inr (queue_net (conn_disp n k) (DestroyTask k)
             (n\<lparr>server := (server n)\<lparr>connections := m\<rparr>\<rparr>)))))"

definition on_conn_object :: "nat \<Rightarrow> (tcp_conn \<Rightarrow> tcp_conn res) \<Rightarrow> net \<Rightarrow> net res" where
  "on_conn_object k f n = rbind (f (conns n k)) (\<lambda>c. Inr (n\<lparr>conns := (conns n)(k := c)\<rparr>))"

text \<open>Running a queued function in the thread of dispatcher \<open>cur\<close>; \<open>cb\<close> is the connection callback.\<close>

fun run_net_task :: "(tcp_conn \<Rightarrow> tcp_conn res) option \<Rightarrow> nat \<Rightarrow> net_task \<Rightarrow> net \<Rightarrow> net res" where
  "run_net_task cb cur (EstablishTask k) n =
     on_conn_object k (set_connection_established (cur = conn_disp n k) cb) n"
| "run_net_task cb cur (RemoveTask k) n = RemoveConnectionInLoop cur k n"
| "run_net_task cb cur (DestroyTask k) n =
     on_conn_object k (set_connection_destroyed (cur = conn_disp n k) cb) n"

definition run_in_loop ::
  "(tcp_conn \<Rightarrow> tcp_conn res) option \<Rightarrow> nat \<Rightarrow> nat \<Rightarrow> net_task \<Rightarrow> net \<Rightarrow> net res" where
  "run_in_loop cb cur target t n =
     (if cur = target then run_net_task cb cur t n else Inr (queue_net target t n))"

definition RemoveConnection :: "(tcp_conn \<Rightarrow> tcp_conn res) option \<Rightarrow> nat \<Rightarrow> nat \<Rightarrow> net \<Rightarrow> net res" where
  "RemoveConnection cb cur k n = run_in_loop cb cur 0 (RemoveTask k) n"

text \<open>\<open>wc\<close>: a write complete callback is set on the server.\<close>

definition NewConnection ::
  "(tcp_conn \<Rightarrow> tcp_conn res) option \<Rightarrow> bool \<Rightarrow> nat \<Rightarrow> int \<Rightarrow> net \<Rightarrow> net res" where
  "NewConnection cb wc cur fd n =
     rbind (AssertInLoopThread (cur = 0) n) (\<lambda>n.
     if conn_id (server n) \<ge> 2 ^ 31 - 1 then Inl Overflow
     else let s = (server n)\<lparr>conn_id := conn_id (server n) + 1\<rparr>;
              name = server_name s @ dec_int (conn_id s)
          in rbind (get_next_dispatcher True (srv_pool s)) (\<lambda>(next_io, p).
             let k = num_conns n;
                 c = set_write_complete_callback wc (TcpConnection_new fd);
                 n1 = n\<lparr>server := s\<lparr>srv_pool := p, connections := smap_insert name k (connections s)\<rparr>,
                        conns := (conns n)(k := c), conn_disp := (conn_disp n)(k := next_io),
                        conn_name := (conn_name n)(k := name), num_conns := Suc k\<rparr>
             in run_in_loop cb cur next_io (EstablishTask k) n1))"

text \<open>The peer closes: the connection's handler, and then its close callback, in its own thread.\<close>

definition close_conn :: "(tcp_conn \<Rightarrow> tcp_conn res) option \<Rightarrow> nat \<Rightarrow> net \<Rightarrow> net res" where
  "close_conn cb k n = rbind (on_conn_object k HandleClose n) (RemoveConnection cb (conn_disp n k) k)"

section \<open>Runs\<close>

text \<open>
  What the operations of an open connection and its user callbacks do to its life: they keep the
  read interest and can only start the shutdown.
\<close>

definition activity :: "tcp_conn \<Rightarrow> tcp_conn \<Rightarrow> bool" where
  "activity c c' = (cares_read (conn_handler c') = cares_read (conn_handler c)
     \<and> (conn_state c' = conn_state c \<or> (conn_state c = CONNECTED \<and> conn_state c' = DISCONNECTING)))"

definition callback_ok :: "(tcp_conn \<Rightarrow> tcp_conn res) option \<Rightarrow> bool" where
  "callback_ok cb = (\<exists>f. cb = Some f \<and> (\<forall>c. \<exists>c'. f c = Inr c' \<and> activity c c'))"

text \<open>
  A close needs a readable event, and the kernel reports one only to a handler whose mask asks for it.
\<close>

inductive net_step :: "(tcp_conn \<Rightarrow> tcp_conn res) option \<Rightarrow> net \<Rightarrow> net \<Rightarrow> bool" for cb where
  new_conn: "NewConnection cb wc 0 fd n = Inr n' \<Longrightarrow> net_step cb n n'"
| task: "net_queues n i = t # ts \<Longrightarrow>
    run_net_task cb i t (n\<lparr>net_queues := (net_queues n)(i := ts)\<rparr>) = Inr n' \<Longrightarrow> net_step cb n n'"
| close: "k < num_conns n \<Longrightarrow> cares_read (conn_handler (conns n k)) \<Longrightarrow> close_conn cb k n = Inr n' \<Longrightarrow>
    net_step cb n n'"
| act: "k < num_conns n \<Longrightarrow> activity (conns n k) c \<Longrightarrow> net_step cb n (n\<lparr>conns := (conns n)(k := c)\<rparr>)"

inductive net_reach :: "(tcp_conn \<Rightarrow> tcp_conn res) option \<Rightarrow> net \<Rightarrow> net \<Rightarrow> bool" for cb where
  net_start: "net_reach cb n n"
| net_more: "net_reach cb n n1 \<Longrightarrow> net_step cb n1 n2 \<Longrightarrow> net_reach cb n n2"

definition net_init :: "string \<Rightarrow> nat \<Rightarrow> net" where
  "net_init name threads =
     \<lparr>server = \<lparr>server_name = name, srv_started = True, conn_id = 0, srv_pool = started_pool threads, connections = []\<rparr>,
      conns = (\<lambda>_. TcpConnection_new 0), conn_disp = (\<lambda>_. 0), conn_name = (\<lambda>_. []), num_conns = 0,
      net_queues = (\<lambda>_. [])\<rparr>"

section \<open>The life of a connection\<close>

text \<open>
  The five stages of a connection object: its establishment is queued; it is open; its removal is
  queued in the server; its destruction is queued in its own loop; it is dead.
\<close>

datatype stage = SEstablish | SOpen | SRemove | SDestroy | SClosed

fun task_conn :: "net_task \<Rightarrow> nat" where
  "task_conn (EstablishTask k) = k"
| "task_conn (RemoveTask k) = k"
| "task_conn (DestroyTask k) = k"

text \<open>How often a function of a connection in stage \<open>st\<close> and of dispatcher \<open>i\<close> is queued in \<open>j\<close>.\<close>

fun expected :: "stage \<Rightarrow> nat \<Rightarrow> nat \<Rightarrow> net_task \<Rightarrow> nat" where
  "expected st i j (EstablishTask k) = (if st = SEstablish \<and> j = i then 1 else 0)"
| "expected st i j (RemoveTask k) = (if st = SRemove \<and> j = 0 then 1 else 0)"
| "expected st i j (DestroyTask k) = (if st = SDestroy \<and> j = i then 1 else 0)"

fun conn_ok :: "stage \<Rightarrow> tcp_conn \<Rightarrow> bool" where
  "conn_ok SEstablish c = (conn_state c = CONNECTING \<and> \<not> cares_read (conn_handler c))"
| "conn_ok SOpen c = (conn_state c \<in> {CONNECTED, DISCONNECTING} \<and> cares_read (conn_handler c))"
| "conn_ok SRemove c = (conn_state c \<in> {CONNECTED, DISCONNECTING} \<and> \<not> cares_read (conn_handler c))"
| "conn_ok SDestroy c = (conn_state c \<in> {CONNECTED, DISCONNECTING} \<and> \<not> cares_read (conn_handler c))"
| "conn_ok SClosed c = (conn_state c = DISCONNECTED \<and> \<not> cares_read (conn_handler c))"

definition tasks_ok :: "net \<Rightarrow> nat \<Rightarrow> stage \<Rightarrow> bool" where
  "tasks_ok n k st = (\<forall>j t. task_conn t = k \<longrightarrow> count_list (net_queues n j) t = expected st (conn_disp n k) j t)"

definition in_map :: "net \<Rightarrow> nat \<Rightarrow> bool" where
  "in_map n k = (smap_get (connections (server n)) (conn_name n k) = Some k)"

definition stage_ok :: "net \<Rightarrow> nat \<Rightarrow> stage \<Rightarrow> bool" where
  "stage_ok n k st = (conn_ok st (conns n k) \<and> tasks_ok n k st
     \<and> (in_map n k \<longleftrightarrow> st \<in> {SEstablish, SOpen, SRemove})
     \<and> (\<not> in_map n k \<longrightarrow> smap_get (connections (server n)) (conn_name n k) = None)
     \<and> conn_name n k = server_name (server n) @ dec_int (int k + 1))"

definition server_inv :: "net \<Rightarrow> bool" where
  "server_inv n = (conn_id (server n) = int (num_conns n) \<and> smap_inv (connections (server n))
     \<and> (\<exists>threads. pool_inv threads (srv_pool (server n)))
     \<and> (\<forall>nm k. smap_get (connections (server n)) nm = Some k \<longrightarrow> k < num_conns n \<and> nm = conn_name n k))"

definition net_inv :: "net \<Rightarrow> bool" where
  "net_inv n = (server_inv n \<and> (\<forall>k<num_conns n. \<exists>st. stage_ok n k st)
     \<and> (\<forall>j. \<forall>t\<in>set (net_queues n j). task_conn t < num_conns n))"

text \<open>The invariant with the connection \<open>k\<close> left out, and a connection nothing is queued for.\<close>

definition others_ok :: "net \<Rightarrow> nat \<Rightarrow> bool" where
  "others_ok n k = (server_inv n \<and> (\<forall>k'<num_conns n. k' \<noteq> k \<longrightarrow> (\<exists>st. stage_ok n k' st))
     \<and> (\<forall>j. \<forall>t\<in>set (net_queues n j). task_conn t < num_conns n) \<and> k < num_conns n
     \<and> (\<not> in_map n k \<longrightarrow> smap_get (connections (server n)) (conn_name n k) = None)
     \<and> conn_name n k = server_name (server n) @ dec_int (int k + 1))"

definition no_tasks :: "net \<Rightarrow> nat \<Rightarrow> bool" where
  "no_tasks n k = (\<forall>j t. task_conn t = k \<longrightarrow> count_list (net_queues n j) t = 0)"

lemma others_ok_done: "others_ok n k \<Longrightarrow> stage_ok n k st \<Longrightarrow> net_inv n"
  unfolding net_inv_def others_ok_def by metis

lemma net_inv_others:
  assumes "net_inv n" and "k < num_conns n"
  obtains st where "stage_ok n k st" "others_ok n k"
proof -
  from assms obtain st where st: "stage_ok n k st" by (auto simp: net_inv_def)
  then have "others_ok n k" using assms by (auto simp: net_inv_def others_ok_def stage_ok_def)
  with st that show thesis by blast
qed

lemma stage_frame:
  assumes "stage_ok n k st" and "conns n' k = conns n k" and "conn_disp n' k = conn_disp n k"
    and "conn_name n' k = conn_name n k" and "server_name (server n') = server_name (server n)"
    and "smap_get (connections (server n')) (conn_name n k) = smap_get (connections (server n)) (conn_name n k)"
    and "\<And>j t. task_conn t = k \<Longrightarrow> count_list (net_queues n' j) t = count_list (net_queues n j) t"
  shows "stage_ok n' k st"
  using assms unfolding stage_ok_def tasks_ok_def in_map_def by metis

lemma others_stage: "others_ok n k \<Longrightarrow> k' < num_conns n \<Longrightarrow> k' \<noteq> k \<Longrightarrow> \<exists>st. stage_ok n k' st"
  by (simp add: others_ok_def)

lemma count_list_append [simp]: "count_list (xs @ ys) x = count_list xs x + count_list ys x"
  by (induction xs) auto

lemma dec_int_inj: "0 \<le> i \<Longrightarrow> 0 \<le> j \<Longrightarrow> dec_int i = dec_int j \<longleftrightarrow> i = j"
  by (auto simp: dec_int_def)

lemma others_names:
  assumes "others_ok n k" and "k' < num_conns n" and "k' \<noteq> k"
  shows "conn_name n k' \<noteq> conn_name n k"
proof -
  obtain st where "stage_ok n k' st" using others_stage[OF assms] by blast
  then show ?thesis using assms(1,3)
    by (simp add: stage_ok_def others_ok_def dec_int_inj)
qed

lemma queue_net_simps [simp]:
  "server (queue_net i t n) = server n" "conns (queue_net i t n) = conns n"
  "conn_disp (queue_net i t n) = conn_disp n" "conn_name (queue_net i t n) = conn_name n"
  "num_conns (queue_net i t n) = num_conns n" "in_map (queue_net i t n) k = in_map n k"
  "server_inv (queue_net i t n) = server_inv n"
  "net_queues (queue_net i t n) j = net_queues n j @ (if j = i then [t] else [])"
  by (simp_all add: queue_net_def in_map_def server_inv_def)

lemma others_okI:
  "server_inv n \<Longrightarrow> (\<And>k'. k' < num_conns n \<Longrightarrow> k' \<noteq> k \<Longrightarrow> \<exists>st. stage_ok n k' st)
    \<Longrightarrow> (\<And>j t. t \<in> set (net_queues n j) \<Longrightarrow> task_conn t < num_conns n) \<Longrightarrow> k < num_conns n
    \<Longrightarrow> in_map n k \<or> smap_get (connections (server n)) (conn_name n k) = None
    \<Longrightarrow> conn_name n k = server_name (server n) @ dec_int (int k + 1) \<Longrightarrow> others_ok n k"
  unfolding others_ok_def by blast

lemma others_queue:
  assumes "others_ok n k" and "task_conn t = k"
  shows "others_ok (queue_net i t n) k"
proof -
  have "\<exists>st. stage_ok (queue_net i t n) k' st" if k': "k' < num_conns n" "k' \<noteq> k" for k'
  proof -
    obtain st where "stage_ok n k' st" using others_stage[OF assms(1) k'] by blast
    then have "stage_ok (queue_net i t n) k' st"
      by (rule stage_frame) (use assms(2) k' in auto)
    then show ?thesis ..
  qed
  with assms show ?thesis by (auto simp: others_ok_def)
qed

text \<open>Putting a connection without queued functions into the stage that one queued function makes.\<close>

lemma queue_stage:
  assumes "others_ok n k" and "no_tasks n k" and "task_conn t = k" and "conn_ok st (conns n k)"
    and "in_map n k \<longleftrightarrow> st \<in> {SEstablish, SOpen, SRemove}"
    and "\<And>j t'. task_conn t' = k \<Longrightarrow> expected st (conn_disp n k) j t' = (if j = i \<and> t' = t then 1 else 0)"
  shows "net_inv (queue_net i t n)"
proof (rule others_ok_done[OF others_queue[OF assms(1,3), of i]])
  show "stage_ok (queue_net i t n) k st"
    using assms by (auto simp: stage_ok_def others_ok_def tasks_ok_def no_tasks_def)
qed

lemma expected_one:
  "expected SEstablish i j t = (if j = i \<and> t = EstablishTask (task_conn t) then 1 else 0)"
  "expected SRemove i j t = (if j = 0 \<and> t = RemoveTask (task_conn t) then 1 else 0)"
  "expected SDestroy i j t = (if j = i \<and> t = DestroyTask (task_conn t) then 1 else 0)"
  by (cases t; simp)+

lemma queue_establish:
  "others_ok n k \<Longrightarrow> no_tasks n k \<Longrightarrow> conn_ok SEstablish (conns n k) \<Longrightarrow> in_map n k \<Longrightarrow>
     net_inv (queue_net (conn_disp n k) (EstablishTask k) n)"
  by (rule queue_stage[of _ _ _ SEstablish]) (auto simp: expected_one)

lemma queue_remove:
  "others_ok n k \<Longrightarrow> no_tasks n k \<Longrightarrow> conn_ok SRemove (conns n k) \<Longrightarrow> in_map n k \<Longrightarrow>
     net_inv (queue_net 0 (RemoveTask k) n)"
  by (rule queue_stage[of _ _ _ SRemove]) (auto simp: expected_one)

lemma queue_destroy:
  "others_ok n k \<Longrightarrow> no_tasks n k \<Longrightarrow> conn_ok SDestroy (conns n k) \<Longrightarrow> \<not> in_map n k \<Longrightarrow>
     net_inv (queue_net (conn_disp n k) (DestroyTask k) n)"
  by (rule queue_stage[of _ _ _ SDestroy]) (auto simp: expected_one)

text \<open>A new connection record for \<open>k\<close> does not touch the others.\<close>

lemma others_update:
  assumes "others_ok n k"
  shows "others_ok (n\<lparr>conns := (conns n)(k := c)\<rparr>) k"
proof -
  let ?n = "n\<lparr>conns := (conns n)(k := c)\<rparr>"
  have "\<exists>st. stage_ok ?n k' st" if k': "k' < num_conns n" "k' \<noteq> k" for k'
  proof -
    obtain st where "stage_ok n k' st" using others_stage[OF assms k'] by blast
    then have "stage_ok ?n k' st" by (rule stage_frame) (use k' in auto)
    then show ?thesis ..
  qed
  then show ?thesis
  proof (intro others_okI)
    show "server_inv ?n" using assms by (simp add: others_ok_def server_inv_def)
    show "in_map ?n k \<or> smap_get (connections (server ?n)) (conn_name ?n k) = None"
      "conn_name ?n k = server_name (server ?n) @ dec_int (int k + 1)" "k < num_conns ?n"
      "t \<in> set (net_queues ?n j) \<Longrightarrow> task_conn t < num_conns ?n" for j t
      using assms by (auto simp: others_ok_def in_map_def)
  qed simp_all
qed

lemma no_tasks_update [simp]: "no_tasks (n\<lparr>conns := f\<rparr>) k = no_tasks n k"
  by (simp add: no_tasks_def)

lemma in_map_update [simp]: "in_map (n\<lparr>conns := f\<rparr>) k = in_map n k"
  by (simp add: in_map_def)

lemma stage_update:
  assumes "others_ok n k" and "no_tasks n k" and "conn_ok st c" and "st \<in> {SOpen, SClosed}"
    and "in_map n k \<longleftrightarrow> st = SOpen"
  shows "net_inv (n\<lparr>conns := (conns n)(k := c)\<rparr>)"
proof (rule others_ok_done[OF others_update[OF assms(1), of c]])
  have "expected st i j t = 0" for i j t using assms(4) by (cases t) auto
  then show "stage_ok (n\<lparr>conns := (conns n)(k := c)\<rparr>) k st"
    using assms by (auto simp: stage_ok_def others_ok_def tasks_ok_def no_tasks_def)
qed

lemma stop_all_not_cares [simp]: "\<not> cares_read (set_stop_care_all h)"
  by (simp add: cares_read_def interest_defs) (simp add: kNone_def kRead_def)

lemma removed_cares [simp]: "cares_read (RemoveEventHandler h) = cares_read h"
  by (simp add: cares_read_def RemoveEventHandler_def UpdataOneEventHandler_def DeleteEvent_def ctl_request_def)

lemma establish_ok:
  assumes "others_ok n k" and "no_tasks n k" and "conn_ok SEstablish (conns n k)" and "in_map n k"
    and "callback_ok cb"
  shows "\<exists>n'. run_net_task cb (conn_disp n k) (EstablishTask k) n = Inr n' \<and> net_inv n'"
proof -
  let ?c = "on_handler set_care_read ((conns n k)\<lparr>conn_state := CONNECTED\<rparr>)"
  obtain f c' where f: "cb = Some f" "f ?c = Inr c'" "activity ?c c'"
    using assms(5) unfolding callback_ok_def by blast
  have "run_net_task cb (conn_disp n k) (EstablishTask k) n = Inr (n\<lparr>conns := (conns n)(k := c')\<rparr>)"
    using assms(3) f(1,2) by (simp add: on_conn_object_def set_connection_established_def user_call_def)
  moreover have "conn_ok SOpen c'" using f(3) by (auto simp: activity_def on_handler_def)
  ultimately show ?thesis using stage_update[OF assms(1,2)] assms(4) by auto
qed

lemma destroy_ok:
  assumes "others_ok n k" and "no_tasks n k" and "conn_ok SDestroy (conns n k)" and "\<not> in_map n k"
    and "callback_ok cb"
  shows "\<exists>n'. run_net_task cb (conn_disp n k) (DestroyTask k) n = Inr n' \<and> net_inv n'"
proof -
  let ?c = "on_handler set_stop_care_all ((conns n k)\<lparr>conn_state := DISCONNECTED\<rparr>)"
  obtain f c' where f: "cb = Some f" "f ?c = Inr c'" "activity ?c c'"
    using assms(5) unfolding callback_ok_def by blast
  have "run_net_task cb (conn_disp n k) (DestroyTask k) n
      = Inr (n\<lparr>conns := (conns n)(k := on_handler RemoveEventHandler c')\<rparr>)"
    using assms(3) f(1,2) by (auto simp: on_conn_object_def set_connection_destroyed_def user_call_def)
  moreover have "conn_ok SClosed (on_handler RemoveEventHandler c')"
    using f(3) by (simp add: activity_def)
  ultimately show ?thesis using stage_update[OF assms(1,2)] assms(4) by auto
qed

lemma remove_ok:
  assumes o: "others_ok n k" and "no_tasks n k" and "conn_ok SRemove (conns n k)" and m: "in_map n k"
  shows "\<exists>n'. RemoveConnectionInLoop 0 k n = Inr n' \<and> net_inv n'"
proof -
  let ?m = "fst (smap_erase (conn_name n k) (connections (server n)))"
  let ?n = "n\<lparr>server := (server n)\<lparr>connections := ?m\<rparr>\<rparr>"
  have inv: "smap_inv (connections (server n))" using o by (simp add: others_ok_def server_inv_def)
  then have ret: "snd (smap_erase (conn_name n k) (connections (server n))) = 1"
    using m smap_erase_count[of "connections (server n)" "conn_name n k"]
    by (simp add: smap_erase_def smap_inv_def in_map_def smap_get_def)
  have get: "smap_get ?m x = (if x = conn_name n k then None else smap_get (connections (server n)) x)" for x
    by (simp add: smap_erase_def smap_get_def map_of_filter_neq)
  have si: "server_inv ?n"
    using o smap_erase_inv[OF inv] get by (auto simp: others_ok_def server_inv_def)
  have "\<exists>st. stage_ok ?n k' st" if k': "k' < num_conns n" "k' \<noteq> k" for k'
  proof -
    obtain st where st: "stage_ok n k' st" using others_stage[OF o k'] by blast
    have "conn_name n k' \<noteq> conn_name n k" using others_names[OF o k'] .
    with st have "stage_ok ?n k' st" by (intro stage_frame[OF st]) (simp_all add: get)
    then show ?thesis ..
  qed
  then have "others_ok ?n k"
  proof (intro others_okI[OF si])
    show "in_map ?n k \<or> smap_get (connections (server ?n)) (conn_name ?n k) = None" using get by simp
    show "conn_name ?n k = server_name (server ?n) @ dec_int (int k + 1)" "k < num_conns ?n"
      using o by (simp_all add: others_ok_def)
    show "t \<in> set (net_queues ?n j) \<Longrightarrow> task_conn t < num_conns ?n" for j t
      using o by (auto simp: others_ok_def)
  qed simp_all
  moreover have "no_tasks ?n k" "conn_ok SDestroy (conns ?n k)" "\<not> in_map ?n k"
    using assms get by (simp_all add: no_tasks_def in_map_def)
  ultimately have "net_inv (queue_net (conn_disp ?n k) (DestroyTask k) ?n)" by (rule queue_destroy)
  moreover have "RemoveConnectionInLoop 0 k n = Inr (queue_net (conn_disp ?n k) (DestroyTask k) ?n)"
    using ret by (simp add: RemoveConnectionInLoop_def AssertInLoopThread_def case_prod_unfold)
  ultimately show ?thesis by blast
qed

text \<open>A queued function is the only one that waits for its connection; without it nothing does.\<close>

lemma queued_once:
  assumes st: "stage_ok n k st" and q: "net_queues n i = t # ts" and k: "task_conn t = k"
  shows "expected st (conn_disp n k) i t = 1" and "no_tasks (n\<lparr>net_queues := (net_queues n)(i := ts)\<rparr>) k"
proof -
  have cnt: "task_conn t' = k \<Longrightarrow> count_list (net_queues n j) t' = expected st (conn_disp n k) j t'" for j t'
    using st by (simp add: stage_ok_def tasks_ok_def)
  have e1: "expected st (conn_disp n k) i t = Suc (count_list ts t)" using cnt[of t i] q k by simp
  have "expected st (conn_disp n k) j t' \<le> 1" for j t' by (cases t') auto
  with e1 show et: "expected st (conn_disp n k) i t = 1" by (metis One_nat_def Suc_le_mono le_zero_eq)
  have only: "expected st (conn_disp n k) j t' = 0" if "task_conn t' = k" "(j, t') \<noteq> (i, t)" for j t'
    using that k et by (cases t; cases t') (auto split: if_splits)
  show "no_tasks (n\<lparr>net_queues := (net_queues n)(i := ts)\<rparr>) k"
    unfolding no_tasks_def
  proof (intro allI impI)
    fix j t' assume t': "task_conn t' = k"
    show "count_list (net_queues (n\<lparr>net_queues := (net_queues n)(i := ts)\<rparr>) j) t' = 0"
      using cnt[OF t', of j] only[OF t', of j] e1 et q by (cases "(j, t') = (i, t)") (auto split: if_splits)
  qed
qed

lemma pop_others:
  assumes o: "others_ok n k" and q: "net_queues n i = t # ts" and k: "task_conn t = k"
  shows "others_ok (n\<lparr>net_queues := (net_queues n)(i := ts)\<rparr>) k"
proof -
  let ?n = "n\<lparr>net_queues := (net_queues n)(i := ts)\<rparr>"
  note d = o[unfolded others_ok_def]
  have basics: "in_map ?n k = in_map n k" "server_inv ?n = server_inv n" by (simp_all add: in_map_def server_inv_def)
  show ?thesis
  proof (rule others_okI)
    show "in_map ?n k \<or> smap_get (connections (server ?n)) (conn_name ?n k) = None" using d unfolding basics by auto
    show "server_inv ?n" "conn_name ?n k = server_name (server ?n) @ dec_int (int k + 1)" "k < num_conns ?n"
      using d unfolding basics by simp_all
    show "task_conn u < num_conns ?n" if u: "u \<in> set (net_queues ?n j)" for j u
    proof -
      have "u \<in> set (net_queues n j)" using u q by (cases "j = i") simp_all
      then show ?thesis using d by auto
    qed
    show "\<exists>st. stage_ok ?n k' st" if k': "k' < num_conns ?n" "k' \<noteq> k" for k'
    proof -
      obtain st' where "stage_ok n k' st'" using others_stage[OF o, of k'] k' by auto
      then have "stage_ok ?n k' st'" by (rule stage_frame) (use k' k q in auto)
      then show ?thesis ..
    qed
  qed
qed

lemma pop_task:
  assumes inv: "net_inv n" and q: "net_queues n i = t # ts" and k: "task_conn t = k"
  defines "n1 \<equiv> n\<lparr>net_queues := (net_queues n)(i := ts)\<rparr>"
  shows "others_ok n1 k" and "no_tasks n1 k"
    and "\<exists>st. conn_ok st (conns n1 k) \<and> (in_map n1 k \<longleftrightarrow> st \<in> {SEstablish, SOpen, SRemove})
      \<and> expected st (conn_disp n1 k) i t = 1"
proof -
  have kn: "k < num_conns n" using inv q k by (auto simp: net_inv_def dest: spec[of _ i])
  from net_inv_others[OF inv kn] obtain st where st: "stage_ok n k st" "others_ok n k" .
  show "others_ok n1 k" "no_tasks n1 k" unfolding n1_def using pop_others[OF st(2) q k] queued_once(2)[OF st(1) q k] by blast+
  have "in_map n1 k = in_map n k" by (simp add: in_map_def n1_def)
  then show "\<exists>st. conn_ok st (conns n1 k) \<and> (in_map n1 k \<longleftrightarrow> st \<in> {SEstablish, SOpen, SRemove})
      \<and> expected st (conn_disp n1 k) i t = 1"
    using st(1) queued_once(1)[OF st(1) q k] by (intro exI[of _ st]) (auto simp: stage_ok_def n1_def)
qed

lemma task_ok:
  assumes "net_inv n" and "net_queues n i = t # ts" and "callback_ok cb"
  shows "\<exists>n'. run_net_task cb i t (n\<lparr>net_queues := (net_queues n)(i := ts)\<rparr>) = Inr n' \<and> net_inv n'"
proof -
  let ?n = "n\<lparr>net_queues := (net_queues n)(i := ts)\<rparr>"
  note p = pop_task[OF assms(1,2) refl]
  from p(3) obtain st where st: "conn_ok st (conns ?n (task_conn t))"
    "in_map ?n (task_conn t) \<longleftrightarrow> st \<in> {SEstablish, SOpen, SRemove}"
    "expected st (conn_disp ?n (task_conn t)) i t = 1" by blast
  show ?thesis
  proof (cases t)
    case (EstablishTask k)
    then have "st = SEstablish" "i = conn_disp ?n k" using st(3) by (auto split: if_splits)
    then show ?thesis using establish_ok[OF p(1,2) _ _ assms(3)] st(1,2) EstablishTask by simp
  next
    case (RemoveTask k)
    then have "st = SRemove" "i = 0" using st(3) by (auto split: if_splits)
    then show ?thesis using remove_ok[OF p(1,2)] st(1,2) RemoveTask by simp
  next
    case (DestroyTask k)
    then have "st = SDestroy" "i = conn_disp ?n k" using st(3) by (auto split: if_splits)
    then show ?thesis using destroy_ok[OF p(1,2) _ _ assms(3)] st(1,2) DestroyTask by simp
  qed
qed

lemma close_ok:
  assumes "net_inv n" and "k < num_conns n" and "cares_read (conn_handler (conns n k))"
  shows "\<exists>n'. close_conn cb k n = Inr n' \<and> net_inv n'"
proof -
  from net_inv_others[OF assms(1,2)] obtain st where st: "stage_ok n k st" "others_ok n k" .
  then have so: "st = SOpen" using assms(3) by (cases st) (auto simp: stage_ok_def)
  let ?c = "on_handler set_stop_care_all (conns n k)"
  let ?c2 = "?c\<lparr>conn_calls := conn_calls ?c @ [CbClose]\<rparr>"
  let ?n = "n\<lparr>conns := (conns n)(k := ?c2)\<rparr>"
  have h: "on_conn_object k HandleClose n = Inr ?n"
    using st(1) so by (auto simp: on_conn_object_def HandleClose_def stage_ok_def Let_def)
  have o: "others_ok ?n k" by (rule others_update[OF st(2)])
  have nt: "no_tasks ?n k"
  proof -
    have "expected SOpen i j t = 0" for i j t by (cases t) auto
    then show ?thesis using st(1) so by (simp add: stage_ok_def tasks_ok_def no_tasks_def)
  qed
  have ok: "conn_ok SRemove (conns ?n k)" "in_map ?n k"
    using st(1) so by (auto simp: stage_ok_def)
  show ?thesis
  proof (cases "conn_disp n k = 0")
    case True
    then show ?thesis using remove_ok[OF o nt ok] h
      by (simp add: close_conn_def RemoveConnection_def run_in_loop_def)
  next
    case False
    then show ?thesis using queue_remove[OF o nt ok] h
      by (simp add: close_conn_def RemoveConnection_def run_in_loop_def)
  qed
qed

lemma stage_update_conn:
  "stage_ok (n\<lparr>conns := (conns n)(k := c)\<rparr>) k st \<longleftrightarrow> conn_ok st c \<and> tasks_ok n k st
     \<and> (in_map n k \<longleftrightarrow> st \<in> {SEstablish, SOpen, SRemove})
     \<and> (\<not> in_map n k \<longrightarrow> smap_get (connections (server n)) (conn_name n k) = None)
     \<and> conn_name n k = server_name (server n) @ dec_int (int k + 1)"
  by (simp add: stage_ok_def tasks_ok_def)

lemma act_ok:
  assumes "net_inv n" and "k < num_conns n" and "activity (conns n k) c"
  shows "net_inv (n\<lparr>conns := (conns n)(k := c)\<rparr>)"
proof -
  from net_inv_others[OF assms(1,2)] obtain st where st: "stage_ok n k st" "others_ok n k" .
  have "conn_ok st c" using st(1) assms(3) by (cases st) (auto simp: stage_ok_def activity_def)
  then have "stage_ok (n\<lparr>conns := (conns n)(k := c)\<rparr>) k st"
    unfolding stage_update_conn using st(1)[unfolded stage_ok_def] by blast
  with others_update[OF st(2)] show ?thesis by (rule others_ok_done)
qed

text \<open>The state of the server once it knows a new connection, whose establishment is not handed over yet.\<close>

definition new_name :: "net \<Rightarrow> string" where
  "new_name n = server_name (server n) @ dec_int (conn_id (server n) + 1)"

definition registered :: "nat \<Rightarrow> dispatcher_pool \<Rightarrow> tcp_conn \<Rightarrow> net \<Rightarrow> net" where
  "registered io p c n = n\<lparr>server := (server n)\<lparr>conn_id := conn_id (server n) + 1, srv_pool := p,
        connections := smap_insert (new_name n) (num_conns n) (connections (server n))\<rparr>,
      conns := (conns n)(num_conns n := c), conn_disp := (conn_disp n)(num_conns n := io),
      conn_name := (conn_name n)(num_conns n := new_name n), num_conns := Suc (num_conns n)\<rparr>"

lemma registered_simps [simp]:
  "conn_id (server (registered io p c n)) = conn_id (server n) + 1" "srv_pool (server (registered io p c n)) = p"
  "server_name (server (registered io p c n)) = server_name (server n)"
  "connections (server (registered io p c n)) = smap_insert (new_name n) (num_conns n) (connections (server n))"
  "conns (registered io p c n) = (conns n)(num_conns n := c)" "conn_disp (registered io p c n) = (conn_disp n)(num_conns n := io)"
  "conn_name (registered io p c n) = (conn_name n)(num_conns n := new_name n)"
  "num_conns (registered io p c n) = Suc (num_conns n)" "net_queues (registered io p c n) = net_queues n"
  by (simp_all add: registered_def)

lemma old_names:
  assumes "net_inv n" and "k < num_conns n"
  shows "conn_name n k \<noteq> new_name n"
proof -
  have "conn_id (server n) = int (num_conns n)" using assms(1) by (simp add: net_inv_def server_inv_def)
  moreover have "conn_name n k = server_name (server n) @ dec_int (int k + 1)" using assms by (auto simp: net_inv_def stage_ok_def)
  ultimately show ?thesis using assms(2) by (simp add: new_name_def dec_int_inj)
qed

lemma registered_get:
  assumes "net_inv n"
  shows "smap_get (connections (server (registered io p c n))) nm
    = (if nm = new_name n then Some (num_conns n) else smap_get (connections (server n)) nm)"
proof -
  have s: "server_inv n" using assms by (simp add: net_inv_def)
  have "smap_get (connections (server n)) (new_name n) \<noteq> Some k" for k
    using s old_names[OF assms, of k] unfolding server_inv_def by metis
  then have "smap_get (connections (server n)) (new_name n) = None" by (cases "smap_get (connections (server n)) (new_name n)") auto
  moreover have "smap_inv (connections (server n))" using s by (simp add: server_inv_def)
  ultimately show ?thesis by (simp add: smap_insert_def smap.look_put)
qed

lemma registered_server_inv:
  assumes inv: "net_inv n" and "pool_inv th p"
  shows "server_inv (registered io p c n)"
proof -
  have s: "server_inv n" using inv by (simp add: net_inv_def)
  have "k < Suc (num_conns n) \<and> nm = conn_name (registered io p c n) k"
    if "smap_get (connections (server (registered io p c n))) nm = Some k" for nm k
  proof (cases "nm = new_name n")
    case False
    then have "smap_get (connections (server n)) nm = Some k" using that registered_get[OF inv, of io p c nm] by simp
    then have "k < num_conns n" "nm = conn_name n k" using s unfolding server_inv_def by blast+
    then show ?thesis by simp
  qed (use that registered_get[OF inv, of io p c nm] in simp)
  moreover have "smap_inv (smap_insert (new_name n) (num_conns n) (connections (server n)))"
    using s smap.put_inv[of "connections (server n)"] by (simp add: smap_insert_def server_inv_def)
  ultimately show ?thesis using s assms(2) by (auto simp: server_inv_def)
qed

lemma registered_others:
  assumes inv: "net_inv n" and "pool_inv th p"
  shows "others_ok (registered io p c n) (num_conns n)" and "no_tasks (registered io p c n) (num_conns n)"
proof -
  let ?n = "registered io p c n" and ?k = "num_conns n"
  have bound: "t \<in> set (net_queues n j) \<Longrightarrow> task_conn t < ?k" for j t using inv by (simp add: net_inv_def)
  have "t \<notin> set (net_queues n j)" if "task_conn t = ?k" for j t using bound[of t j] that by auto
  then show "no_tasks ?n ?k" by (simp add: no_tasks_def count_list_0_iff)
  show "others_ok ?n ?k"
  proof (rule others_okI[OF registered_server_inv[OF assms]])
    have "conn_id (server n) = int ?k" using inv by (simp add: net_inv_def server_inv_def)
    then show "conn_name ?n ?k = server_name (server ?n) @ dec_int (int ?k + 1)" by (simp add: new_name_def)
    show "in_map ?n ?k \<or> smap_get (connections (server ?n)) (conn_name ?n ?k) = None"
      using registered_get[OF inv, of io p c "new_name n"] by (simp add: in_map_def)
    show "t \<in> set (net_queues ?n j) \<Longrightarrow> task_conn t < num_conns ?n" for j t using less_SucI[OF bound] by simp
    show "\<exists>st. stage_ok ?n k' st" if k': "k' < num_conns ?n" "k' \<noteq> ?k" for k'
    proof -
      have "k' < ?k" using k' by simp
      then obtain st where st: "stage_ok n k' st" using inv by (auto simp: net_inv_def)
      from old_names[OF inv \<open>k' < ?k\<close>] registered_get[OF inv, of io p c "conn_name n k'"]
      have "stage_ok ?n k' st" by (intro stage_frame[OF st]) (use k' in auto)
      then show ?thesis ..
    qed
  qed simp
qed

lemma new_conn_ok:
  assumes inv: "net_inv n" and lim: "conn_id (server n) < 2 ^ 31 - 1" and cb: "callback_ok cb"
  shows "\<exists>n'. NewConnection cb wc 0 fd n = Inr n' \<and> net_inv n'"
proof -
  let ?k = "num_conns n" and ?c = "set_write_complete_callback wc (TcpConnection_new fd)"
  obtain th where "pool_inv th (srv_pool (server n))" using inv by (auto simp: net_inv_def server_inv_def)
  then obtain io p where io: "get_next_dispatcher True (srv_pool (server n)) = Inr (io, p)" "pool_inv th p"
    using get_next_ok by blast
  let ?n = "registered io p ?c n"
  have run: "NewConnection cb wc 0 fd n = run_in_loop cb 0 io (EstablishTask ?k) ?n"
    using lim io(1) by (simp add: NewConnection_def AssertInLoopThread_def Let_def registered_def new_name_def)
  note o = registered_others[OF inv io(2), of io ?c]
  have new: "conn_ok SEstablish (conns ?n ?k)" "in_map ?n ?k" "conn_disp ?n ?k = io"
    using registered_get[OF inv, of io p ?c "new_name n"]
    by (simp_all add: set_write_complete_callback_def TcpConnection_new_def cares_read_def new_handler_def
        RegisterEventHandler_def UpdataOneEventHandler_def AddEvent_def ctl_request_def kRead_def in_map_def)
  show ?thesis
  proof (cases "io = 0")
    case True
    with establish_ok[OF o new(1,2) cb] run new(3) show ?thesis by (simp add: run_in_loop_def del: run_net_task.simps)
  next
    case False
    then show ?thesis using queue_establish[OF o new(1,2)] run by (simp add: run_in_loop_def)
  qed
qed

lemma net_init_inv: "net_inv (net_init name threads)"
  using started_pool_inv[of threads]
  by (auto simp: net_inv_def net_init_def server_inv_def smap_inv_def smap_get_def)

lemma net_step_inv: "net_step cb n n' \<Longrightarrow> net_inv n \<Longrightarrow> callback_ok cb \<Longrightarrow> net_inv n'"
proof (induction rule: net_step.induct)
  case (new_conn wc fd n n')
  have "conn_id (server n) < 2 ^ 31 - 1"
    using new_conn(1) by (auto simp: NewConnection_def AssertInLoopThread_def split: if_splits)
  from new_conn_ok[OF new_conn(2) this new_conn(3), of wc fd] new_conn(1) show ?case by auto
next
  case (task n i t ts n')
  then show ?case using task_ok[OF task(3,1,4)] by auto
next
  case (close k n n')
  then show ?case using close_ok[OF close(4,1,2), of cb] by auto
next
  case (act k n c)
  then show ?case using act_ok by blast
qed

lemma net_reach_inv: "net_reach cb n n' \<Longrightarrow> net_inv n \<Longrightarrow> callback_ok cb \<Longrightarrow> net_inv n'"
  by (induction rule: net_reach.induct) (auto intro: net_step_inv)

section \<open>No assertion fails, and the map is exact\<close>

text \<open>
  Claim C13. The life of connections across threads: in every interleaving of accepts, queued
  functions of any number of I/O threads, closes by peers and activity of connections, no assertion
  of the server or of a connection fails. In particular \<^verbatim>\<open>erase\<close> always removes exactly one
  connection, a connection is established and destroyed at most once, in its own thread, and only
  closed while it is connected.
\<close>

theorem lifecycle_never_fails:
  assumes "net_reach cb (net_init name threads) n" and "callback_ok cb"
  shows "(conn_id (server n) < 2 ^ 31 - 1 \<longrightarrow> (\<exists>n'. NewConnection cb wc 0 fd n = Inr n'))
     \<and> (\<forall>i t ts. net_queues n i = t # ts \<longrightarrow>
          (\<exists>n'. run_net_task cb i t (n\<lparr>net_queues := (net_queues n)(i := ts)\<rparr>) = Inr n'))
     \<and> (\<forall>k<num_conns n. cares_read (conn_handler (conns n k)) \<longrightarrow> (\<exists>n'. close_conn cb k n = Inr n'))"
proof -
  have inv: "net_inv n" using net_reach_inv[OF assms(1) net_init_inv assms(2)] .
  show ?thesis
    using new_conn_ok[OF inv _ assms(2)] task_ok[OF inv _ assms(2)] close_ok[OF inv] by blast
qed

text \<open>A run with two I/O threads: one accepted connection whose establishment is queued.\<close>

lemma demo_net:
  "\<exists>n. net_reach cb (net_init ''s'' 2) n \<and> num_conns n = 1 \<and> net_queues n 1 = [EstablishTask 0]
     \<and> conn_state (conns n 0) = CONNECTING"
proof -
  have g: "get_next_dispatcher True (started_pool 2) = Inr (1, (started_pool 2)\<lparr>next_index := 1\<rparr>)"
    by (simp add: get_next_dispatcher_def AssertInLoopThread_def started_pool_def upt_rec_numeral)
  then obtain n where n: "NewConnection cb False 0 7 (net_init ''s'' 2) = Inr n" "num_conns n = 1"
    "net_queues n 1 = [EstablishTask 0]" "conn_state (conns n 0) = CONNECTING"
    by (simp add: NewConnection_def AssertInLoopThread_def net_init_def Let_def run_in_loop_def
        queue_net_def set_write_complete_callback_def TcpConnection_new_def)
  have "net_reach cb (net_init ''s'' 2) n"
    by (rule net_reach.net_more[OF net_reach.net_start net_step.new_conn[OF n(1)]])
  with n show ?thesis by blast
qed

lemma callback_Inr: "callback_ok (Some Inr)"
  by (simp add: callback_ok_def activity_def)

theorem lifecycle_never_fails_witness:
  "\<exists>(n :: net) n'. num_conns n = 1 \<and> net_queues n 1 = [EstablishTask 0]
     \<and> run_net_task (Some Inr) 1 (EstablishTask 0) (n\<lparr>net_queues := (net_queues n)(1 := [])\<rparr>) = Inr n'"
proof -
  obtain n where n: "net_reach (Some Inr) (net_init ''s'' 2) n" "num_conns n = 1" "net_queues n 1 = [EstablishTask 0]"
    using demo_net by blast
  with lifecycle_never_fails[OF n(1) callback_Inr] show ?thesis by blast
qed



section \<open>What counts as activity\<close>

text \<open>The operations of an open connection are activity in the sense of the step relation.\<close>

lemma activity_refl [simp]: "activity c c"
  by (simp add: activity_def)

lemma ShutDown_activity: "ShutDown True c = Inr c' \<Longrightarrow> activity c c'"
  by (auto simp: ShutDown_def ShutDownInLoop_def activity_def Let_def split: if_splits)

lemma buffer_rest_activity: "buffer_rest d c = Inr c' \<Longrightarrow> activity c c'"
  by (auto simp: buffer_rest_def rbind_Inr_iff activity_def Let_def split: if_splits)

lemma direct_write_same: "direct_write wr d c = (k, c') \<Longrightarrow>
    conn_handler c' = conn_handler c \<and> conn_state c' = conn_state c"
  by (auto simp: direct_write_def Let_def split: sum.splits if_splits)

lemma SendInLoop_activity:
  assumes "SendInLoop True wr d c = Inr c'"
  shows "activity c c'"
proof -
  obtain k c1 where k: "(if \<not> is_care_write (conn_handler c) \<and> payload_size (output_buf c) = 0
      then direct_write wr d c else (0, c)) = (k, c1)" by fastforce
  then have s: "conn_handler c1 = conn_handler c" "conn_state c1 = conn_state c"
    using direct_write_same[of wr d c k c1] by (auto split: if_splits)
  have "activity c1 c'"
    using assms buffer_rest_activity[of "drop k d" c1] unfolding SendInLoop_def k
    by (auto simp: Let_def split: if_splits)
  then show ?thesis using s by (simp add: activity_def)
qed

lemma HandleWrite_activity: "HandleWrite wr c = Inr c' \<Longrightarrow> activity c c'"
  by (auto simp: HandleWrite_def ShutDownInLoop_def rbind_Inr_iff activity_def Let_def
      split: if_splits sum.splits)

end
