(* ===== verification/HttpSystem.thy ===== *)
theory HttpSystem
  imports HttpServer TcpServer
begin

text \<open>
  The whole HTTP server: \<open>TcpServer\<close> accepts and removes connections in many threads, and every open
  connection runs the handlers of \<open>TcpConnection\<close> with the callbacks of \<open>HttpServer\<close>. The theory
  composes the two models and shows that what a client receives depends on its own bytes only.
\<close>

section \<open>What one client sees\<close>

text \<open>
  The state of a dialogue: the parser's context, the bytes that were not parsed yet, and whether the
  server still sends. \<open>react\<close> says what one chunk of input, delivered by one readable event, leads to; None
  is a chunk on which the parser does not return.
\<close>

type_synonym dialogue = "http_context \<times> string \<times> bool"

definition dialogue_init :: dialogue where
  "dialogue_init = (context_init, [], True)"

definition after_parse :: "http_callback \<Rightarrow> bool \<Rightarrow> bool \<times> http_context \<times> string \<Rightarrow> string \<times> dialogue" where
  "after_parse cb sending = (\<lambda>(ok, ctx, rest).
     let out = (if ok \<or> \<not> sending then [] else bad_request_text); sending' = (sending \<and> ok);
         req = ctx_request ctx; resp = cb req (response_init (wants_close req))
     in if is_done ctx
        then (out @ (if sending' then response_text resp else []),
              Reset ctx, rest, sending' \<and> \<not> resp_close resp)
        else (out, ctx, rest, sending'))"

definition react :: "http_callback \<Rightarrow> string \<Rightarrow> dialogue \<Rightarrow> (string \<times> dialogue) option" where
  "react cb chunk = (\<lambda>(ctx, inp, sending). map_option (after_parse cb sending) (request_spec ctx (inp @ chunk)))"

fun replay :: "http_callback \<Rightarrow> string list \<Rightarrow> string \<Rightarrow> dialogue \<Rightarrow> (string \<times> dialogue) option" where
  "replay cb [] out d = Some (out, d)"
| "replay cb (chunk # chunks) out d =
     (case react cb chunk d of None \<Rightarrow> None | Some (new, d') \<Rightarrow> replay cb chunks (out @ new) d')"

lemma replay_snoc:
  "replay cb (chunks @ [chunk]) out d =
     (case replay cb chunks out d of None \<Rightarrow> None
      | Some (out', d') \<Rightarrow> map_option (\<lambda>(new, d''). (out' @ new, d'')) (react cb chunk d'))"
  by (induction chunks arbitrary: out d) (auto split: option.splits)

text \<open>The connection is in the middle of the dialogue \<open>d\<close>.\<close>

definition talks :: "tcp_conn \<Rightarrow> dialogue \<Rightarrow> bool" where
  "talks c = (\<lambda>(ctx, inp, sending). conn_inv c \<and> conn_context c = Some ctx \<and> payload (input_buf c) = inp
     \<and> sending = (conn_state c = CONNECTED))"

definition small_bodies :: "http_callback \<Rightarrow> bool" where
  "small_bodies cb = (\<forall>req close. length (resp_body (cb req (response_init close))) < 10 ^ 13)"

text \<open>The reply of \<^verbatim>\<open>OnMessage\<close> to a request line it cannot parse.\<close>

lemma reject_spec:
  assumes "conn_inv c" and "kernel_ok wr"
  shows "\<exists>c'. rbind (Send True wr obj bad_request_text c) (ShutDown True) = Inr c' \<and> conn_inv c'
     \<and> outgoing c' = outgoing c @ (if conn_state c = CONNECTED then bad_request_text else [])
     \<and> conn_state c' = (if conn_state c = CONNECTED then DISCONNECTING else conn_state c)
     \<and> input_buf c' = input_buf c \<and> conn_context c' = conn_context c"
proof (cases "conn_state c = CONNECTED")
  case True
  then have "\<not> fin c" using assms(1) by (auto simp: conn_inv_def)
  from SendInLoop_spec[OF assms(1) this assms(2), of bad_request_text] obtain c1 where
    c1: "SendInLoop True wr bad_request_text c = Inr c1" "conn_inv c1" "outgoing c1 = outgoing c @ bad_request_text"
    "conn_state c1 = conn_state c" "input_buf c1 = input_buf c" "conn_context c1 = conn_context c" by blast
  from ShutDown_spec[OF c1(2)] obtain c2 where "ShutDown True c1 = Inr c2" "conn_inv c2"
    "outgoing c2 = outgoing c1" "conn_state c2 = DISCONNECTING" "input_buf c2 = input_buf c1"
    "conn_context c2 = conn_context c1" using c1(4) True by auto
  with c1 True show ?thesis by (simp add: Send_def)
next
  case False
  then show ?thesis using assms(1) by (simp add: Send_def ShutDown_def)
qed

lemma OnRequest_spec:
  assumes "conn_inv c" and "kernel_ok wr" and "small_bodies cb"
    and "resp = cb req (response_init (wants_close req))"
  shows "\<exists>c'. OnRequest True wr obj cb req c = Inr c' \<and> conn_inv c'
     \<and> outgoing c' = outgoing c @ (if conn_state c = CONNECTED then response_text resp else [])
     \<and> input_buf c' = input_buf c
     \<and> conn_state c' = (if conn_state c = CONNECTED \<and> resp_close resp then DISCONNECTING else conn_state c)"
proof -
  have len: "length (resp_body resp) < 10 ^ 13" using assms(3,4) by (simp add: small_bodies_def)
  show ?thesis
  proof (cases "conn_state c = CONNECTED")
    case True
    from OnRequest_connected[of c wr resp cb req obj, OF assms(1,2) True assms(4) len] True show ?thesis by auto
  next
    case False
    with OnRequest_closing[OF False, of cb req wr obj] len assms(1,4) show ?thesis by simp
  qed
qed

lemma OnMessage_reacts:
  assumes talks: "talks c (ctx, inp @ chunk, sending)" and ok: "kernel_ok wr" and small: "small_bodies cb"
  shows "case react cb chunk (ctx, inp, sending) of
      None \<Rightarrow> OnMessage True wr obj cb c = None
    | Some (new, d') \<Rightarrow> \<exists>c'. OnMessage True wr obj cb c = Some (Inr c') \<and> talks c' d'
        \<and> outgoing c' = outgoing c @ new"
proof -
  have inv: "conn_inv c" and ctx: "conn_context c = Some ctx" and inp: "payload (input_buf c) = inp @ chunk"
    and sending: "sending = (conn_state c = CONNECTED)" using talks by (simp_all add: talks_def)
  have b: "buf_inv (input_buf c)" using inv by (simp add: conn_inv_def)
  show ?thesis
  proof (cases "request_spec ctx (inp @ chunk)")
    case None
    then show ?thesis using ParseRequest_cases[OF b, of ctx] inp ctx by (simp add: react_def OnMessage_def)
  next
    case (Some r)
    obtain okp ctx' rest where r: "r = (okp, ctx', rest)" by (cases r) auto
    obtain b' where p: "ParseRequest ctx (input_buf c) = Some (Inr (okp, ctx', b'))" "buf_inv b'" "payload b' = rest"
      using ParseRequest_cases[OF b, of ctx] Some r inp by auto
    let ?c1 = "c\<lparr>conn_context := Some ctx', input_buf := b'\<rparr>"
    have i1: "conn_inv ?c1" "outgoing ?c1 = outgoing c" using inv p(2) by (simp_all add: conn_inv_def outgoing_def)
    define out where "out = (if okp \<or> \<not> sending then [] else bad_request_text)"
    obtain c2 where c2: "(if okp then Inr ?c1 else rbind (Send True wr obj bad_request_text ?c1) (ShutDown True)) = Inr c2"
      "conn_inv c2" "outgoing c2 = outgoing c @ out" "input_buf c2 = b'" "conn_context c2 = Some ctx'"
      "(conn_state c2 = CONNECTED) = (sending \<and> okp)"
      using reject_spec[OF i1(1) ok, of obj] i1 sending by (cases okp) (auto simp: out_def)
    have run: "OnMessage True wr obj cb c = Some (if is_done ctx'
        then rbind (OnRequest True wr obj cb (ctx_request ctx') c2) (\<lambda>c3. Inr (c3\<lparr>conn_context := Some (Reset ctx')\<rparr>))
        else Inr c2)"
      using p(1) ctx c2(1) by (simp add: OnMessage_def Let_def)
    have react: "react cb chunk (ctx, inp, sending) = Some (after_parse cb sending (okp, ctx', rest))"
      using Some r by (simp add: react_def)
    show ?thesis
    proof (cases "is_done ctx'")
      case True
      let ?req = "ctx_request ctx'"
      define resp where "resp = cb ?req (response_init (wants_close ?req))"
      from OnRequest_spec[OF c2(2) ok small resp_def, of obj] obtain c3 where
        c3: "OnRequest True wr obj cb ?req c2 = Inr c3" "conn_inv c3"
        "outgoing c3 = outgoing c2 @ (if conn_state c2 = CONNECTED then response_text resp else [])"
        "input_buf c3 = input_buf c2"
        "conn_state c3 = (if conn_state c2 = CONNECTED \<and> resp_close resp then DISCONNECTING else conn_state c2)" by blast
      show ?thesis
        unfolding run react after_parse_def using True c3 c2 p(3)
        by (simp add: Let_def talks_def out_def resp_def)
    next
      case False
      then show ?thesis
        unfolding run react after_parse_def using c2 p(3) by (simp add: Let_def talks_def out_def)
    qed
  qed
qed

section \<open>The composed system\<close>

text \<open>
  The state of the server, with the chunks of input that each connection has received. A
  message step is a readable event that delivers bytes to an open connection, whose callback is
  \<^verbatim>\<open>HttpServer::OnMessage\<close>; a chunk on which the parser does not return has no step.
\<close>

record http_sys =
  sys_net :: net
  chunks :: "nat \<Rightarrow> string list"

definition set_conn :: "nat \<Rightarrow> tcp_conn \<Rightarrow> net \<Rightarrow> net" where
  "set_conn k c n = n\<lparr>conns := (conns n)(k := c)\<rparr>"

definition on_readable :: "http_callback \<Rightarrow> (nat list \<Rightarrow> int + string) \<Rightarrow> write_fun \<Rightarrow> tcp_conn \<Rightarrow> tcp_conn res" where
  "on_readable cb readv wr c = HandleRead readv (Some (message_callback True wr 0 cb)) c"

inductive http_step :: "http_callback \<Rightarrow> http_sys \<Rightarrow> http_sys \<Rightarrow> bool" for cb where
  accept: "NewConnection (Some OnConnection) False 0 fd (sys_net s) = Inr n \<Longrightarrow>
    http_step cb s (s\<lparr>sys_net := n\<rparr>)"
| task: "net_queues (sys_net s) i = t # ts \<Longrightarrow>
    run_net_task (Some OnConnection) i t ((sys_net s)\<lparr>net_queues := (net_queues (sys_net s))(i := ts)\<rparr>) = Inr n \<Longrightarrow>
    http_step cb s (s\<lparr>sys_net := n\<rparr>)"
| close: "k < num_conns (sys_net s) \<Longrightarrow> cares_read (conn_handler (conns (sys_net s) k)) \<Longrightarrow>
    close_conn (Some OnConnection) k (sys_net s) = Inr n \<Longrightarrow> http_step cb s (s\<lparr>sys_net := n\<rparr>)"
| message: "k < num_conns (sys_net s) \<Longrightarrow> cares_read (conn_handler (conns (sys_net s) k)) \<Longrightarrow>
    readv_ok readv \<Longrightarrow> kernel_ok wr \<Longrightarrow>
    readv (read_iov (input_buf (conns (sys_net s) k))) = Inr chunk \<Longrightarrow> chunk \<noteq> [] \<Longrightarrow>
    on_readable cb readv wr (conns (sys_net s) k) = Inr c \<Longrightarrow>
    http_step cb s (s\<lparr>sys_net := set_conn k c (sys_net s), chunks := (chunks s)(k := chunks s k @ [chunk])\<rparr>)"
| writable: "k < num_conns (sys_net s) \<Longrightarrow> kernel_ok wr \<Longrightarrow>
    HandleWrite wr (conns (sys_net s) k) = Inr c \<Longrightarrow>
    http_step cb s (s\<lparr>sys_net := set_conn k c (sys_net s)\<rparr>)"

definition http_init :: "string \<Rightarrow> nat \<Rightarrow> http_sys" where
  "http_init name threads = \<lparr>sys_net = net_init name threads, chunks = (\<lambda>_. [])\<rparr>"

text \<open>
  The invariant of one connection: what it has sent or will send is the reply to the chunks it has
  received. While it is open it is in the dialogue that these chunks lead to; before that it is new,
  and after it nothing is written any more.
\<close>

definition conversation :: "http_callback \<Rightarrow> string list \<Rightarrow> tcp_conn \<Rightarrow> bool" where
  "conversation cb chs c = (\<exists>out d. replay cb chs [] dialogue_init = Some (out, d) \<and> outgoing c = out
     \<and> (cares_read (conn_handler c) \<longrightarrow> talks c d)
     \<and> (conn_state c = CONNECTING \<longrightarrow> chs = [] \<and> conn_inv c \<and> payload (input_buf c) = [])
     \<and> (\<not> cares_read (conn_handler c) \<and> conn_state c \<noteq> CONNECTING \<longrightarrow> \<not> is_care_write (conn_handler c)))"

definition http_inv :: "http_callback \<Rightarrow> http_sys \<Rightarrow> bool" where
  "http_inv cb s = (net_inv (sys_net s) \<and> small_bodies cb
     \<and> (\<forall>k<num_conns (sys_net s). conversation cb (chunks s k) (conns (sys_net s) k))
     \<and> (\<forall>k\<ge>num_conns (sys_net s). chunks s k = []))"

text \<open>The connection callback of the HTTP server is one the lifecycle of connections tolerates.\<close>

lemma OnConnection_ok: "callback_ok (Some OnConnection)"
proof -
  have "\<exists>c'. OnConnection c = Inr c' \<and> activity c c'" for c
    by (cases "is_connected c") (simp_all add: OnConnection_def set_context_def activity_def)
  then show ?thesis unfolding callback_ok_def by blast
qed

section \<open>Each step keeps the conversations\<close>

lemma removed_cares_write [simp]: "is_care_write (RemoveEventHandler h) = is_care_write h"
  by (simp add: is_care_write_def RemoveEventHandler_def UpdataOneEventHandler_def DeleteEvent_def ctl_request_def)

lemma RemoveConnectionInLoop_frame:
  "RemoveConnectionInLoop cur k n = Inr n' \<Longrightarrow> conns n' = conns n \<and> num_conns n' = num_conns n"
  by (auto simp: RemoveConnectionInLoop_def AssertInLoopThread_def queue_net_def rbind_Inr_iff split: if_splits prod.splits)

lemma conversation_opens:
  assumes "conversation cb chs c" and "set_connection_established same (Some OnConnection) c = Inr c'"
  shows "conversation cb chs c'"
proof -
  have st: "conn_state c = CONNECTING"
    using assms(2) by (auto simp: set_connection_established_def in_loop_def split: if_splits)
  have c': "c' = set_context context_init (on_handler set_care_read (c\<lparr>conn_state := CONNECTED\<rparr>))"
    using assms(2) by (auto simp: set_connection_established_def in_loop_def user_call_def OnConnection_def
        is_connected_def split: if_splits)
  from assms(1) st have chs: "chs = []" "conn_inv c" "payload (input_buf c) = []" "outgoing c = []"
    by (auto simp: conversation_def)
  then have "talks c' dialogue_init" "outgoing c' = []" "cares_read (conn_handler c')" "conn_state c' = CONNECTED"
    unfolding c' using st by (auto simp: talks_def dialogue_init_def set_context_def conn_inv_def outgoing_def)
  with chs show ?thesis by (auto simp: conversation_def)
qed

lemma conversation_ends:
  assumes "conversation cb chs c" and "outgoing c' = outgoing c" and "\<not> cares_read (conn_handler c')"
    and "\<not> is_care_write (conn_handler c')" and "conn_state c' \<noteq> CONNECTING"
  shows "conversation cb chs c'"
  using assms by (auto simp: conversation_def)

lemma destroyed_ends:
  assumes "conversation cb chs c" and "set_connection_destroyed same (Some OnConnection) c = Inr c'"
  shows "conversation cb chs c'"
proof (rule conversation_ends[OF assms(1)])
  have c': "c' = on_handler RemoveEventHandler (on_handler set_stop_care_all (c\<lparr>conn_state := DISCONNECTED\<rparr>))"
    using assms(2) by (auto simp: set_connection_destroyed_def in_loop_def user_call_def OnConnection_def
        is_connected_def split: if_splits)
  show "outgoing c' = outgoing c" "\<not> cares_read (conn_handler c')" "\<not> is_care_write (conn_handler c')"
    "conn_state c' \<noteq> CONNECTING"
    unfolding c' by (simp_all add: outgoing_def)
qed

lemma HandleClose_ends:
  assumes "conversation cb chs c" and "HandleClose c = Inr c'"
  shows "conversation cb chs c'"
proof (rule conversation_ends[OF assms(1)])
  show "outgoing c' = outgoing c" "\<not> cares_read (conn_handler c')" "\<not> is_care_write (conn_handler c')"
    "conn_state c' \<noteq> CONNECTING"
    using assms(2) by (auto simp: HandleClose_def Let_def outgoing_def)
qed

section \<open>Messages are activity\<close>

lemma activity_trans: "activity a b \<Longrightarrow> activity b c \<Longrightarrow> activity a c"
  by (auto simp: activity_def)

lemma activity_updates [simp]:
  "activity c (c\<lparr>input_buf := b\<rparr>)" "activity c (c\<lparr>conn_context := x\<rparr>)"
  "activity c (d\<lparr>conn_context := x\<rparr>) = activity c d" "activity (d\<lparr>input_buf := b\<rparr>) c = activity d c"
  "activity (d\<lparr>conn_context := x\<rparr>) c = activity d c"
  by (simp_all add: activity_def)

text \<open>What the sending and the shutdown of a connection do to it, the whole handling of a message does.\<close>

locale message_effect =
  fixes effect :: "tcp_conn \<Rightarrow> tcp_conn \<Rightarrow> bool"
  assumes stays: "effect c c" and joins: "effect c c1 \<Longrightarrow> effect c1 c2 \<Longrightarrow> effect c c2"
    and parses: "effect c (c\<lparr>conn_context := x, input_buf := b\<rparr>)" "effect c (c\<lparr>conn_context := x\<rparr>)"
    and sends: "SendInLoop True wr d c = Inr c' \<Longrightarrow> effect c c'"
    and shuts: "ShutDown True c = Inr c' \<Longrightarrow> effect c c'"
begin

lemma sent: "Send True wr obj d c = Inr c' \<Longrightarrow> effect c c'"
  by (auto simp: Send_def stays dest: sends split: if_splits)

lemma request:
  assumes "OnRequest True wr obj cb req c = Inr c'"
  shows "effect c c'"
proof -
  from assms obtain buf c1 buf' where c1: "Send_buffer True wr obj buf c = Inr (c1, buf')"
    "(if resp_close (cb req (response_init (wants_close req))) then ShutDown True c1 else Inr c1) = Inr c'"
    by (auto simp: OnRequest_def Let_def rbind_Inr_iff)
  have "effect c c1" using c1(1) by (auto simp: Send_buffer_def rbind_Inr_iff stays dest: sends split: if_splits)
  moreover have "effect c1 c'" using c1(2) by (auto simp: stays dest: shuts split: if_splits)
  ultimately show ?thesis by (rule joins)
qed

lemma message:
  assumes "OnMessage True wr obj cb c = Some (Inr c')"
  shows "effect c c'"
proof -
  from assms obtain ctx okp ctx' b where p: "conn_context c = Some ctx"
    "ParseRequest ctx (input_buf c) = Some (Inr (okp, ctx', b))"
    by (auto simp: OnMessage_def split: option.splits sum.splits)
  let ?c1 = "c\<lparr>conn_context := Some ctx', input_buf := b\<rparr>"
  from assms p obtain c2 where
    c2: "(if okp then Inr ?c1 else rbind (Send True wr obj bad_request_text ?c1) (ShutDown True)) = Inr c2"
    "(if is_done ctx' then rbind (OnRequest True wr obj cb (ctx_request ctx') c2)
        (\<lambda>c3. Inr (c3\<lparr>conn_context := Some (Reset ctx')\<rparr>)) else Inr c2) = Inr c'"
    by (auto simp: OnMessage_def Let_def rbind_Inr_iff)
  have "effect ?c1 c2"
    using c2(1) by (auto simp: rbind_Inr_iff stays intro: joins dest: sent shuts split: if_splits)
  moreover have "effect c2 c'"
    using c2(2) by (auto simp: rbind_Inr_iff stays intro: joins parses(2) dest: request split: if_splits)
  ultimately show ?thesis using joins parses(1) by blast
qed

lemma callback: "message_callback True wr obj cb c = Inr c' \<Longrightarrow> effect c c'"
  by (auto simp: message_callback_def dest: message split: option.splits)

end

interpretation act: message_effect activity
  by unfold_locales (auto simp: activity_def intro: activity_trans dest: SendInLoop_activity[unfolded activity_def]
      ShutDown_activity[unfolded activity_def])

lemma on_readable_spec:
  assumes talks: "talks c d" and k: "readv_ok readv" "kernel_ok wr"
    and chunk: "readv (read_iov (input_buf c)) = Inr chunk" "chunk \<noteq> []" and small: "small_bodies cb"
  shows "case react cb chunk d of
      None \<Rightarrow> on_readable cb readv wr c = Inl Diverges
    | Some (new, d') \<Rightarrow> \<exists>c'. on_readable cb readv wr c = Inr c' \<and> talks c' d' \<and> outgoing c' = outgoing c @ new
        \<and> activity c c'"
proof -
  obtain ctx inp sending where d: "d = (ctx, inp, sending)" by (cases d) auto
  have inv: "conn_inv c" and inp: "payload (input_buf c) = inp" using talks d by (auto simp: talks_def)
  from readable_ok[OF inv chunk k(1)] obtain b where
    b: "on_readable cb readv wr c = user_call (Some (message_callback True wr 0 cb)) (c\<lparr>input_buf := b\<rparr>)"
    "buf_inv b" "payload b = inp @ chunk" unfolding on_readable_def inp by blast
  let ?c1 = "c\<lparr>input_buf := b\<rparr>"
  have "talks ?c1 (ctx, inp @ chunk, sending)" using talks d b(2,3) by (simp add: talks_def)
  from OnMessage_reacts[OF this k(2) small, of 0] show ?thesis
    using b(1) act.message[of wr 0 cb ?c1]
    by (auto simp: d user_call_def message_callback_def split: option.splits)
qed

section \<open>The server implements its network model\<close>

lemma conversation_message:
  assumes conv: "conversation cb chs c" and care: "cares_read (conn_handler c)" and small: "small_bodies cb"
    and k: "readv_ok readv" "kernel_ok wr" "readv (read_iov (input_buf c)) = Inr chunk" "chunk \<noteq> []"
    and run: "on_readable cb readv wr c = Inr c'"
  shows "conversation cb (chs @ [chunk]) c' \<and> activity c c'"
proof -
  obtain out d where d: "replay cb chs [] dialogue_init = Some (out, d)" "outgoing c = out" "talks c d"
    using conv care by (auto simp: conversation_def)
  from on_readable_spec[OF d(3) k(1,2,3,4) small] run obtain new d' where
    d': "react cb chunk d = Some (new, d')" "talks c' d'" "outgoing c' = outgoing c @ new" "activity c c'"
    by (auto split: option.splits)
  have "conn_state c \<noteq> CONNECTING"
  proof
    assume "conn_state c = CONNECTING"
    then show False using conv care d(3) by (auto simp: conversation_def talks_def dialogue_init_def)
  qed
  then have "cares_read (conn_handler c')" "conn_state c' \<noteq> CONNECTING"
    using d'(4) care by (auto simp: activity_def)
  with d d' show ?thesis by (auto simp: conversation_def replay_snoc)
qed

lemma HandleWrite_frame:
  "HandleWrite wr c = Inr c' \<Longrightarrow> input_buf c' = input_buf c \<and> conn_context c' = conn_context c"
  by (auto simp: HandleWrite_def ShutDownInLoop_def Let_def rbind_Inr_iff split: sum.splits if_splits)

lemma conversation_writable:
  assumes conv: "conversation cb chs c" and "kernel_ok wr" and run: "HandleWrite wr c = Inr c'"
  shows "conversation cb chs c' \<and> activity c c'"
proof -
  have act: "activity c c'" using HandleWrite_activity[OF run] .
  show ?thesis
  proof (cases "is_care_write (conn_handler c)")
    case False
    then have "c' = c" using run by (simp add: HandleWrite_def)
    then show ?thesis using conv by simp
  next
    case True
    have old: "conn_state c \<noteq> CONNECTING"
    proof
      assume "conn_state c = CONNECTING"
      then have "conn_inv c" "outgoing c = []" using conv by (auto simp: conversation_def)
      with True show False by (auto simp: conn_inv_def outgoing_def)
    qed
    with True obtain out d where d: "replay cb chs [] dialogue_init = Some (out, d)" "outgoing c = out" "talks c d"
      "cares_read (conn_handler c)" using conv by (auto simp: conversation_def)
    then have inv: "conn_inv c" by (auto simp: talks_def)
    from HandleWrite_spec[OF inv assms(2)] run have w: "conn_inv c'" "outgoing c' = outgoing c"
      "conn_state c' = conn_state c" by auto
    have "talks c' d" using d(3) w HandleWrite_frame[OF run] by (auto simp: talks_def)
    moreover have "cares_read (conn_handler c')" using act d(4) by (simp add: activity_def)
    ultimately show ?thesis using d w old act by (auto simp: conversation_def)
  qed
qed

text \<open>
  What holds of every connection, one by one, is kept by the operations of the server when the establishment, the
  destruction and the close handler of one connection keep it.
\<close>

locale conn_property =
  fixes holds :: "nat \<Rightarrow> tcp_conn \<Rightarrow> bool"
  assumes opens: "holds k c \<Longrightarrow> set_connection_established same (Some OnConnection) c = Inr c' \<Longrightarrow> holds k c'"
    and ends: "holds k c \<Longrightarrow> set_connection_destroyed same (Some OnConnection) c = Inr c' \<Longrightarrow> holds k c'"
    and closes: "holds k c \<Longrightarrow> HandleClose c = Inr c' \<Longrightarrow> holds k c'"
begin

lemma object:
  assumes "\<forall>k<num_conns n. holds k (conns n k)" and "on_conn_object j f n = Inr n'"
    and "\<And>c c'. holds j c \<Longrightarrow> f c = Inr c' \<Longrightarrow> holds j c'"
  shows "num_conns n' = num_conns n \<and> (\<forall>k<num_conns n. holds k (conns n' k))"
proof -
  obtain c where c: "f (conns n j) = Inr c" "n' = n\<lparr>conns := (conns n)(j := c)\<rparr>"
    using assms(2) by (auto simp: on_conn_object_def rbind_Inr_iff)
  then show ?thesis using assms(1) assms(3)[OF _ c(1)] by simp
qed

lemma queued:
  assumes "\<forall>k<num_conns n. holds k (conns n k)" and "run_net_task (Some OnConnection) i t n = Inr n'"
  shows "num_conns n' = num_conns n \<and> (\<forall>k<num_conns n. holds k (conns n' k))"
proof (cases t)
  case (EstablishTask k)
  with assms(2) object[OF assms(1)] opens show ?thesis by auto
next
  case (RemoveTask k)
  with assms RemoveConnectionInLoop_frame show ?thesis by fastforce
next
  case (DestroyTask k)
  with assms(2) object[OF assms(1)] ends show ?thesis by auto
qed

lemma in_loop:
  assumes "\<forall>k<num_conns n. holds k (conns n k)" and "run_in_loop (Some OnConnection) cur target t n = Inr n'"
  shows "num_conns n' = num_conns n \<and> (\<forall>k<num_conns n. holds k (conns n' k))"
  using assms queued[OF assms(1)] by (auto simp: run_in_loop_def queue_net_def split: if_splits)

lemma accepted:
  assumes all: "\<forall>k<num_conns n. holds k (conns n k)"
    and fresh: "holds (num_conns n) (set_write_complete_callback wc (TcpConnection_new fd))"
    and run: "NewConnection (Some OnConnection) wc 0 fd n = Inr n'"
  shows "num_conns n' = Suc (num_conns n) \<and> (\<forall>k<num_conns n'. holds k (conns n' k))"
proof -
  let ?k = "num_conns n" and ?c = "set_write_complete_callback wc (TcpConnection_new fd)"
  from run obtain n1 next_io where n1: "run_in_loop (Some OnConnection) 0 next_io (EstablishTask ?k) n1 = Inr n'"
    "conns n1 = (conns n)(?k := ?c)" "num_conns n1 = Suc ?k"
    by (auto simp: NewConnection_def AssertInLoopThread_def Let_def rbind_Inr_iff split: if_splits prod.splits)
  have "\<forall>k<num_conns n1. holds k (conns n1 k)" using all fresh n1(2,3) by (auto simp: less_Suc_eq)
  from in_loop[OF this n1(1)] n1(3) show ?thesis by simp
qed

lemma closed:
  assumes all: "\<forall>k<num_conns n. holds k (conns n k)" and run: "close_conn (Some OnConnection) j n = Inr n'"
  shows "num_conns n' = num_conns n \<and> (\<forall>k<num_conns n. holds k (conns n' k))"
proof -
  from run obtain n1 where n1: "on_conn_object j HandleClose n = Inr n1"
    "RemoveConnection (Some OnConnection) (conn_disp n j) j n1 = Inr n'"
    by (auto simp: close_conn_def rbind_Inr_iff)
  from object[OF all n1(1) closes] have
    c1: "num_conns n1 = num_conns n" "\<forall>k<num_conns n1. holds k (conns n1 k)" by auto
  from in_loop[OF c1(2)] n1(2) c1(1) show ?thesis by (auto simp: RemoveConnection_def)
qed

end

interpretation talk: conn_property "\<lambda>k. conversation cb (chs k)" for cb chs
  by unfold_locales (auto intro: conversation_opens destroyed_ends HandleClose_ends)

lemma new_not_cares [simp]: "\<not> cares_read (new_handler fd)"
  by (simp add: cares_read_def new_handler_def RegisterEventHandler_def UpdataOneEventHandler_def
      AddEvent_def ctl_request_def kRead_def)

lemma conversation_new: "conversation cb [] (set_write_complete_callback wc (TcpConnection_new fd))"
  by (auto simp: conversation_def dialogue_init_def set_write_complete_callback_def TcpConnection_new_def
      outgoing_def conn_inv_def)

lemma http_step_inv:
  assumes "http_step cb s t" and inv: "http_inv cb s"
  shows "http_inv cb t \<and> net_step (Some OnConnection) (sys_net s) (sys_net t)"
proof -
  have net: "net_inv (sys_net s)" and small: "small_bodies cb"
    and conv: "\<forall>k<num_conns (sys_net s). conversation cb (chunks s k) (conns (sys_net s) k)"
    and fresh: "\<forall>k\<ge>num_conns (sys_net s). chunks s k = []"
    using inv by (auto simp: http_inv_def)
  have step: "net_step (Some OnConnection) (sys_net s) (sys_net t)
     \<and> num_conns (sys_net t) \<ge> num_conns (sys_net s)
     \<and> (\<forall>k<num_conns (sys_net t). conversation cb (chunks t k) (conns (sys_net t) k))
     \<and> (\<forall>k\<ge>num_conns (sys_net t). chunks t k = [])"
    using assms(1)
  proof cases
    case (accept fd n)
    have "conversation cb (chunks s (num_conns (sys_net s))) (set_write_complete_callback False (TcpConnection_new fd))"
      using fresh conversation_new by simp
    from talk.accepted[OF conv this accept(2)] net_step.new_conn[OF accept(2)] fresh accept(1) show ?thesis by auto
  next
    case (task i x ts n)
    let ?m = "(sys_net s)\<lparr>net_queues := (net_queues (sys_net s))(i := ts)\<rparr>"
    have "\<forall>k<num_conns ?m. conversation cb (chunks s k) (conns ?m k)" using conv by simp
    from talk.queued[OF this task(3)] fresh net_step.task[OF task(2,3)] task(1) show ?thesis by auto
  next
    case (close k n)
    with talk.closed[OF conv close(4)] fresh net_step.close[OF close(2,3,4)] show ?thesis by auto
  next
    case (message k readv wr chunk c)
    from conv message(2) have "conversation cb (chunks s k) (conns (sys_net s) k)" by blast
    from conversation_message[OF this message(3) small message(4,5,6,7,8)]
    show ?thesis using message(1,2) conv fresh net_step.act[OF message(2)] by (auto simp: set_conn_def)
  next
    case (writable k wr c)
    from conv writable(2) have "conversation cb (chunks s k) (conns (sys_net s) k)" by blast
    from conversation_writable[OF this writable(3,4)]
    show ?thesis using writable(1,2) conv fresh net_step.act[OF writable(2)] by (auto simp: set_conn_def)
  qed
  then show ?thesis using net_step_inv[OF _ net OnConnection_ok] small by (simp add: http_inv_def)
qed

text \<open>The server with its data path implements the model of its connections' life.\<close>

interpretation http: step_refinement "http_step cb" "http_inv cb" sys_net "net_step (Some OnConnection)"
  by unfold_locales (use http_step_inv in blast)+

lemma http_init_inv: "small_bodies cb \<Longrightarrow> http_inv cb (http_init name threads)"
  using net_init_inv[of name threads] by (simp add: http_inv_def http_init_def) (simp add: net_init_def)

section \<open>Isolation, and no failure\<close>

lemma isolated:
  assumes "http_inv cb s" and "k < num_conns (sys_net s)" and "c = conns (sys_net s) k"
  shows "map_option fst (replay cb (chunks s k) [] dialogue_init) = Some (wire c @ payload (output_buf c))
     \<and> (cares_read (conn_handler c) \<longrightarrow>
          (is_care_write (conn_handler c) \<longleftrightarrow> payload (output_buf c) \<noteq> [])
          \<and> (fin c \<longrightarrow> payload (output_buf c) = []))"
proof -
  have "conversation cb (chunks s k) c" using assms by (simp add: http_inv_def)
  then obtain out d where d: "replay cb (chunks s k) [] dialogue_init = Some (out, d)"
    "outgoing c = out" "cares_read (conn_handler c) \<longrightarrow> talks c d" by (auto simp: conversation_def)
  from d(3) have "cares_read (conn_handler c) \<longrightarrow> conn_inv c" by (auto simp: talks_def)
  then have "cares_read (conn_handler c) \<longrightarrow>
      (is_care_write (conn_handler c) \<longleftrightarrow> payload (output_buf c) \<noteq> []) \<and> (fin c \<longrightarrow> payload (output_buf c) = [])"
    by (simp add: conn_inv_def)
  with d(1,2) show ?thesis by (simp add: outgoing_def)
qed

text \<open>
  Claim C7. Clients are isolated: in every interleaving of accepts, the queued functions of all
  threads, closes, messages and partial writes, the bytes on the wire of a connection and those still in its
  output buffer are exactly the reply to the chunks of input that this connection has received, computed by
  the request specification and the callback alone; nothing of another connection, thread or schedule
  enters. While the connection is open, write interest is registered exactly while bytes wait, and a sent FIN means
  that all of the reply is on the wire.
\<close>

theorem server_isolation:
  assumes "(http_step cb)\<^sup>*\<^sup>* (http_init name threads) s" and "small_bodies cb" and "k < num_conns (sys_net s)"
    and "c = conns (sys_net s) k"
  shows "map_option fst (replay cb (chunks s k) [] dialogue_init) = Some (wire c @ payload (output_buf c))
     \<and> (cares_read (conn_handler c) \<longrightarrow>
          (is_care_write (conn_handler c) \<longleftrightarrow> payload (output_buf c) \<noteq> [])
          \<and> (fin c \<longrightarrow> payload (output_buf c) = []))"
  using isolated[OF http.good_reach[OF assms(1) http_init_inv[OF assms(2)]] assms(3,4)] .

text \<open>
  The initial state is the one the code builds: the constructor, \<^verbatim>\<open>SetThreadNum\<close> and \<^verbatim>\<open>Start\<close>, called in the thread
  of the base loop, lead to it, and the acceptor starts to listen in that loop.
\<close>

lemma server_setup:
  "rbind (SetThreadNum (int threads) (TcpServer_new addr)) (Server_Start True False)
     = Inr (server (sys_net (http_init (get_iner_host_port addr) threads)), True)"
  using started_pool_eq[of threads]
  by (simp add: SetThreadNum_def TcpServer_new_def Server_Start_def http_init_def net_init_def)

text \<open>A run: one connection is accepted by a server without I/O threads and opened at once.\<close>

lemma open_demo: "\<exists>s. (http_step cb)\<^sup>*\<^sup>* (http_init name 0) s \<and> num_conns (sys_net s) = 1
    \<and> cares_read (conn_handler (conns (sys_net s) 0)) \<and> chunks s 0 = []"
proof -
  have "conn_state (set_write_complete_callback False (TcpConnection_new 7)) = CONNECTING"
    by (simp add: set_write_complete_callback_def TcpConnection_new_def)
  then obtain n where n: "NewConnection (Some OnConnection) False 0 7 (net_init name 0) = Inr n" "num_conns n = 1"
    "cares_read (conn_handler (conns n 0))"
    by (simp add: NewConnection_def AssertInLoopThread_def net_init_def Let_def run_in_loop_def started_pool_def
        get_next_dispatcher_def on_conn_object_def set_connection_established_def user_call_def
        OnConnection_def is_connected_def set_context_def)
  have "http_step cb (http_init name 0) ((http_init name 0)\<lparr>sys_net := n\<rparr>)"
    by (rule http_step.accept) (use n(1) in \<open>simp add: http_init_def\<close>)
  then show ?thesis using n by (intro exI[of _ "(http_init name 0)\<lparr>sys_net := n\<rparr>"]) (auto simp: http_init_def)
qed

lemmas demo_http = open_demo[of demo_callback "''s''"]

lemma demo_small: "small_bodies demo_callback"
  unfolding small_bodies_def using demo_callback_small by blast

theorem server_isolation_witness:
  "\<exists>s :: http_sys. num_conns (sys_net s) = 1
     \<and> wire (conns (sys_net s) 0) @ payload (output_buf (conns (sys_net s) 0)) = []"
proof -
  obtain s where s: "(http_step demo_callback)\<^sup>*\<^sup>* (http_init ''s'' 0) s" "num_conns (sys_net s) = 1" "chunks s 0 = []"
    using demo_http by blast
  then have k: "0 < num_conns (sys_net s)" by simp
  have "wire (conns (sys_net s) 0) @ payload (output_buf (conns (sys_net s) 0)) = []"
    using server_isolation[OF s(1) demo_small k refl] s(3) by simp
  with s(2) show ?thesis by blast
qed

text \<open>
  The only way a message can go wrong: in every reachable state of the server, bytes that arrive on
  an open connection are either answered without any failing assertion, null context or access outside of a buffer,
  or they are input on which the parser's specification says that it does not return; then, and only
  then, the thread hangs.
\<close>

theorem messages_never_fault:
  assumes "(http_step cb)\<^sup>*\<^sup>* (http_init name threads) s" and "small_bodies cb" and "k < num_conns (sys_net s)"
    and "cares_read (conn_handler (conns (sys_net s) k))" and "readv_ok readv" and "kernel_ok wr"
    and "readv (read_iov (input_buf (conns (sys_net s) k))) = Inr chunk" and "chunk \<noteq> []"
  shows "if replay cb (chunks s k @ [chunk]) [] dialogue_init = None
         then on_readable cb readv wr (conns (sys_net s) k) = Inl Diverges
         else \<exists>c. on_readable cb readv wr (conns (sys_net s) k) = Inr c"
proof -
  have "http_inv cb s" using http.good_reach[OF assms(1) http_init_inv[OF assms(2)]] .
  then have "conversation cb (chunks s k) (conns (sys_net s) k)" using assms(3) by (simp add: http_inv_def)
  then obtain out d where d: "replay cb (chunks s k) [] dialogue_init = Some (out, d)"
    "talks (conns (sys_net s) k) d" using assms(4) by (auto simp: conversation_def)
  from on_readable_spec[OF d(2) assms(5-8,2)] show ?thesis
    by (cases "react cb chunk d") (auto simp: replay_snoc d(1))
qed

theorem messages_never_fault_witness:
  "\<exists>(s :: http_sys) c. num_conns (sys_net s) = 1
     \<and> on_readable demo_callback (demo_readv_of ''GET'') take_one (conns (sys_net s) 0) = Inr c"
proof -
  obtain s where s: "(http_step demo_callback)\<^sup>*\<^sup>* (http_init ''s'' 0) s" "num_conns (sys_net s) = 1" "chunks s 0 = []"
    "cares_read (conn_handler (conns (sys_net s) 0))" using demo_http by blast
  have "0 < num_conns (sys_net s)" using s(2) by simp
  moreover have "demo_readv_of ''GET'' (read_iov (input_buf (conns (sys_net s) 0))) = Inr ''GET''"
    using deliversD[OF demo_readv_of_delivers, of "''GET''"] by (simp add: kExtraBuf_def)
  moreover have "readv_ok (demo_readv_of ''GET'')" using demo_readv_of_delivers by (simp add: delivers_def)
  moreover have "split_line ''GET'' = None" by code_simp
  then have "replay demo_callback (chunks s 0 @ [''GET'']) [] dialogue_init \<noteq> None"
    unfolding s(3) by (simp add: react_def dialogue_init_def request_spec_def context_init_def after_parse_def is_done_def Let_def)
  ultimately show ?thesis
    using messages_never_fault[OF s(1) demo_small _ s(4) _ take_one_ok, of "demo_readv_of ''GET''" "''GET''"] s(2) by auto
qed

end
