(* ===== verification/Lifetime.thy ===== *)
theory Lifetime
  imports TcpServer
begin

text \<open>
  How long a connection object lives. \<^verbatim>\<open>TcpServer\<close> holds a \<^verbatim>\<open>shared_ptr\<close> in its map and binds copies of it into the queued
  functions; the event handler and the functions that a connection queues itself hold a bare \<^verbatim>\<open>this\<close>. The object is destroyed,
  and its descriptor closed, when the last \<^verbatim>\<open>shared_ptr\<close> is gone.
\<close>

section \<open>References\<close>

text \<open>The counted references: the entry of the map and the functions that wait in some queue.\<close>

definition referenced :: "net \<Rightarrow> nat \<Rightarrow> bool" where
  "referenced n k = (in_map n k \<or> (\<exists>j. \<exists>t\<in>set (net_queues n j). task_conn t = k))"

lemma queued_count: "t \<in> set q \<longleftrightarrow> count_list q t \<noteq> 0"
  by (simp add: count_list_0_iff)

text \<open>The object is alive in all stages but the last.\<close>

lemma referenced_stage:
  assumes "stage_ok n k st"
  shows "referenced n k \<longleftrightarrow> st \<noteq> SClosed"
proof -
  have tasks: "\<And>j t. task_conn t = k \<Longrightarrow> count_list (net_queues n j) t = expected st (conn_disp n k) j t"
    and m: "in_map n k \<longleftrightarrow> st \<in> {SEstablish, SOpen, SRemove}"
    using assms by (auto simp: stage_ok_def tasks_ok_def)
  show ?thesis
  proof (cases st)
    case SDestroy
    then have "DestroyTask k \<in> set (net_queues n (conn_disp n k))" using tasks[of "DestroyTask k"] by (simp add: queued_count)
    then show ?thesis using SDestroy by (force simp: referenced_def)
  next
    case SClosed
    have "expected SClosed i j t = 0" for i j t by (cases t) simp_all
    then have "task_conn t = k \<Longrightarrow> t \<notin> set (net_queues n j)" for j t
      using tasks[of t j] SClosed by (simp add: queued_count)
    then show ?thesis using SClosed m by (auto simp: referenced_def)
  qed (use m in \<open>auto simp: referenced_def\<close>)
qed

lemma alive_iff:
  assumes "net_inv n" and "k < num_conns n"
  shows "referenced n k \<longleftrightarrow> conn_state (conns n k) \<noteq> DISCONNECTED"
proof -
  from net_inv_others[OF assms] obtain st where st: "stage_ok n k st" .
  then have "conn_ok st (conns n k)" by (simp add: stage_ok_def)
  with referenced_stage[OF st] show ?thesis by (cases st) auto
qed

section \<open>The dead stay dead\<close>

lemma on_conn_object_frame:
  "on_conn_object j f n = Inr n' \<Longrightarrow> k \<noteq> j \<Longrightarrow> conns n' k = conns n k \<and> num_conns n' = num_conns n"
  by (auto simp: on_conn_object_def rbind_Inr_iff)

lemma remove_frame:
  "RemoveConnectionInLoop cur j n = Inr n' \<Longrightarrow> conns n' k = conns n k \<and> num_conns n' = num_conns n"
  by (auto simp: RemoveConnectionInLoop_def AssertInLoopThread_def queue_net_def rbind_Inr_iff split: if_splits prod.splits)

lemma run_net_task_frame:
  "run_net_task cb cur t n = Inr n' \<Longrightarrow> k \<noteq> task_conn t \<Longrightarrow> conns n' k = conns n k \<and> num_conns n' = num_conns n"
  by (cases t) (auto dest: on_conn_object_frame remove_frame)

lemma run_in_loop_frame:
  "run_in_loop cb cur i t n = Inr n' \<Longrightarrow> k \<noteq> task_conn t \<Longrightarrow> conns n' k = conns n k \<and> num_conns n' = num_conns n"
  by (auto simp: run_in_loop_def dest: run_net_task_frame split: if_splits)

lemma accept_frame:
  assumes "NewConnection cb wc 0 fd n = Inr n'" and "k < num_conns n"
  shows "conns n' k = conns n k \<and> k < num_conns n'"
proof -
  from assms(1) obtain n1 i where "run_in_loop cb 0 i (EstablishTask (num_conns n)) n1 = Inr n'"
    "conns n1 k = conns n k" "num_conns n1 = Suc (num_conns n)" using assms(2)
    by (auto simp: NewConnection_def AssertInLoopThread_def Let_def rbind_Inr_iff split: if_splits prod.splits)
  with run_in_loop_frame[of cb 0 i "EstablishTask (num_conns n)" n1 n' k] assms(2) show ?thesis by simp
qed

lemma step_keeps_dead:
  assumes "net_step cb n n'" and inv: "net_inv n" and k: "k < num_conns n"
    and dead: "conn_state (conns n k) = DISCONNECTED"
  shows "k < num_conns n' \<and> conn_state (conns n' k) = DISCONNECTED"
  using assms(1)
proof cases
  case (new_conn wc fd)
  then show ?thesis using accept_frame[of cb wc fd n n' k] k dead by simp
next
  case (task i t ts)
  have "\<not> referenced n k" using alive_iff[OF inv k] dead by simp
  then have "k \<noteq> task_conn t" using task(1) unfolding referenced_def by (metis list.set_intros(1))
  from run_net_task_frame[OF task(2) this] show ?thesis using k dead by simp
next
  case (close j)
  from net_inv_others[OF inv k] obtain st where st: "stage_ok n k st" .
  then have c: "conn_ok st (conns n k)" by (simp add: stage_ok_def)
  have "\<not> cares_read (conn_handler (conns n k))" using c dead by (cases st) auto
  then have "k \<noteq> j" using close(2) by auto
  from close(3) obtain n1 where n1: "on_conn_object j HandleClose n = Inr n1"
    "run_in_loop cb (conn_disp n j) 0 (RemoveTask j) n1 = Inr n'"
    by (auto simp: close_conn_def RemoveConnection_def rbind_Inr_iff)
  have "conns n' k = conns n1 k \<and> num_conns n' = num_conns n1"
    by (rule run_in_loop_frame[OF n1(2)]) (use \<open>k \<noteq> j\<close> in simp)
  with on_conn_object_frame[OF n1(1) \<open>k \<noteq> j\<close>] show ?thesis using k dead by simp
next
  case (act j c)
  then show ?thesis using k dead by (auto simp: activity_def)
qed

lemma reach_keeps_dead:
  "net_reach cb n n' \<Longrightarrow> net_inv n \<Longrightarrow> callback_ok cb \<Longrightarrow> k < num_conns n \<Longrightarrow> conn_state (conns n k) = DISCONNECTED
     \<Longrightarrow> k < num_conns n' \<and> conn_state (conns n' k) = DISCONNECTED"
  by (induction rule: net_reach.induct) (use step_keeps_dead net_reach_inv in blast)+

section \<open>Claims\<close>



section \<open>The bare pointers of a connection\<close>

text \<open>
  The functions that \<^verbatim>\<open>Send\<close> and \<^verbatim>\<open>ShutDown\<close> queue for a caller in another thread hold a bare \<^verbatim>\<open>this\<close>. The queued destruction holds the
  last reference: after it the object is gone, while the state it had until then still let \<^verbatim>\<open>Send\<close> pass.
\<close>

lemma destroy_is_last:
  assumes "net_inv n" and "callback_ok cb" and "net_queues n i = DestroyTask k # ts"
  shows "\<exists>n'. run_net_task cb i (DestroyTask k) (n\<lparr>net_queues := (net_queues n)(i := ts)\<rparr>) = Inr n' \<and> \<not> referenced n' k"
proof -
  let ?m = "n\<lparr>net_queues := (net_queues n)(i := ts)\<rparr>"
  from task_ok[OF assms(1,3,2)] obtain n' where
    n': "run_net_task cb i (DestroyTask k) ?m = Inr n'" "net_inv n'" by blast
  have "k < num_conns n" using assms(1,3) unfolding net_inv_def by (metis list.set_intros(1) task_conn.simps(3))
  obtain f where f: "cb = Some f" "\<forall>c. \<exists>c'. f c = Inr c' \<and> activity c c'" using assms(2) by (auto simp: callback_ok_def)
  from n'(1) obtain c where c: "set_connection_destroyed (i = conn_disp ?m k) cb (conns ?m k) = Inr c"
    "n' = ?m\<lparr>conns := (conns ?m)(k := c)\<rparr>" by (auto simp: on_conn_object_def rbind_Inr_iff)
  let ?c1 = "on_handler set_stop_care_all ((conns ?m k)\<lparr>conn_state := DISCONNECTED\<rparr>)"
  obtain c2 where c2: "f ?c1 = Inr c2" "activity ?c1 c2" using f(2) by blast
  have "conn_state c = DISCONNECTED"
    using c(1) c2 f(1) by (auto simp: set_connection_destroyed_def in_loop_def user_call_def activity_def rbind_Inr_iff
        split: if_splits)
  then show ?thesis using alive_iff[OF n'(2), of k] n'(1) c(2) \<open>k < num_conns n\<close> by auto
qed

text \<open>
  Such a state is reached by a server without I/O threads, with one client that connects and closes: the connection is
  still in the state in which \<^verbatim>\<open>Send\<close> accepts data, and a \<^verbatim>\<open>Send\<close> from another thread queues its function behind the destruction.
\<close>

lemma demo_doomed:
  "\<exists>n. net_reach (Some Inr) (net_init ''s'' 0) n \<and> num_conns n = 1 \<and> net_queues n 0 = [DestroyTask 0]
     \<and> conn_state (conns n 0) = CONNECTED"
proof -
  let ?n0 = "net_init ''s'' 0"
  have g: "get_next_dispatcher True (started_pool 0) = Inr (0, started_pool 0)"
    by (simp add: get_next_dispatcher_def AssertInLoopThread_def started_pool_def)
  have st: "conn_state (set_write_complete_callback False (TcpConnection_new 7)) = CONNECTING"
    by (simp add: set_write_complete_callback_def TcpConnection_new_def)
  obtain n where n: "NewConnection (Some Inr) False 0 7 ?n0 = Inr n" "num_conns n = 1" "net_queues n 0 = []"
    "cares_read (conn_handler (conns n 0))" "conn_disp n 0 = 0" "conn_state (conns n 0) = CONNECTED"
    using g st by (simp add: NewConnection_def AssertInLoopThread_def net_init_def Let_def run_in_loop_def
        on_conn_object_def set_connection_established_def user_call_def)
  have r: "net_reach (Some Inr) ?n0 n"
    by (rule net_reach.net_more[OF net_reach.net_start net_step.new_conn[OF n(1)]])
  have inv: "net_inv n" using net_reach_inv[OF r net_init_inv callback_Inr] .
  have k: "0 < num_conns n" using n(2) by simp
  from close_ok[OF inv k n(4), of "Some Inr"] obtain n2 where n2: "close_conn (Some Inr) 0 n = Inr n2" by blast
  have "net_reach (Some Inr) ?n0 n2" by (rule net_reach.net_more[OF r net_step.close[OF k n(4) n2]])
  moreover have "num_conns n2 = 1 \<and> net_queues n2 0 = [DestroyTask 0] \<and> conn_state (conns n2 0) = CONNECTED"
    using n2 n by (auto simp: close_conn_def on_conn_object_def HandleClose_def Let_def RemoveConnection_def run_in_loop_def
        RemoveConnectionInLoop_def AssertInLoopThread_def rbind_Inr_iff queue_net_def split: prod.splits if_splits)
  ultimately show ?thesis by blast
qed

lemma send_outlives_connection:
  "\<exists>(n :: net) c n'. net_reach (Some Inr) (net_init ''s'' 0) n \<and> Send False wr obj d (conns n 0) = Inr c
     \<and> conn_tasks c = conn_tasks (conns n 0) @ [TSendInLoop obj 0 (length d)]
     \<and> run_net_task (Some Inr) 0 (DestroyTask 0) (n\<lparr>net_queues := (net_queues n)(0 := [])\<rparr>) = Inr n' \<and> \<not> referenced n' 0"
proof -
  obtain n where n: "net_reach (Some Inr) (net_init ''s'' 0) n" "num_conns n = 1" "net_queues n 0 = [DestroyTask 0]"
    "conn_state (conns n 0) = CONNECTED" using demo_doomed by blast
  have inv: "net_inv n" using net_reach_inv[OF n(1) net_init_inv callback_Inr] .
  from destroy_is_last[OF inv callback_Inr n(3)] n show ?thesis by (fastforce simp: Send_def queue_task_def)
qed

end
