(* ===== verification/LoopSystem.thy ===== *)
theory LoopSystem
  imports HttpSystem Lifetime
begin

text \<open>
  The HTTP server on its event loops: every dispatcher of \<open>Dispatcher\<close>, with its phases, its queue, its wakeup descriptor and the
  threads that owe it a wakeup, runs the handlers and queued functions of \<open>HttpSystem\<close>. There the queue of a thread was a list whose
  head may run at any time; here it is the batch a loop is calling and the queue behind it, and only the
  thread of a connection touches it.
\<close>

section \<open>Operations do not look at the queues\<close>

text \<open>Tasks are only ever appended: what an operation does is the same behind any contents of the queues.\<close>

definition behind :: "(nat \<Rightarrow> net_task list) \<Rightarrow> net \<Rightarrow> net" where
  "behind q n = n\<lparr>net_queues := (\<lambda>j. q j @ net_queues n j)\<rparr>"

lemma behind_simps [simp]:
  "server (behind q n) = server n" "conns (behind q n) = conns n" "conn_disp (behind q n) = conn_disp n"
  "conn_name (behind q n) = conn_name n" "num_conns (behind q n) = num_conns n"
  "net_queues (behind q n) j = q j @ net_queues n j"
  by (simp_all add: behind_def)

lemma behind_updates [simp]:
  "(behind q n)\<lparr>conns := c\<rparr> = behind q (n\<lparr>conns := c\<rparr>)" "(behind q n)\<lparr>server := v\<rparr> = behind q (n\<lparr>server := v\<rparr>)"
  "(behind q n)\<lparr>conn_disp := d\<rparr> = behind q (n\<lparr>conn_disp := d\<rparr>)" "(behind q n)\<lparr>conn_name := m\<rparr> = behind q (n\<lparr>conn_name := m\<rparr>)"
  "(behind q n)\<lparr>num_conns := k\<rparr> = behind q (n\<lparr>num_conns := k\<rparr>)"
  by (simp_all add: behind_def)

lemma queue_behind [simp]: "queue_net i t (behind q n) = behind q (queue_net i t n)"
  by (simp add: queue_net_def behind_def fun_eq_iff)

definition rmap :: "('a \<Rightarrow> 'b) \<Rightarrow> 'a res \<Rightarrow> 'b res" where
  "rmap f r = rbind r (\<lambda>x. Inr (f x))"

lemma rmap_simps [simp]: "rmap f (Inl e) = Inl e" "rmap f (Inr x) = Inr (f x)"
  "rmap f (assert_then b r) = assert_then b (rmap f r)"
  "rmap f (if b then r else r') = (if b then rmap f r else rmap f r')"
  by (simp_all add: rmap_def assert_then_def)

lemma rmap_rbind [simp]: "rmap f (rbind r g) = rbind r (\<lambda>x. rmap f (g x))"
  by (cases r) simp_all

lemma on_conn_object_behind: "on_conn_object k f (behind q n) = rmap (behind q) (on_conn_object k f n)"
  by (simp add: on_conn_object_def)

lemma remove_behind: "RemoveConnectionInLoop cur k (behind q n) = rmap (behind q) (RemoveConnectionInLoop cur k n)"
  by (simp add: RemoveConnectionInLoop_def AssertInLoopThread_def split: prod.split)

lemma run_net_task_behind: "run_net_task cb cur t (behind q n) = rmap (behind q) (run_net_task cb cur t n)"
  by (cases t) (simp_all add: on_conn_object_behind remove_behind)

lemma run_in_loop_behind: "run_in_loop cb cur i t (behind q n) = rmap (behind q) (run_in_loop cb cur i t n)"
  by (simp add: run_in_loop_def run_net_task_behind)

lemma accept_behind: "NewConnection cb wc cur fd (behind q n) = rmap (behind q) (NewConnection cb wc cur fd n)"
  by (cases "get_next_dispatcher True (srv_pool (server n))")
    (simp_all add: NewConnection_def AssertInLoopThread_def Let_def run_in_loop_behind split: prod.split)

lemma close_behind: "close_conn cb k (behind q n) = rmap (behind q) (close_conn cb k n)"
  by (cases "on_conn_object k HandleClose n")
    (simp_all add: close_conn_def on_conn_object_behind RemoveConnection_def run_in_loop_behind)

section \<open>State and steps\<close>

text \<open>
  \<open>srv\<close> is the server with empty queues. An operation of the thread of loop \<open>i\<close> leaves what it posts in them;
  \<open>deliver\<close> hands it to the dispatchers as \<^verbatim>\<open>QueueInLoop\<close> does: in its own thread it owes itself a wakeup if it is
  calling queued functions, another loop is owed one in any case.
\<close>

record server_sys =
  srv :: http_sys
  loops :: "nat \<Rightarrow> net_task dsys"

definition post :: "bool \<Rightarrow> net_task list \<Rightarrow> net_task dsys \<Rightarrow> net_task dsys" where
  "post own ts l =
     (if ts = [] then l
      else if own then l\<lparr>disp := fold queue_push ts (disp l), self_owing := needs_wakeup True (disp l), queued := queued l @ ts\<rparr>
      else l\<lparr>disp := fold queue_push ts (disp l), owing := owing l + length ts, queued := queued l @ ts\<rparr>)"

definition deliver :: "nat \<Rightarrow> net \<Rightarrow> (nat \<Rightarrow> net_task dsys) \<Rightarrow> nat \<Rightarrow> net_task dsys" where
  "deliver i n ls = (\<lambda>j. post (j = i) (net_queues n j) (ls j))"

definition emptied :: "net \<Rightarrow> net" where
  "emptied n = n\<lparr>net_queues := (\<lambda>_. [])\<rparr>"

definition handling :: "nat \<Rightarrow> server_sys \<Rightarrow> bool" where
  "handling i s = (phase (loops s i) = Handling \<and> \<not> self_owing (loops s i))"

text \<open>The state after an operation of loop \<open>i\<close> whose result is \<open>n\<close>.\<close>

definition after_op :: "nat \<Rightarrow> net \<Rightarrow> server_sys \<Rightarrow> server_sys" where
  "after_op i n s = s\<lparr>srv := (srv s)\<lparr>sys_net := emptied n\<rparr>, loops := deliver i n (loops s)\<rparr>"

inductive server_step :: "http_callback \<Rightarrow> server_sys \<Rightarrow> server_sys \<Rightarrow> bool" for cb where
  loop: "disp_step (loops s i) l \<Longrightarrow> queued l = queued (loops s i) \<Longrightarrow> ran (disp l) = ran (disp (loops s i)) \<Longrightarrow>
    server_step cb s (s\<lparr>loops := (loops s)(i := l)\<rparr>)"
| call: "phase (loops s i) = Running (t # ts) \<Longrightarrow> \<not> self_owing (loops s i) \<Longrightarrow>
    call_pending (\<lambda>f. Inr) t (disp (loops s i)) = Inr d \<Longrightarrow>
    run_net_task (Some OnConnection) i t (sys_net (srv s)) = Inr n \<Longrightarrow>
    server_step cb s (after_op i n (s\<lparr>loops := (loops s)(i := (loops s i)\<lparr>disp := d, phase := Running ts\<rparr>)\<rparr>))"
| accept: "handling 0 s \<Longrightarrow> NewConnection (Some OnConnection) False 0 fd (sys_net (srv s)) = Inr n \<Longrightarrow>
    server_step cb s (after_op 0 n s)"
| close: "k < num_conns (sys_net (srv s)) \<Longrightarrow> handling (conn_disp (sys_net (srv s)) k) s \<Longrightarrow>
    cares_read (conn_handler (conns (sys_net (srv s)) k)) \<Longrightarrow> close_conn (Some OnConnection) k (sys_net (srv s)) = Inr n \<Longrightarrow>
    server_step cb s (after_op (conn_disp (sys_net (srv s)) k) n s)"
| message: "k < num_conns (sys_net (srv s)) \<Longrightarrow> handling (conn_disp (sys_net (srv s)) k) s \<Longrightarrow>
    cares_read (conn_handler (conns (sys_net (srv s)) k)) \<Longrightarrow> readv_ok readv \<Longrightarrow> kernel_ok wr \<Longrightarrow>
    readv (read_iov (input_buf (conns (sys_net (srv s)) k))) = Inr chunk \<Longrightarrow> chunk \<noteq> [] \<Longrightarrow>
    on_readable cb readv wr (conns (sys_net (srv s)) k) = Inr c \<Longrightarrow>
    server_step cb s (s\<lparr>srv := (srv s)\<lparr>sys_net := set_conn k c (sys_net (srv s)),
      chunks := (chunks (srv s))(k := chunks (srv s) k @ [chunk])\<rparr>\<rparr>)"
| writable: "k < num_conns (sys_net (srv s)) \<Longrightarrow> handling (conn_disp (sys_net (srv s)) k) s \<Longrightarrow> kernel_ok wr \<Longrightarrow>
    HandleWrite wr (conns (sys_net (srv s)) k) = Inr c \<Longrightarrow>
    server_step cb s (s\<lparr>srv := (srv s)\<lparr>sys_net := set_conn k c (sys_net (srv s))\<rparr>\<rparr>)"

definition server_init :: "string \<Rightarrow> nat \<Rightarrow> server_sys" where
  "server_init name threads = \<lparr>srv = http_init name threads, loops = (\<lambda>i. disp_init (int i))\<rparr>"

section \<open>The abstract queues\<close>

definition waiting :: "net_task dsys \<Rightarrow> net_task list" where
  "waiting l = in_flight l @ pending_funcs (disp l)"

definition flat :: "server_sys \<Rightarrow> http_sys" where
  "flat s = (srv s)\<lparr>sys_net := behind (\<lambda>i. waiting (loops s i)) (sys_net (srv s))\<rparr>"

definition whole_inv :: "http_callback \<Rightarrow> server_sys \<Rightarrow> bool" where
  "whole_inv cb s = (http_inv cb (flat s) \<and> (\<forall>i. disp_inv (loops s i)) \<and> net_queues (sys_net (srv s)) = (\<lambda>_. []))"

lemma fold_push [simp]: "pending_funcs (fold queue_push ts d) = pending_funcs d @ ts"
  "ran (fold queue_push ts d) = ran d" "quit (fold queue_push ts d) = quit d" "wakeup_count (fold queue_push ts d) = wakeup_count d"
  "in_calling_pending_funcs (fold queue_push ts d) = in_calling_pending_funcs d"
  by (induction ts arbitrary: d) (simp_all add: queue_push_def)

lemma post_phase [simp]: "phase (post own ts l) = phase l" "in_flight (post own ts l) = in_flight l"
  "ran (disp (post own ts l)) = ran (disp l)" "queued (post own ts l) = queued l @ ts"
  by (simp_all add: post_def in_flight_def)

lemma waiting_post [simp]: "waiting (post own ts l) = waiting l @ ts"
  by (simp add: waiting_def) (simp add: post_def)

lemma post_inv:
  assumes "disp_inv l" and "own \<longrightarrow> in_callback (phase l) \<and> \<not> self_owing l"
  shows "disp_inv (post own ts l)"
  using assms
  by (cases "phase l") (auto simp: disp_inv_def post_def alarmed_def in_flight_def needs_wakeup_def)

lemma waiting_queued: "disp_inv l \<Longrightarrow> ran (disp l) @ waiting l = queued l"
  by (simp add: disp_inv_def waiting_def)

lemma loop_step_waiting:
  assumes "disp_inv l" and "disp_step l l'" and "queued l' = queued l" and "ran (disp l') = ran (disp l)"
  shows "waiting l' = waiting l"
  using waiting_queued[OF assms(1)] waiting_queued[OF disp_step_inv[OF assms(2,1)]] assms(3,4) same_append_eq by metis

lemma flat_simps [simp]: "chunks (flat s) = chunks (srv s)" "conns (sys_net (flat s)) = conns (sys_net (srv s))"
  "num_conns (sys_net (flat s)) = num_conns (sys_net (srv s))" "conn_disp (sys_net (flat s)) = conn_disp (sys_net (srv s))"
  "sys_net (flat s) = behind (\<lambda>i. waiting (loops s i)) (sys_net (srv s))"
  by (simp_all add: flat_def)

lemma flat_after_op: "flat (after_op i n s) = (srv s)\<lparr>sys_net := behind (\<lambda>j. waiting (loops s j)) n\<rparr>"
  by (simp add: flat_def after_op_def deliver_def behind_def emptied_def)

lemma after_op_inv:
  assumes "http_inv cb (flat (after_op i n s))" and "\<forall>j. disp_inv (loops s j)"
    and "in_callback (phase (loops s i))" and "\<not> self_owing (loops s i)"
  shows "whole_inv cb (after_op i n s)"
proof -
  have "disp_inv (post (j = i) ts (loops s j))" for j ts
    by (rule post_inv) (use assms(2-4) in auto)
  with assms(1) show ?thesis by (simp add: whole_inv_def after_op_def deliver_def emptied_def)
qed

section \<open>The loops implement the server\<close>

text \<open>One step of a loop or of a handler is one step of the server with abstract queues, or none.\<close>

lemma call_step:
  assumes inv: "whole_inv cb s" and ph: "phase (loops s i) = Running (t # ts)" "\<not> self_owing (loops s i)"
    and d: "call_pending (\<lambda>f. Inr) t (disp (loops s i)) = Inr d"
    and run: "run_net_task (Some OnConnection) i t (sys_net (srv s)) = Inr n"
    and s': "s' = s\<lparr>loops := (loops s)(i := (loops s i)\<lparr>disp := d, phase := Running ts\<rparr>)\<rparr>"
  shows "http_step cb (flat s) (flat (after_op i n s')) \<and> (\<forall>j. disp_inv (loops s' j))"
proof -
  let ?l = "(loops s i)\<lparr>disp := d, phase := Running ts\<rparr>"
  have di: "disp_inv (loops s j)" for j using inv by (simp add: whole_inv_def)
  have "disp_inv ?l" using disp_step_inv[OF disp_step.run[OF ph d] di] .
  then have 1: "\<forall>j. disp_inv (loops s' j)" using di s' by simp
  have w: "waiting (loops s i) = t # waiting ?l" using ph(1) d by (auto simp: waiting_def in_flight_def call_pending_def)
  let ?W = "(\<lambda>j. waiting (loops s j))(i := waiting ?l)"
  have "net_queues (sys_net (srv s)) = (\<lambda>_. [])" using inv by (simp add: whole_inv_def)
  then have q: "(sys_net (flat s))\<lparr>net_queues := (net_queues (sys_net (flat s)))(i := waiting ?l)\<rparr> = behind ?W (sys_net (srv s))"
    "net_queues (sys_net (flat s)) i = t # waiting ?l"
    using w by (auto simp: behind_def fun_eq_iff)
  have "run_net_task (Some OnConnection) i t (behind ?W (sys_net (srv s))) = Inr (behind ?W n)"
    using run by (simp add: run_net_task_behind)
  from http_step.task[OF q(2), of "behind ?W n" cb] this have
    "http_step cb (flat s) ((flat s)\<lparr>sys_net := behind ?W n\<rparr>)" unfolding q(1) by simp
  moreover have "(\<lambda>j. waiting (loops s' j)) = ?W" using s' by auto
  then have "flat (after_op i n s') = (flat s)\<lparr>sys_net := behind ?W n\<rparr>"
    unfolding flat_after_op using s' by (simp add: flat_def)
  ultimately show ?thesis using 1 by simp
qed

lemma op_step:
  assumes inv: "whole_inv cb s" and "handling i s"
    and "http_step cb (flat s) ((flat s)\<lparr>sys_net := behind (\<lambda>j. waiting (loops s j)) n\<rparr>)"
  shows "http_step cb (flat s) (flat (after_op i n s)) \<and> whole_inv cb (after_op i n s)"
proof -
  have h: "http_inv cb (flat s)" "\<forall>i. disp_inv (loops s i)" using inv by (simp_all add: whole_inv_def)
  have "http_step cb (flat s) (flat (after_op i n s))" unfolding flat_after_op using assms(3) by (simp add: flat_def)
  with after_op_inv[of cb i n s] http_step_inv[OF _ h(1)] h(2) assms(2) show ?thesis by (auto simp: handling_def)
qed

text \<open>The data path of one connection posts nothing.\<close>

lemma own_step:
  assumes inv: "whole_inv cb s" and t: "t = s\<lparr>srv := (srv s)\<lparr>sys_net := set_conn k c (sys_net (srv s)), chunks := ch\<rparr>\<rparr>"
    and "http_step cb (flat s) ((flat s)\<lparr>sys_net := set_conn k c (sys_net (flat s)), chunks := ch\<rparr>)"
  shows "(flat t = flat s \<or> http_step cb (flat s) (flat t)) \<and> whole_inv cb t"
proof -
  have h: "http_inv cb (flat s)" using inv by (simp add: whole_inv_def)
  have e: "flat t = (flat s)\<lparr>sys_net := set_conn k c (sys_net (flat s)), chunks := ch\<rparr>"
    using t by (simp add: flat_def set_conn_def)
  have 1: "http_step cb (flat s) (flat t)" unfolding e by (rule assms(3))
  have "loops t = loops s" "net_queues (sys_net (srv t)) = net_queues (sys_net (srv s))"
    using t by (simp_all add: set_conn_def)
  with 1 http_step_inv[OF 1 h] inv show ?thesis by (auto simp: whole_inv_def)
qed

lemma loop_step_flat:
  assumes inv: "whole_inv cb s" and l: "disp_step (loops s i) l" "queued l = queued (loops s i)"
    "ran (disp l) = ran (disp (loops s i))"
  shows "flat (s\<lparr>loops := (loops s)(i := l)\<rparr>) = flat s" and "whole_inv cb (s\<lparr>loops := (loops s)(i := l)\<rparr>)"
proof -
  let ?t = "s\<lparr>loops := (loops s)(i := l)\<rparr>"
  have di: "disp_inv (loops s i)" using inv by (simp add: whole_inv_def)
  have "(\<lambda>j. waiting (loops ?t j)) = (\<lambda>j. waiting (loops s j))" using loop_step_waiting[OF di l] by auto
  then show f: "flat ?t = flat s" by (simp add: flat_def)
  show "whole_inv cb ?t" using f inv disp_step_inv[OF l(1) di] by (simp add: whole_inv_def)
qed

lemma server_step_flat:
  assumes "server_step cb s t" and inv: "whole_inv cb s"
  shows "(flat t = flat s \<or> http_step cb (flat s) (flat t)) \<and> whole_inv cb t"
proof -
  let ?W = "\<lambda>j. waiting (loops s j)"
  have h: "http_inv cb (flat s)" using inv by (simp add: whole_inv_def)
  from assms(1) show ?thesis
  proof cases
    case (loop i l)
    with loop_step_flat[OF inv loop(2,3,4)] show ?thesis by simp
  next
    case (call i x ts d n)
    note c = call_step[OF inv call(2,3,4,5) refl]
    from http_step_inv[OF _ h] c after_op_inv[of cb i n] call(1,3) show ?thesis by auto
  next
    case (accept fd n)
    have "NewConnection (Some OnConnection) False 0 fd (sys_net (flat s)) = Inr (behind ?W n)"
      using accept(3) by (simp add: accept_behind)
    from op_step[OF inv accept(2) http_step.accept[OF this]] accept(1) show ?thesis by simp
  next
    case (close k n)
    have "close_conn (Some OnConnection) k (sys_net (flat s)) = Inr (behind ?W n)"
      using close(5) by (simp add: close_behind)
    from op_step[OF inv close(3) http_step.close[OF _ _ this]] close(1,2,4) show ?thesis by simp
  next
    case (message k readv wr chunk c)
    from http_step.message[of k "flat s" readv wr chunk cb c] message
    show ?thesis by (intro own_step[OF inv, where k = k and c = c]) simp_all
  next
    case (writable k wr c)
    have e: "(flat s)\<lparr>sys_net := x, chunks := chunks (srv s)\<rparr> = (flat s)\<lparr>sys_net := x\<rparr>" for x by (simp add: flat_def)
    have "http_step cb (flat s)
        ((flat s)\<lparr>sys_net := set_conn k c (sys_net (flat s)), chunks := chunks (srv s)\<rparr>)"
      unfolding e by (rule http_step.writable) (use writable in simp_all)
    then show ?thesis using writable(1) by (intro own_step[OF inv, where k = k and c = c and ch = "chunks (srv s)"]) simp_all
  qed
qed

text \<open>The server on its loops implements the server with abstract queues, and so the life of its connections.\<close>

interpretation loops: step_refinement "server_step cb" "whole_inv cb" flat "http_step cb"
  by unfold_locales (use server_step_flat in \<open>metis r_into_rtranclp rtranclp.rtrancl_refl\<close>)+

lemma flat_init: "flat (server_init name threads) = http_init name threads"
  by (simp add: flat_def server_init_def http_init_def behind_def waiting_def disp_init_def in_flight_def net_init_def)

lemma whole_init: "small_bodies cb \<Longrightarrow> whole_inv cb (server_init name threads)"
  using http_init_inv[of cb name threads] flat_init[of name threads]
  by (simp add: whole_inv_def server_init_def http_init_def net_init_def)

section \<open>The whole server\<close>

lemma reach_flat:
  assumes "(server_step cb)\<^sup>*\<^sup>* (server_init name threads) s" and "small_bodies cb"
  shows "whole_inv cb s" "(http_step cb)\<^sup>*\<^sup>* (http_init name threads) (flat s)"
  using loops.good_reach[OF assms(1) whole_init[OF assms(2)]]
    loops.view_reach[OF assms(1) whole_init[OF assms(2)]] by (simp_all add: flat_init)

lemma loop_alarm:
  assumes "disp_inv l" and "phase l = Polling" and "owing l = 0" and "waiting l \<noteq> []"
  shows "0 < wakeup_count (disp l)"
  using assms by (auto simp: disp_inv_def alarmed_def waiting_def in_flight_def)

text \<open>A queued function that is called succeeds, whatever the other loops do.\<close>

lemma called_succeeds:
  assumes inv: "whole_inv cb s" and ph: "phase (loops s i) = Running (t # ts)"
  shows "\<exists>n. run_net_task (Some OnConnection) i t (sys_net (srv s)) = Inr n"
proof -
  have n: "net_inv (sys_net (flat s))" using inv by (simp add: whole_inv_def http_inv_def)
  have "net_queues (sys_net (srv s)) = (\<lambda>_. [])" using inv by (simp add: whole_inv_def)
  then have q: "net_queues (sys_net (flat s)) i = t # (ts @ pending_funcs (disp (loops s i)))"
    using ph by (simp add: waiting_def in_flight_def)
  let ?q = "(net_queues (sys_net (flat s)))(i := ts @ pending_funcs (disp (loops s i)))"
  from task_ok[OF n q OnConnection_ok] obtain n' where
    "run_net_task (Some OnConnection) i t ((sys_net (flat s))\<lparr>net_queues := ?q\<rparr>) = Inr n'" by blast
  moreover have "(sys_net (flat s))\<lparr>net_queues := ?q\<rparr> = behind ?q (sys_net (srv s))"
    using \<open>net_queues (sys_net (srv s)) = (\<lambda>_. [])\<close> by (simp add: behind_def fun_upd_def)
  ultimately show ?thesis
    by (cases "run_net_task (Some OnConnection) i t (sys_net (srv s))") (simp_all add: run_net_task_behind)
qed

text \<open>
  Claim C1. The whole server works on its event loops: in every interleaving of all loops, with each lock, flag, wakeup and poll
  of a dispatcher as a step of its own, the server behaves as the one with abstract queues, so that all that is proved of
  that one holds; a loop that is about to block while a function waits for it finds its wakeup descriptor readable as soon as nobody
  owes it a wakeup; the function that a loop calls next never fails; and the bytes a client receives are the reply to its
  own input.
\<close>

theorem whole_server:
  assumes "(server_step cb)\<^sup>*\<^sup>* (server_init name threads) s" and "small_bodies cb"
  shows "(http_step cb)\<^sup>*\<^sup>* (http_init name threads) (flat s)
     \<and> (\<forall>i. phase (loops s i) = Polling \<and> owing (loops s i) = 0 \<and> waiting (loops s i) \<noteq> [] \<longrightarrow>
          0 < wakeup_count (disp (loops s i)))
     \<and> (\<forall>i t ts. phase (loops s i) = Running (t # ts) \<longrightarrow>
          (\<exists>n. run_net_task (Some OnConnection) i t (sys_net (srv s)) = Inr n))
     \<and> (\<forall>k<num_conns (sys_net (srv s)).
          map_option fst (replay cb (chunks (srv s) k) [] dialogue_init)
            = Some (outgoing (conns (sys_net (srv s)) k)))"
proof -
  note r = reach_flat[OF assms]
  have h: "http_inv cb (flat s)" "\<forall>i. disp_inv (loops s i)" using r(1) by (simp_all add: whole_inv_def)
  have "map_option fst (replay cb (chunks (srv s) k) [] dialogue_init) = Some (outgoing (conns (sys_net (srv s)) k))"
    if "k < num_conns (sys_net (srv s))" for k
    using isolated[OF h(1) _ refl, of k] that by (simp add: outgoing_def)
  with r(2) h(2) loop_alarm called_succeeds[OF r(1)] show ?thesis by blast
qed

section \<open>A turn of one loop\<close>

text \<open>What a queued function has achieved once it was called.\<close>

fun achieved :: "net_task \<Rightarrow> net \<Rightarrow> bool" where
  "achieved (EstablishTask k) n = (conn_state (conns n k) = CONNECTED \<and> cares_read (conn_handler (conns n k)))"
| "achieved (RemoveTask k) n = True"
| "achieved (DestroyTask k) n = (conn_state (conns n k) = DISCONNECTED)"

lemma established_open:
  "set_connection_established same (Some OnConnection) c = Inr c' \<Longrightarrow>
     conn_state c' = CONNECTED \<and> cares_read (conn_handler c')"
  by (auto simp: set_connection_established_def in_loop_def user_call_def OnConnection_def is_connected_def
      set_context_def split: if_splits)

lemma destroyed_dead: "set_connection_destroyed same (Some OnConnection) c = Inr c' \<Longrightarrow> conn_state c' = DISCONNECTED"
  by (auto simp: set_connection_destroyed_def in_loop_def user_call_def OnConnection_def is_connected_def split: if_splits)

lemma task_achieves: "run_net_task (Some OnConnection) i t n = Inr n' \<Longrightarrow> achieved t n'"
  by (cases t) (auto simp: on_conn_object_def rbind_Inr_iff dest: established_open destroyed_dead)

text \<open>Nothing is queued for a connection that is open or dead, so no other queued function undoes it.\<close>

lemma settled:
  assumes "net_inv n" and "k < num_conns n" and "t \<in> set (net_queues n j)"
    and "conn_state (conns n k) = DISCONNECTED \<or> cares_read (conn_handler (conns n k))"
  shows "k \<noteq> task_conn t"
proof
  assume k: "k = task_conn t"
  from net_inv_others[OF assms(1,2)] obtain st where st: "stage_ok n k st" .
  have "conn_ok st (conns n k)" using st by (simp add: stage_ok_def)
  then have "st \<in> {SOpen, SClosed}" using assms(4) by (cases st) auto
  then have "expected st (conn_disp n k) j t = 0" by (cases t) auto
  then have "count_list (net_queues n j) t = 0" using st k by (simp add: stage_ok_def tasks_ok_def)
  then show False using assms(3) by (simp add: count_list_0_iff)
qed

lemma achieved_stays:
  assumes inv: "net_inv m" and q: "t \<in> set (net_queues m i)" and "task_conn u < num_conns m" and "achieved u n"
    and same: "conns m = conns n" and run: "run_net_task (Some OnConnection) i t n = Inr n'"
  shows "achieved u n'"
proof (cases "\<exists>k. u = RemoveTask k")
  case False
  then have "conn_state (conns m (task_conn u)) = DISCONNECTED \<or> cares_read (conn_handler (conns m (task_conn u)))"
    using assms(4) same by (cases u) auto
  from run_net_task_frame[OF run settled[OF inv assms(3) q this]] assms(4) show ?thesis by (cases u) auto
qed auto

text \<open>One function of the batch, with the wakeup it may owe its own loop.\<close>

lemma call_one:
  assumes inv: "whole_inv cb s" and ph: "phase (loops s i) = Running (t # ts)" and ns: "\<not> self_owing (loops s i)"
  shows "\<exists>n s'. run_net_task (Some OnConnection) i t (sys_net (srv s)) = Inr n \<and> (server_step cb)\<^sup>*\<^sup>* s s'
     \<and> phase (loops s' i) = Running ts \<and> \<not> self_owing (loops s' i)
     \<and> ran (disp (loops s' i)) = ran (disp (loops s i)) @ [t] \<and> srv s' = (srv s)\<lparr>sys_net := emptied n\<rparr>"
proof -
  obtain n where n: "run_net_task (Some OnConnection) i t (sys_net (srv s)) = Inr n" using called_succeeds[OF inv ph] by blast
  let ?d = "(disp (loops s i))\<lparr>ran := ran (disp (loops s i)) @ [t]\<rparr>"
  have d: "call_pending (\<lambda>f. Inr) t (disp (loops s i)) = Inr ?d" by (simp add: call_pending_def)
  let ?s = "after_op i n (s\<lparr>loops := (loops s)(i := (loops s i)\<lparr>disp := ?d, phase := Running ts\<rparr>)\<rparr>)"
  have st: "server_step cb s ?s" using server_step.call[OF ph ns d n] .
  have q: "phase (loops ?s i) = Running ts" "ran (disp (loops ?s i)) = ran (disp (loops s i)) @ [t]"
    "srv ?s = (srv s)\<lparr>sys_net := emptied n\<rparr>" by (simp_all add: after_op_def deliver_def)
  show ?thesis
  proof (cases "self_owing (loops ?s i)")
    case False
    with st q n show ?thesis by blast
  next
    case True
    let ?l = "(loops ?s i)\<lparr>disp := Wakeup 1 (disp (loops ?s i)), self_owing := False\<rparr>"
    have "disp_step (loops ?s i) ?l" by (rule disp_step.callback_wake[OF True]) (simp add: wakeup_value_def)
    then have "server_step cb ?s (?s\<lparr>loops := (loops ?s)(i := ?l)\<rparr>)"
      by (rule server_step.loop) (simp_all add: Wakeup_def)
    with st have "(server_step cb)\<^sup>*\<^sup>* s (?s\<lparr>loops := (loops ?s)(i := ?l)\<rparr>)" by (meson r_into_rtranclp rtranclp.rtrancl_into_rtrancl)
    with q n show ?thesis by (intro exI[of _ n] exI[of _ "?s\<lparr>loops := (loops ?s)(i := ?l)\<rparr>"]) (simp add: Wakeup_def)
  qed
qed

text \<open>The whole batch.\<close>

lemma run_tasks:
  assumes "whole_inv cb s" and "phase (loops s i) = Running ts" and "\<not> self_owing (loops s i)"
    and "\<forall>u\<in>set us. task_conn u < num_conns (sys_net (srv s)) \<and> achieved u (sys_net (srv s))"
  shows "\<exists>s'. (server_step cb)\<^sup>*\<^sup>* s s' \<and> phase (loops s' i) = Running [] \<and> \<not> self_owing (loops s' i)
     \<and> ran (disp (loops s' i)) = ran (disp (loops s i)) @ ts \<and> chunks (srv s') = chunks (srv s)
     \<and> (\<forall>u\<in>set (us @ ts). achieved u (sys_net (srv s')))"
  using assms
proof (induction ts arbitrary: s us)
  case Nil
  then show ?case by (intro exI[of _ s]) simp
next
  case (Cons t ts)
  from call_one[OF Cons.prems(1-3)] obtain n s1 where
    n: "run_net_task (Some OnConnection) i t (sys_net (srv s)) = Inr n" and
    s1: "(server_step cb)\<^sup>*\<^sup>* s s1" "phase (loops s1 i) = Running ts" "\<not> self_owing (loops s1 i)"
      "ran (disp (loops s1 i)) = ran (disp (loops s i)) @ [t]" "srv s1 = (srv s)\<lparr>sys_net := emptied n\<rparr>" by blast
  have inv1: "whole_inv cb s1" using loops.good_reach[OF s1(1) Cons.prems(1)] .
  have net: "net_inv (sys_net (flat s))" using Cons.prems(1) by (simp add: whole_inv_def http_inv_def)
  have tq: "t \<in> set (net_queues (sys_net (flat s)) i)" using Cons.prems(2) by (simp add: waiting_def in_flight_def)
  have tk: "task_conn t < num_conns (sys_net (srv s))" using net tq unfolding net_inv_def by fastforce
  have num: "num_conns n = num_conns (sys_net (srv s))" using n
    by (cases t) (auto simp: on_conn_object_def rbind_Inr_iff dest: remove_frame)
  have eq: "achieved u (emptied n) = achieved u n" for u by (cases u) (simp_all add: emptied_def)
  have "achieved u n" if "u \<in> set us" for u
    using achieved_stays[OF net tq _ _ _ n, of u] Cons.prems(4) that by simp
  then have "\<forall>u\<in>set (us @ [t]). task_conn u < num_conns (sys_net (srv s1)) \<and> achieved u (sys_net (srv s1))"
    using Cons.prems(4) tk num task_achieves[OF n] s1(5) eq by (auto simp: emptied_def)
  from Cons.IH[OF inv1 s1(2,3) this] obtain s' where
    s': "(server_step cb)\<^sup>*\<^sup>* s1 s'" "phase (loops s' i) = Running []" "\<not> self_owing (loops s' i)"
      "ran (disp (loops s' i)) = ran (disp (loops s1 i)) @ ts" "chunks (srv s') = chunks (srv s1)"
      "\<forall>u\<in>set ((us @ [t]) @ ts). achieved u (sys_net (srv s'))" by blast
  show ?case using rtranclp_trans[OF s1(1) s'(1)] s' s1 by (intro exI[of _ s']) simp
qed

text \<open>Steps of a dispatcher that neither queue nor call a function.\<close>

definition quiet :: "net_task dsys \<Rightarrow> net_task dsys \<Rightarrow> bool" where
  "quiet l l' = (disp_step l l' \<and> queued l' = queued l \<and> ran (disp l') = ran (disp l))"

lemma quietI: "disp_step l l' \<Longrightarrow> queued l' = queued l \<Longrightarrow> ran (disp l') = ran (disp l) \<Longrightarrow> quiet l l'"
  by (simp add: quiet_def)

lemma quiet_reach: "quiet\<^sup>*\<^sup>* l l' \<Longrightarrow> loops s i = l \<Longrightarrow> (server_step cb)\<^sup>*\<^sup>* s (s\<lparr>loops := (loops s)(i := l')\<rparr>)"
proof (induction rule: rtranclp_induct)
  case base
  then show ?case by (simp add: fun_upd_idem)
next
  case (step l1 l2)
  have "server_step cb (s\<lparr>loops := (loops s)(i := l1)\<rparr>) (s\<lparr>loops := (loops s)(i := l2)\<rparr>)"
    using server_step.loop[of "s\<lparr>loops := (loops s)(i := l1)\<rparr>" i l2 cb] step.hyps(2) by (simp add: quiet_def)
  with step.IH[OF step.prems] show ?case by (rule rtranclp.rtrancl_into_rtrancl)
qed

text \<open>From the poll to the batch.\<close>

lemma quiet_batch:
  assumes inv: "disp_inv l" and ph: "phase l = Polling"
  shows "\<exists>l'. quiet\<^sup>*\<^sup>* l l' \<and> phase l' = Running (waiting l) \<and> \<not> self_owing l' \<and> ran (disp l') = ran (disp l)
     \<and> quit (disp l') = quit (disp l)"
proof -
  have ns: "\<not> self_owing l" using inv ph by (auto simp: disp_inv_def)
  let ?l1 = "l\<lparr>phase := Handling\<rparr>"
  let ?l2 = "?l1\<lparr>disp := (disp ?l1)\<lparr>in_calling_pending_funcs := True\<rparr>, phase := Calling\<rparr>"
  let ?l3 = "?l2\<lparr>disp := (disp ?l2)\<lparr>pending_funcs := []\<rparr>, phase := Running (pending_funcs (disp l))\<rparr>"
  have "quiet l ?l1" by (rule quietI[OF disp_step.select[OF ph]]) simp_all
  moreover have "quiet ?l1 ?l2" by (rule quietI[OF disp_step.execute]) (use ns in simp_all)
  moreover have "quiet ?l2 ?l3" by (rule quietI[OF disp_step.swap]) (simp_all add: take_pending_def)
  ultimately have "quiet\<^sup>*\<^sup>* l ?l3" by (meson r_into_rtranclp rtranclp_trans)
  moreover have "waiting l = pending_funcs (disp l)" using ph by (simp add: waiting_def in_flight_def)
  ultimately show ?thesis using ns by (intro exI[of _ ?l3]) simp
qed

lemma quiet_next:
  assumes ph: "phase l = Running []" and ns: "\<not> self_owing l" and "\<not> quit (disp l)"
  shows "\<exists>l'. quiet\<^sup>*\<^sup>* l l' \<and> phase l' = Polling"
proof -
  let ?l1 = "l\<lparr>disp := (disp l)\<lparr>in_calling_pending_funcs := False\<rparr>, phase := Head\<rparr>"
  have "quiet l ?l1" by (rule quietI[OF disp_step.finish[OF ph ns]]) simp_all
  moreover have "quiet ?l1 (?l1\<lparr>phase := Polling\<rparr>)" by (rule quietI[OF disp_step.poll]) (use assms(3) in simp_all)
  ultimately have "quiet\<^sup>*\<^sup>* l (?l1\<lparr>phase := Polling\<rparr>)" by (meson r_into_rtranclp rtranclp_trans)
  then show ?thesis by (intro exI[of _ "?l1\<lparr>phase := Polling\<rparr>"]) simp
qed

lemma start_batch:
  assumes inv: "whole_inv cb s" and ph: "phase (loops s i) = Polling"
  shows "\<exists>s'. (server_step cb)\<^sup>*\<^sup>* s s' \<and> phase (loops s' i) = Running (waiting (loops s i)) \<and> \<not> self_owing (loops s' i)
     \<and> ran (disp (loops s' i)) = ran (disp (loops s i)) \<and> srv s' = srv s"
proof -
  have "disp_inv (loops s i)" using inv by (simp add: whole_inv_def)
  from quiet_batch[OF this ph] obtain l where l: "quiet\<^sup>*\<^sup>* (loops s i) l" "phase l = Running (waiting (loops s i))" "\<not> self_owing l"
    "ran (disp l) = ran (disp (loops s i))" by blast
  from quiet_reach[OF l(1) refl] l(2-4) show ?thesis by (intro exI[of _ "s\<lparr>loops := (loops s)(i := l)\<rparr>"]) simp
qed


section \<open>A run\<close>

text \<open>Both loops start; the acceptor's loop accepts a connection for the other one, which polls.\<close>

definition demo_loop :: "nat \<Rightarrow> net_task phase \<Rightarrow> net_task dsys" where
  "demo_loop i ph = (disp_init (int i))\<lparr>disp := (disp (disp_init (int i)))\<lparr>looping := True\<rparr>, phase := ph\<rparr>"

lemma demo_loop_starts: "quiet\<^sup>*\<^sup>* (disp_init (int i)) (demo_loop i Polling)" "quiet\<^sup>*\<^sup>* (disp_init (int i)) (demo_loop i Handling)"
proof -
  let ?l0 = "disp_init (int i) :: net_task dsys"
  let ?l1 = "?l0\<lparr>phase := Starting\<rparr>"
  let ?l2 = "?l1\<lparr>disp := (disp ?l1)\<lparr>looping := True, quit := False\<rparr>, phase := Head\<rparr>"
  have "quiet ?l0 ?l1" by (rule quietI[OF disp_step.check]) (simp_all add: disp_init_def)
  moreover have "quiet ?l1 ?l2" by (rule quietI[OF disp_step.set_flags]) simp_all
  moreover have "quiet ?l2 (demo_loop i Polling)"
    using disp_step.poll[of ?l2] by (simp add: quiet_def demo_loop_def disp_init_def)
  ultimately show p: "quiet\<^sup>*\<^sup>* ?l0 (demo_loop i Polling)" by (meson r_into_rtranclp rtranclp_trans)
  have "quiet (demo_loop i Polling) (demo_loop i Handling)"
    using disp_step.select[of "demo_loop i Polling"] by (simp add: quiet_def demo_loop_def)
  with p show "quiet\<^sup>*\<^sup>* ?l0 (demo_loop i Handling)" by (rule rtranclp.rtrancl_into_rtrancl)
qed

lemma demo_accept: "\<exists>n. NewConnection (Some OnConnection) False 0 7 (net_init ''s'' 1) = Inr n \<and> num_conns n = 1
    \<and> net_queues n = (\<lambda>j. if j = 1 then [EstablishTask 0] else []) \<and> conn_disp n 0 = 1"
proof -
  have "get_next_dispatcher True (started_pool 1) = Inr (1, (started_pool 1)\<lparr>next_index := 0\<rparr>)"
    by (simp add: get_next_dispatcher_def AssertInLoopThread_def started_pool_def upt_rec_numeral)
  then show ?thesis
    by (simp add: NewConnection_def AssertInLoopThread_def net_init_def Let_def run_in_loop_def queue_net_def fun_eq_iff)
qed

definition demo_ready :: server_sys where
  "demo_ready = (server_init ''s'' 1)\<lparr>loops := (loops (server_init ''s'' 1))(1 := demo_loop 1 Polling, 0 := demo_loop 0 Handling)\<rparr>"

lemma demo_ready_reached: "(server_step cb)\<^sup>*\<^sup>* (server_init ''s'' 1) demo_ready"
proof -
  let ?s0 = "server_init ''s'' 1"
  let ?s1 = "?s0\<lparr>loops := (loops ?s0)(1 := demo_loop 1 Polling)\<rparr>"
  have a1: "(server_step cb)\<^sup>*\<^sup>* ?s0 ?s1" by (rule quiet_reach[OF demo_loop_starts(1)]) (simp add: server_init_def)
  have "(server_step cb)\<^sup>*\<^sup>* ?s1 (?s1\<lparr>loops := (loops ?s1)(0 := demo_loop 0 Handling)\<rparr>)"
    by (rule quiet_reach[OF demo_loop_starts(2)]) (simp add: server_init_def)
  with a1 show ?thesis by (simp add: demo_ready_def)
qed

lemma demo_handles: "handling 0 demo_ready" "sys_net (srv demo_ready) = net_init ''s'' 1"
  by (simp_all add: handling_def demo_ready_def demo_loop_def disp_init_def server_init_def http_init_def)

lemma demo_accepts:
  obtains n where "server_step cb demo_ready (after_op 0 n demo_ready)" "num_conns n = 1"
    "net_queues n = (\<lambda>j. if j = 1 then [EstablishTask 0] else [])"
proof -
  obtain n where n: "NewConnection (Some OnConnection) False 0 7 (net_init ''s'' 1) = Inr n" "num_conns n = 1"
    "net_queues n = (\<lambda>j. if j = 1 then [EstablishTask 0] else [])" using demo_accept by blast
  have "server_step cb demo_ready (after_op 0 n demo_ready)"
    by (rule server_step.accept[OF demo_handles(1), where fd = 7]) (simp only: demo_handles(2) n(1))
  from that[OF this n(2,3)] show thesis .
qed

lemma demo_server:
  "\<exists>s. (server_step cb)\<^sup>*\<^sup>* (server_init ''s'' 1) s \<and> phase (loops s 1) = Polling \<and> owing (loops s 1) = 0
     \<and> waiting (loops s 1) = [EstablishTask 0] \<and> num_conns (sys_net (srv s)) = 1"
proof -
  obtain n where a3: "server_step cb demo_ready (after_op 0 n demo_ready)" and n: "num_conns n = 1"
    "net_queues n = (\<lambda>j. if j = 1 then [EstablishTask 0] else [])" by (rule demo_accepts)
  let ?s3 = "after_op 0 n demo_ready"
  have l: "loops ?s3 1 = post False [EstablishTask 0] (demo_loop 1 Polling)"
    using n(2) by (simp add: after_op_def deliver_def demo_ready_def)
  let ?l = "(loops ?s3 1)\<lparr>disp := Wakeup 1 (disp (loops ?s3 1)), owing := 0\<rparr>"
  have "quiet (loops ?s3 1) ?l"
    unfolding l by (rule quietI[OF disp_step.other_wake[of _ 0 1]])
      (simp_all add: post_def demo_loop_def disp_init_def wakeup_value_def Wakeup_def)
  then have "quiet\<^sup>*\<^sup>* (loops ?s3 1) ?l" by (rule r_into_rtranclp)
  then have a4: "(server_step cb)\<^sup>*\<^sup>* ?s3 (?s3\<lparr>loops := (loops ?s3)(1 := ?l)\<rparr>)" by (rule quiet_reach) (rule refl)
  have "(server_step cb)\<^sup>*\<^sup>* (server_init ''s'' 1) (?s3\<lparr>loops := (loops ?s3)(1 := ?l)\<rparr>)"
    by (rule rtranclp_trans[OF demo_ready_reached rtranclp_trans[OF r_into_rtranclp[of "server_step cb", OF a3] a4]])
  moreover have "waiting ?l = [EstablishTask 0]" unfolding l
    by (simp add: waiting_def in_flight_def post_def demo_loop_def disp_init_def Wakeup_def queue_push_def)
  moreover have "phase ?l = Polling" unfolding l by (simp add: demo_loop_def post_def)
  ultimately show ?thesis using n(1)
    by (intro exI[of _ "?s3\<lparr>loops := (loops ?s3)(1 := ?l)\<rparr>"]) (simp add: after_op_def emptied_def)
qed

theorem whole_server_witness:
  "\<exists>s :: server_sys. waiting (loops s 1) = [EstablishTask 0] \<and> 0 < wakeup_count (disp (loops s 1))"
proof -
  obtain s where s: "(server_step demo_callback)\<^sup>*\<^sup>* (server_init ''s'' 1) s" "phase (loops s 1) = Polling"
    "owing (loops s 1) = 0" "waiting (loops s 1) = [EstablishTask 0]" using demo_server by blast
  from whole_server[OF s(1) demo_small] s(2-4) show ?thesis by (intro exI[of _ s]) auto
qed


end
