(* ===== verification/Epoll.thy ===== *)
theory Epoll
  imports LoopSystem
begin

text \<open>
  What the program tells \<^verbatim>\<open>epoll\<close> in the course of the life of a connection, and the end of a connection object:
  \<^verbatim>\<open>~TcpConnection\<close>, \<^verbatim>\<open>~EventHandler\<close> and \<^verbatim>\<open>~Socket\<close>. The kernel is a parameter with the laws of its manual page. The
  program ignores the errors of \<^verbatim>\<open>epoll_ctl\<close> but for a log line; the claim is that there are none, in no interleaving.
\<close>

section \<open>What the kernel promises\<close>

text \<open>
  \<open>ctl op fd v e\<close> is \<^verbatim>\<open>epoll_ctl\<close> on the interest list \<open>e\<close>, an error number or the new list, and \<open>watch e fd\<close> is what is registered for a
  descriptor: its mask, or its mask and the pointer to its handler. A descriptor is added once; only one that is there can be modified or deleted.
\<close>

type_synonym ('v, 'e) ctl_fun = "ctl_op \<Rightarrow> int \<Rightarrow> 'v \<Rightarrow> 'e \<Rightarrow> int + 'e"

definition epoll_ok :: "('v, 'e) ctl_fun \<Rightarrow> ('e \<Rightarrow> int \<Rightarrow> 'v option) \<Rightarrow> bool" where
  "epoll_ok ctl watch = (\<forall>e fd m.
     (if watch e fd = None
      then \<exists>e'. ctl CTL_ADD fd m e = Inr e' \<and> watch e' = (watch e)(fd \<mapsto> m)
      else (\<exists>e'. ctl CTL_MOD fd m e = Inr e' \<and> watch e' = (watch e)(fd \<mapsto> m))
         \<and> (\<exists>e'. ctl CTL_DEL fd m e = Inr e' \<and> watch e' = (watch e)(fd := None))))"

text \<open>The requests made for a handler, up to the first one that fails.\<close>

fun play :: "('v, 'e) ctl_fun \<Rightarrow> (ctl_op \<times> int \<times> 'v) list \<Rightarrow> 'e \<Rightarrow> int + 'e" where
  "play ctl [] e = Inr e"
| "play ctl ((op, fd, m) # rs) e = (case ctl op fd m e of Inl err \<Rightarrow> Inl err | Inr e' \<Rightarrow> play ctl rs e')"

lemma play_append: "play ctl (rs @ rs') e = (case play ctl rs e of Inl err \<Rightarrow> Inl err | Inr e' \<Rightarrow> play ctl rs' e')"
  by (induction ctl rs e rule: play.induct) (auto split: sum.splits)

lemma play_modify:
  assumes "epoll_ok ctl watch"
  shows "watch e fd = Some m \<Longrightarrow>
    \<exists>e'. play ctl (map (\<lambda>m. (CTL_MOD, fd, m)) ms) e = Inr e' \<and> watch e' = (watch e)(fd \<mapsto> last (m # ms))"
proof (induction ms arbitrary: e m)
  case (Cons m' ms)
  from assms Cons.prems obtain e1 where e1: "ctl CTL_MOD fd m' e = Inr e1" "watch e1 = (watch e)(fd \<mapsto> m')"
    unfolding epoll_ok_def by (metis option.distinct(1))
  with Cons.IH[of e1 m'] show ?case by (auto simp: fun_eq_iff)
qed (auto simp: fun_upd_idem)

section \<open>The destructors\<close>

text \<open>A handler must not be destroyed while it handles an event; a socket closes its descriptor, and the result is only logged.\<close>

definition EventHandler_delete :: "event_handler \<Rightarrow> 'a \<Rightarrow> 'a res" where
  "EventHandler_delete h x = assert_then (\<not> eh_handling h) (Inr x)"

definition Socket_delete :: "(int \<Rightarrow> 'e \<Rightarrow> int \<times> 'e) \<Rightarrow> int \<Rightarrow> 'e \<Rightarrow> 'e" where
  "Socket_delete close_fd fd e = (case close_fd fd e of (ret, e') \<Rightarrow> e')"

text \<open>The members are destroyed in reverse order, so the descriptor is closed after the handler is gone.\<close>

definition TcpConnection_delete :: "(int \<Rightarrow> 'e \<Rightarrow> int \<times> 'e) \<Rightarrow> tcp_conn \<Rightarrow> 'e \<Rightarrow> 'e res" where
  "TcpConnection_delete close_fd c e =
     rbind (EventHandler_delete (conn_handler c) e) (\<lambda>e. Inr (Socket_delete close_fd (eh_fd (conn_handler c)) e))"

section \<open>Handlers that the kernel agrees with\<close>

text \<open>
  The type of a handler, in the sense that every operation keeps it: one request that adds its descriptor with an empty
  mask, then one per change of interest, the last one with the mask it holds now, which is one of four. Once the connection
  is dead two more have been made, for an empty mask and to delete the descriptor.
\<close>

definition watched :: "event_handler \<Rightarrow> bool" where
  "watched h = (\<exists>ms. eh_ctl h = (CTL_ADD, eh_fd h, kNone) # map (\<lambda>m. (CTL_MOD, eh_fd h, m)) ms
     \<and> eh_events h = last (kNone # ms) \<and> eh_events h \<in> {kNone, kRead, kWrite, kRead OR kWrite} \<and> \<not> eh_handling h)"

definition unwatched :: "event_handler \<Rightarrow> bool" where
  "unwatched h = (\<exists>h0. watched h0 \<and> h = RemoveEventHandler (set_stop_care_all h0))"

definition well_kept :: "tcp_conn \<Rightarrow> bool" where
  "well_kept c = (if conn_state c = DISCONNECTED then unwatched (conn_handler c) else watched (conn_handler c))"

lemma watched_new: "watched (new_handler fd)"
  by (auto simp: watched_def new_handler_def RegisterEventHandler_def UpdataOneEventHandler_def AddEvent_def
      ctl_request_def kNone_def intro: exI[of _ "[]"])

lemma masks_closed:
  assumes "m \<in> {kNone, kRead, kWrite, kRead OR kWrite}"
  shows "m OR kRead \<in> {kNone, kRead, kWrite, kRead OR kWrite}" "m OR kWrite \<in> {kNone, kRead, kWrite, kRead OR kWrite}"
    "m AND NOT kRead \<in> {kNone, kRead, kWrite, kRead OR kWrite}" "m AND NOT kWrite \<in> {kNone, kRead, kWrite, kRead OR kWrite}"
    "m AND kNone \<in> {kNone, kRead, kWrite, kRead OR kWrite}"
  using assms by (auto simp: kNone_def kRead_def kWrite_def)

lemma watched_change:
  assumes "watched h" and "m \<in> {kNone, kRead, kWrite, kRead OR kWrite}"
  shows "watched (change_interest (h\<lparr>eh_events := m\<rparr>))"
proof -
  from assms(1) obtain ms where "eh_ctl h = (CTL_ADD, eh_fd h, kNone) # map (\<lambda>m. (CTL_MOD, eh_fd h, m)) ms" "\<not> eh_handling h"
    by (auto simp: watched_def)
  with assms(2) show ?thesis unfolding watched_def
    by (intro exI[of _ "ms @ [m]"]) (simp add: change_interest_def UpdateEventHandler_def UpdataOneEventHandler_def
        ModifyEvent_def ctl_request_def)
qed

lemma watched_step: "watched h \<Longrightarrow> watched (interest_step x h)"
proof -
  assume w: "watched h"
  then have m: "eh_events h \<in> {kNone, kRead, kWrite, kRead OR kWrite}" by (auto simp: watched_def)
  show "watched (interest_step x h)"
    by (cases x) (use watched_change[OF w] masks_closed[OF m] in
      \<open>simp_all add: set_care_read_def set_care_write_def set_stop_care_read_def set_stop_care_write_def set_stop_care_all_def\<close>)
qed

section \<open>Every operation keeps them\<close>

text \<open>All that happens to the handler of a connection until it is removed: changes of interest.\<close>

definition follows :: "event_handler \<Rightarrow> event_handler \<Rightarrow> bool" where
  "follows h h' = (\<exists>xs. h' = fold interest_step xs h)"

lemma follows_refl [simp]: "follows h h"
  unfolding follows_def by (rule exI[of _ "[]"]) simp

lemma follows_trans: "follows h h1 \<Longrightarrow> follows h1 h2 \<Longrightarrow> follows h h2"
  unfolding follows_def by (metis fold_append comp_apply)

lemma follows_step: "follows h (interest_step x h)"
  unfolding follows_def by (rule exI[of _ "[x]"]) simp

lemmas follows_steps [simp, intro] = follows_step[of _ CareRead, simplified] follows_step[of _ CareWrite, simplified]
  follows_step[of _ StopWrite, simplified] follows_step[of _ StopAll, simplified]

lemma watched_follows: "watched h \<Longrightarrow> follows h h' \<Longrightarrow> watched h'"
proof -
  have "watched h \<Longrightarrow> watched (fold interest_step xs h)" for xs h
    by (induction xs arbitrary: h) (simp_all add: watched_step)
  then show "watched h \<Longrightarrow> follows h h' \<Longrightarrow> watched h'" by (auto simp: follows_def)
qed

lemma send_follows:
  assumes "SendInLoop True wr d c = Inr c'"
  shows "follows (conn_handler c) (conn_handler c')"
proof -
  obtain k c1 where k: "(if \<not> is_care_write (conn_handler c) \<and> payload_size (output_buf c) = 0
      then direct_write wr d c else (0, c)) = (k, c1)" by fastforce
  then have "conn_handler c1 = conn_handler c"
    using direct_write_same[of wr d c k c1] by (auto split: if_splits)
  with assms show ?thesis unfolding SendInLoop_def k
    by (auto simp: buffer_rest_def Let_def rbind_Inr_iff split: if_splits)
qed

lemma ShutDown_handler: "ShutDown True c = Inr c' \<Longrightarrow> conn_handler c' = conn_handler c"
  by (auto simp: ShutDown_def ShutDownInLoop_def Let_def split: if_splits)

interpretation fol: message_effect "\<lambda>c c'. follows (conn_handler c) (conn_handler c')"
  by unfold_locales (auto simp: ShutDown_handler intro: follows_trans send_follows)

lemma write_follows: "HandleWrite wr c = Inr c' \<Longrightarrow> follows (conn_handler c) (conn_handler c')"
  by (auto simp: HandleWrite_def ShutDownInLoop_def Let_def rbind_Inr_iff split: sum.splits if_splits)

lemma close_follows: "HandleClose c = Inr c' \<Longrightarrow> follows (conn_handler c) (conn_handler c') \<and> conn_state c' = conn_state c"
  by (auto simp: HandleClose_def Let_def)

lemma read_follows:
  assumes "on_readable cb readv wr c = Inr c'"
  shows "follows (conn_handler c) (conn_handler c')"
proof -
  from assms obtain r b where rb: "readFd readv (input_buf c) = Inr (r, b)"
    "(case r of Inl err \<Rightarrow> Inr (HandleError (c\<lparr>input_buf := b\<rparr>))
      | Inr n \<Rightarrow> if n > 0 then user_call (Some (message_callback True wr 0 cb)) (c\<lparr>input_buf := b\<rparr>)
          else HandleClose (c\<lparr>input_buf := b\<rparr>)) = Inr c'"
    by (auto simp: on_readable_def HandleRead_def Let_def rbind_Inr_iff)
  show ?thesis
  proof (cases r)
    case (Inl err)
    then have "c' = c\<lparr>input_buf := b\<rparr>" using rb(2) by (simp add: HandleError_def)
    then show ?thesis by simp
  next
    case (Inr n)
    then have "message_callback True wr 0 cb (c\<lparr>input_buf := b\<rparr>) = Inr c' \<or> HandleClose (c\<lparr>input_buf := b\<rparr>) = Inr c'"
      using rb(2) by (auto simp: user_call_def split: if_splits)
    then show ?thesis using fol.callback[of wr 0 cb "c\<lparr>input_buf := b\<rparr>"] close_follows[of "c\<lparr>input_buf := b\<rparr>"] by auto
  qed
qed

lemma opened_follows:
  assumes "set_connection_established same (Some OnConnection) c = Inr c'"
  shows "follows (conn_handler c) (conn_handler c') \<and> conn_state c = CONNECTING \<and> conn_state c' = CONNECTED"
  using assms by (auto simp: set_connection_established_def in_loop_def user_call_def OnConnection_def is_connected_def
      set_context_def split: if_splits)

lemma destroyed_follows:
  assumes "set_connection_destroyed same (Some OnConnection) c = Inr c'"
  shows "conn_handler c' = RemoveEventHandler (set_stop_care_all (conn_handler c)) \<and> conn_state c \<noteq> DISCONNECTED
     \<and> conn_state c' = DISCONNECTED"
  using assms by (auto simp: set_connection_destroyed_def in_loop_def user_call_def OnConnection_def is_connected_def
      split: if_splits)

text \<open>A dead connection wants to write nothing, so a writable event leaves it as it is.\<close>

lemma dead_writes_nothing: "well_kept c \<Longrightarrow> conn_state c = DISCONNECTED \<Longrightarrow> HandleWrite wr c = Inr c' \<Longrightarrow> c' = c"
  by (auto simp: well_kept_def unwatched_def HandleWrite_def)

lemma write_alive: "HandleWrite wr c = Inr c' \<Longrightarrow> conn_state c \<noteq> DISCONNECTED \<Longrightarrow> conn_state c' \<noteq> DISCONNECTED"
  using HandleWrite_activity[of wr c c'] by (auto simp: activity_def)

lemma write_well_kept: "HandleWrite wr c = Inr c' \<Longrightarrow> well_kept c \<Longrightarrow> well_kept c'"
  using dead_writes_nothing[of c wr c'] write_alive[of wr c c'] write_follows[of wr c c'] watched_follows
  by (cases "conn_state c = DISCONNECTED") (auto simp: well_kept_def)

lemma opened_well_kept:
  "set_connection_established same (Some OnConnection) c = Inr c' \<Longrightarrow> well_kept c \<Longrightarrow> well_kept c'"
  using opened_follows[of same c c'] watched_follows by (auto simp: well_kept_def)

lemma destroyed_well_kept:
  "set_connection_destroyed same (Some OnConnection) c = Inr c' \<Longrightarrow> well_kept c \<Longrightarrow> well_kept c'"
  using destroyed_follows[of same c c'] by (auto simp: well_kept_def unwatched_def)

lemma closed_well_kept: "HandleClose c = Inr c' \<Longrightarrow> well_kept c \<Longrightarrow> well_kept c'"
  using close_follows[of c c'] watched_follows by (auto simp: well_kept_def HandleClose_def)

interpretation kept: conn_property "\<lambda>_. well_kept"
  by unfold_locales (auto intro: opened_well_kept destroyed_well_kept closed_well_kept)

definition all_kept :: "http_sys \<Rightarrow> bool" where
  "all_kept s = (\<forall>k<num_conns (sys_net s). well_kept (conns (sys_net s) k))"

lemma all_kept_step:
  assumes "http_step cb s t" and inv: "http_inv cb s" and kept: "all_kept s"
  shows "all_kept t"
  using assms(1)
proof cases
  case (accept fd n)
  have "well_kept (set_write_complete_callback False (TcpConnection_new fd))"
    by (simp add: well_kept_def set_write_complete_callback_def TcpConnection_new_def watched_new)
  from kept.accepted[OF _ this accept(2)] kept accept(1) show ?thesis by (simp add: all_kept_def)
next
  case (task i x ts n)
  from kept.queued[OF _ task(3)] kept task(1) show ?thesis by (simp add: all_kept_def)
next
  case (close k n)
  from kept.closed[OF _ close(4)] kept close(1) show ?thesis by (simp add: all_kept_def)
next
  case (message k readv wr chunk c)
  have net: "net_inv (sys_net s)" and small: "small_bodies cb"
    and conv: "conversation cb (chunks s k) (conns (sys_net s) k)" using inv message(2) by (auto simp: http_inv_def)
  have "activity (conns (sys_net s) k) c"
    using conversation_message[OF conv message(3) small message(4,5,6,7,8)] by blast
  moreover from net_inv_others[OF net message(2)] obtain st where "stage_ok (sys_net s) k st" .
  then have "conn_state (conns (sys_net s) k) \<noteq> DISCONNECTED" using message(3) by (cases st) (auto simp: stage_ok_def)
  ultimately have "well_kept c" using kept message(2) read_follows[OF message(8)] watched_follows
    by (auto simp: all_kept_def well_kept_def activity_def)
  then show ?thesis using kept message(1) by (simp add: all_kept_def set_conn_def)
next
  case (writable k wr c)
  with kept write_well_kept[OF writable(4)] show ?thesis by (simp add: all_kept_def set_conn_def)
qed

interpretation epoll: step_system "http_step cb" "\<lambda>s. http_inv cb s \<and> all_kept s"
  by unfold_locales (use http_step_inv all_kept_step in blast)

section \<open>The kernel follows\<close>

lemma play_watched:
  assumes ok: "epoll_ok ctl watch" and h: "watched h" and free: "watch e (eh_fd h) = None"
  shows "\<exists>e'. play ctl (eh_ctl h) e = Inr e' \<and> watch e' = (watch e)(eh_fd h \<mapsto> eh_events h)"
proof -
  from h obtain ms where ms: "eh_ctl h = (CTL_ADD, eh_fd h, kNone) # map (\<lambda>m. (CTL_MOD, eh_fd h, m)) ms"
    "eh_events h = last (kNone # ms)" by (auto simp: watched_def)
  from ok free obtain e1 where e1: "ctl CTL_ADD (eh_fd h) kNone e = Inr e1" "watch e1 = (watch e)(eh_fd h \<mapsto> kNone)"
    unfolding epoll_ok_def by (meson option.distinct(1))
  from play_modify[OF ok, of e1 "eh_fd h" kNone ms] e1 ms show ?thesis by auto
qed

lemma play_unwatched:
  assumes ok: "epoll_ok ctl watch" and h: "unwatched h" and free: "watch e (eh_fd h) = None"
  shows "\<exists>e'. play ctl (eh_ctl h) e = Inr e' \<and> watch e' = (watch e)(eh_fd h := None)"
proof -
  from h obtain h0 where h0: "watched (set_stop_care_all h0)" "h = RemoveEventHandler (set_stop_care_all h0)"
    using watched_follows[OF _ follows_steps(4)] by (auto simp: unwatched_def)
  let ?h = "set_stop_care_all h0"
  have fd: "eh_fd h = eh_fd ?h" and rs: "eh_ctl h = eh_ctl ?h @ [(CTL_DEL, eh_fd ?h, eh_events ?h)]"
    using h0(2) by (simp_all add: RemoveEventHandler_def UpdataOneEventHandler_def DeleteEvent_def ctl_request_def)
  from play_watched[OF ok h0(1), of e] free fd obtain e1 where
    e1: "play ctl (eh_ctl ?h) e = Inr e1" "watch e1 = (watch e)(eh_fd ?h \<mapsto> eh_events ?h)" by auto
  from ok e1(2) obtain e2 where "ctl CTL_DEL (eh_fd ?h) (eh_events ?h) e1 = Inr e2" "watch e2 = (watch e1)(eh_fd ?h := None)"
    unfolding epoll_ok_def by (metis fun_upd_same option.distinct(1))
  then show ?thesis using e1 by (simp add: rs fd play_append)
qed

lemma kept_handler:
  assumes "well_kept c"
  shows "eh_events (conn_handler c) \<in> {kNone, kRead, kWrite, kRead OR kWrite}" "\<not> eh_handling (conn_handler c)"
proof -
  have r: "eh_events (RemoveEventHandler h) = eh_events h" "eh_handling (RemoveEventHandler h) = eh_handling h" for h
    by (simp_all add: RemoveEventHandler_def UpdataOneEventHandler_def DeleteEvent_def ctl_request_def)
  from assms obtain h where "watched h" "eh_events (conn_handler c) = eh_events h" "eh_handling (conn_handler c) = eh_handling h"
    by (cases "conn_state c = DISCONNECTED") (use r watched_follows[OF _ follows_steps(4)] in \<open>fastforce simp: well_kept_def unwatched_def\<close>)+
  then show "eh_events (conn_handler c) \<in> {kNone, kRead, kWrite, kRead OR kWrite}" "\<not> eh_handling (conn_handler c)"
    unfolding watched_def by auto
qed


definition demo_ctl :: "('v, int \<rightharpoonup> 'v) ctl_fun" where
  "demo_ctl op fd m e = (case op of
     CTL_ADD \<Rightarrow> if e fd = None then Inr (e(fd \<mapsto> m)) else Inl 17
   | CTL_MOD \<Rightarrow> if e fd = None then Inl 2 else Inr (e(fd \<mapsto> m))
   | CTL_DEL \<Rightarrow> if e fd = None then Inl 2 else Inr (e(fd := None)))"

lemma demo_ctl_ok: "epoll_ok demo_ctl (\<lambda>e. e)"
  by (simp add: epoll_ok_def demo_ctl_def)


end
