(* ===== verification/Interest.thy ===== *)
theory Interest
  imports Epoll
begin

text \<open>
  The interest lists of all loops together. Every loop has an \<^verbatim>\<open>epoll\<close> of its own, in which a descriptor carries the
  pointer to its handler; the kernel uses the number of a closed descriptor again. Each step of the server is followed by the
  requests it made: here they are played on the lists, whose entries are a connection and a mask.
\<close>

section \<open>The requests of a step\<close>

abbreviation handler_of :: "net \<Rightarrow> nat \<Rightarrow> event_handler" where
  "handler_of n k \<equiv> conn_handler (conns n k)"

text \<open>What connection \<open>k\<close> has added to its requests since \<open>n\<close>, with the pointer that \<^verbatim>\<open>e_event.data.ptr\<close> holds.\<close>

definition requests :: "net \<Rightarrow> net \<Rightarrow> nat \<Rightarrow> (ctl_op \<times> int \<times> nat \<times> mask) list" where
  "requests n n' k = map (\<lambda>(op, fd, m). (op, fd, (k, m)))
     (drop (if k < num_conns n then length (eh_ctl (handler_of n k)) else 0) (eh_ctl (handler_of n' k)))"

definition loop_requests :: "net \<Rightarrow> net \<Rightarrow> nat \<Rightarrow> (ctl_op \<times> int \<times> nat \<times> mask) list" where
  "loop_requests n n' i = concat (map (requests n n') (filter (\<lambda>k. conn_disp n' k = i) [0..<num_conns n']))"

type_synonym 'e lists = "nat \<Rightarrow> 'e"

definition told :: "(nat \<times> mask, 'e) ctl_fun \<Rightarrow> net \<Rightarrow> net \<Rightarrow> 'e lists \<Rightarrow> 'e lists \<Rightarrow> bool" where
  "told ctl n n' ls ls' = (\<forall>i. play ctl (loop_requests n n' i) (ls i) = Inr (ls' i))"

section \<open>What a step does to the handlers\<close>

text \<open>A step leaves all connections alone, or adds or changes one.\<close>

definition still :: "net \<Rightarrow> net \<Rightarrow> bool" where
  "still n n' = (num_conns n' = num_conns n \<and> (\<forall>j<num_conns n. conns n' j = conns n j \<and> conn_disp n' j = conn_disp n j))"

fun moved_from :: "tcp_conn option \<Rightarrow> tcp_conn \<Rightarrow> bool" where
  "moved_from None c' = (conn_state c' \<noteq> DISCONNECTED \<and> (\<exists>fd. follows (new_handler fd) (conn_handler c')))"
| "moved_from (Some c) c' =
     (if conn_state c = DISCONNECTED then c' = c
      else if conn_state c' \<noteq> DISCONNECTED then follows (conn_handler c) (conn_handler c')
      else conn_handler c' = RemoveEventHandler (set_stop_care_all (conn_handler c)))"

definition moved :: "nat \<Rightarrow> net \<Rightarrow> net \<Rightarrow> bool" where
  "moved k n n' = (k < num_conns n' \<and> num_conns n \<le> num_conns n'
     \<and> (\<forall>j<num_conns n'. j \<noteq> k \<longrightarrow> j < num_conns n \<and> conns n' j = conns n j)
     \<and> (\<forall>j<num_conns n. conn_disp n' j = conn_disp n j)
     \<and> moved_from (if k < num_conns n then Some (conns n k) else None) (conns n' k))"

lemma still_refl [simp]: "still n n"
  by (simp add: still_def)

lemma moved_update:
  "k < num_conns n \<Longrightarrow> moved_from (Some (conns n k)) c \<Longrightarrow> moved k n (n\<lparr>conns := (conns n)(k := c)\<rparr>)"
  by (simp add: moved_def)

lemma moved_queues: "moved k (n\<lparr>net_queues := q\<rparr>) n' = moved k n n'" "still (n\<lparr>net_queues := q\<rparr>) n' = still n n'"
  by (simp_all add: moved_def still_def)

lemma moved_still: "moved k n n1 \<Longrightarrow> still n1 n' \<Longrightarrow> moved k n n'"
  by (simp add: moved_def still_def)

lemma remove_still: "RemoveConnectionInLoop cur k n = Inr n' \<Longrightarrow> still n n'"
  by (auto simp: RemoveConnectionInLoop_def AssertInLoopThread_def queue_net_def still_def rbind_Inr_iff split: if_splits prod.splits)

lemma queue_still [simp]: "still n (queue_net i t n)"
  by (simp add: still_def)

lemma removal_still: "RemoveConnection cb cur k n = Inr n' \<Longrightarrow> still n n'"
  by (auto simp: RemoveConnection_def run_in_loop_def dest: remove_still split: if_splits)

lemma task_moves:
  assumes "run_net_task (Some OnConnection) i t n = Inr n'" and "task_conn t < num_conns n"
  shows "still n n' \<or> moved (task_conn t) n n'"
proof (cases t)
  case (EstablishTask k)
  with assms(1) obtain c where c: "set_connection_established (i = conn_disp n k) (Some OnConnection) (conns n k) = Inr c"
    "n' = n\<lparr>conns := (conns n)(k := c)\<rparr>" by (auto simp: on_conn_object_def rbind_Inr_iff)
  then show ?thesis using opened_follows[OF c(1)] moved_update[of k n c] assms(2) EstablishTask by auto
next
  case (RemoveTask k)
  with assms(1) show ?thesis by (auto dest: remove_still)
next
  case (DestroyTask k)
  with assms(1) obtain c where c: "set_connection_destroyed (i = conn_disp n k) (Some OnConnection) (conns n k) = Inr c"
    "n' = n\<lparr>conns := (conns n)(k := c)\<rparr>" by (auto simp: on_conn_object_def rbind_Inr_iff)
  then show ?thesis using destroyed_follows[OF c(1)] moved_update[of k n c] assms(2) DestroyTask by auto
qed

lemma accept_moves:
  assumes "NewConnection (Some OnConnection) wc 0 fd n = Inr n'"
  shows "moved (num_conns n) n n'"
proof -
  let ?k = "num_conns n" and ?c = "set_write_complete_callback wc (TcpConnection_new fd)"
  from assms obtain n1 io where n1: "run_in_loop (Some OnConnection) 0 io (EstablishTask ?k) n1 = Inr n'"
    "conns n1 = (conns n)(?k := ?c)" "num_conns n1 = Suc ?k" "conn_disp n1 = (conn_disp n)(?k := io)"
    by (auto simp: NewConnection_def AssertInLoopThread_def Let_def rbind_Inr_iff split: if_splits prod.splits)
  have c: "conn_state ?c = CONNECTING" "conn_handler ?c = new_handler fd"
    by (simp_all add: set_write_complete_callback_def TcpConnection_new_def)
  have "still n1 n' \<or> (\<exists>c. n' = n1\<lparr>conns := (conns n1)(?k := c)\<rparr> \<and> conn_state c \<noteq> DISCONNECTED \<and> follows (new_handler fd) (conn_handler c))"
  proof (cases "io = 0")
    case True
    with n1 obtain c where "set_connection_established (0 = conn_disp n1 ?k) (Some OnConnection) ?c = Inr c"
      "n' = n1\<lparr>conns := (conns n1)(?k := c)\<rparr>" by (auto simp: run_in_loop_def on_conn_object_def rbind_Inr_iff)
    then show ?thesis using opened_follows[of "0 = conn_disp n1 ?k" ?c c] c by auto
  qed (use n1(1) in \<open>auto simp: run_in_loop_def\<close>)
  then show ?thesis
  proof (elim disjE exE conjE)
    assume "still n1 n'"
    with n1 c show ?thesis by (auto simp: moved_def still_def intro: exI[of _ fd])
  qed (use n1 in \<open>auto simp: moved_def\<close>)
qed

lemma http_step_moves:
  assumes "http_step cb s t" and inv: "http_inv cb s" and kept: "all_kept s"
  shows "still (sys_net s) (sys_net t) \<or> (\<exists>k. moved k (sys_net s) (sys_net t))"
  using assms(1)
proof cases
  case (accept fd n)
  then show ?thesis using accept_moves[OF accept(2)] by auto
next
  case (task i x ts n)
  let ?m = "(sys_net s)\<lparr>net_queues := (net_queues (sys_net s))(i := ts)\<rparr>"
  have "net_inv (sys_net s)" using inv by (simp add: http_inv_def)
  then have "task_conn x < num_conns ?m" using task(2) unfolding net_inv_def by (fastforce dest: spec[of _ i])
  from task_moves[OF task(3) this] task(1) show ?thesis by (auto simp: moved_queues)
next
  case (close k n)
  from close(4) obtain c n1 where c: "HandleClose (conns (sys_net s) k) = Inr c" "n1 = (sys_net s)\<lparr>conns := (conns (sys_net s))(k := c)\<rparr>"
    "RemoveConnection (Some OnConnection) (conn_disp (sys_net s) k) k n1 = Inr n"
    by (auto simp: close_conn_def on_conn_object_def rbind_Inr_iff)
  have "conn_state (conns (sys_net s) k) \<noteq> DISCONNECTED" using c(1) by (auto simp: HandleClose_def)
  then have "moved k (sys_net s) n1" unfolding c(2) using close_follows[OF c(1)] by (intro moved_update[OF close(2)]) simp
  from moved_still[OF this removal_still[OF c(3)]] close(1) show ?thesis by auto
next
  case (message k readv wr chunk c)
  have net: "net_inv (sys_net s)" and small: "small_bodies cb"
    and conv: "conversation cb (chunks s k) (conns (sys_net s) k)" using inv message(2) by (auto simp: http_inv_def)
  have act: "activity (conns (sys_net s) k) c" using conversation_message[OF conv message(3) small message(4,5,6,7,8)] by blast
  from net_inv_others[OF net message(2)] obtain st where "stage_ok (sys_net s) k st" .
  then have "conn_state (conns (sys_net s) k) \<noteq> DISCONNECTED" using message(3) by (cases st) (auto simp: stage_ok_def)
  with act read_follows[OF message(8)] have "moved k (sys_net s) (set_conn k c (sys_net s))"
    unfolding set_conn_def by (intro moved_update[OF message(2)]) (auto simp: activity_def)
  then show ?thesis using message(1) by auto
next
  case (writable k wr c)
  have "well_kept (conns (sys_net s) k)" using kept writable(2) by (simp add: all_kept_def)
  with dead_writes_nothing[OF _ _ writable(4)] write_alive[OF writable(4)] write_follows[OF writable(4)]
  have "moved k (sys_net s) (set_conn k c (sys_net s))" unfolding set_conn_def by (intro moved_update[OF writable(2)]) auto
  then show ?thesis using writable(1) by auto
qed

section \<open>The kernel follows\<close>

lemma fold_trace:
  "\<exists>ms. eh_ctl (fold interest_step xs h) = eh_ctl h @ map (\<lambda>m. (CTL_MOD, eh_fd h, m)) ms
     \<and> eh_fd (fold interest_step xs h) = eh_fd h \<and> eh_events (fold interest_step xs h) = last (eh_events h # ms)"
proof (induction xs arbitrary: h)
  case (Cons x xs)
  have s: "eh_ctl (interest_step x h) = eh_ctl h @ [(CTL_MOD, eh_fd h, eh_events (interest_step x h))]"
    "eh_fd (interest_step x h) = eh_fd h" by (cases x; simp add: interest_defs)+
  from Cons.IH[of "interest_step x h"] obtain ms where
    "eh_ctl (fold interest_step xs (interest_step x h)) = eh_ctl (interest_step x h) @ map (\<lambda>m. (CTL_MOD, eh_fd h, m)) ms"
    "eh_fd (fold interest_step xs (interest_step x h)) = eh_fd h"
    "eh_events (fold interest_step xs (interest_step x h)) = last (eh_events (interest_step x h) # ms)" unfolding s(2) by blast
  then show ?case using s by (intro exI[of _ "eh_events (interest_step x h) # ms"]) simp
qed (rule exI[of _ "[]"], simp)

lemma follows_trace:
  assumes "follows h h'"
  obtains ms where "eh_ctl h' = eh_ctl h @ map (\<lambda>m. (CTL_MOD, eh_fd h, m)) ms" "eh_fd h' = eh_fd h"
    "eh_events h' = last (eh_events h # ms)"
  using assms fold_trace[of _ h] unfolding follows_def by metis

definition tag :: "nat \<Rightarrow> (ctl_op \<times> int \<times> mask) list \<Rightarrow> (ctl_op \<times> int \<times> nat \<times> mask) list" where
  "tag k = map (\<lambda>(op, fd, m). (op, fd, (k, m)))"

lemma play_tagged:
  assumes ok: "epoll_ok ctl watch" and w: "watch e fd = Some (k, m)"
  shows "\<exists>e'. play ctl (tag k (map (\<lambda>m. (CTL_MOD, fd, m)) ms)) e = Inr e' \<and> watch e' = (watch e)(fd \<mapsto> (k, last (m # ms)))"
proof -
  have t: "tag k (map (\<lambda>m. (CTL_MOD, fd, m)) ms) = map (\<lambda>v. (CTL_MOD, fd, v)) (map (Pair k) ms)" by (simp add: tag_def comp_def)
  have l: "last ((k, m) # map (Pair k) ms) = (k, last (m # ms))" by (simp add: last_map)
  from play_modify[OF ok w, of "map (Pair k) ms"] show ?thesis unfolding t l .
qed

text \<open>A connection that stays alive, a new one, and one that dies.\<close>

lemma play_alive:
  assumes ok: "epoll_ok ctl watch" and f: "follows h h'" and w: "watch e (eh_fd h) = Some (k, eh_events h)"
  shows "\<exists>e'. play ctl (tag k (drop (length (eh_ctl h)) (eh_ctl h'))) e = Inr e'
     \<and> watch e' = (watch e)(eh_fd h' \<mapsto> (k, eh_events h'))"
proof -
  obtain ms where "eh_ctl h' = eh_ctl h @ map (\<lambda>m. (CTL_MOD, eh_fd h, m)) ms" "eh_fd h' = eh_fd h"
    "eh_events h' = last (eh_events h # ms)" using follows_trace[OF f] .
  with play_tagged[OF ok w, of ms] show ?thesis by simp
qed

lemma play_new:
  assumes ok: "epoll_ok ctl watch" and f: "follows (new_handler fd) h'" and w: "watch e (eh_fd h') = None"
  shows "\<exists>e'. play ctl (tag k (eh_ctl h')) e = Inr e' \<and> watch e' = (watch e)(eh_fd h' \<mapsto> (k, eh_events h'))"
proof -
  have h: "eh_ctl (new_handler fd) = [(CTL_ADD, fd, 0)]" "eh_fd (new_handler fd) = fd" "eh_events (new_handler fd) = 0"
    by (simp_all add: new_handler_def RegisterEventHandler_def UpdataOneEventHandler_def AddEvent_def ctl_request_def)
  obtain ms where ms: "eh_ctl h' = (CTL_ADD, fd, 0) # map (\<lambda>m. (CTL_MOD, fd, m)) ms" "eh_fd h' = fd" "eh_events h' = last (0 # ms)"
    using follows_trace[OF f] h by auto
  from ok w ms(2) obtain e1 where e1: "ctl CTL_ADD fd (k, 0) e = Inr e1" "watch e1 = (watch e)(fd \<mapsto> (k, 0))"
    unfolding epoll_ok_def by (meson option.distinct(1))
  from play_tagged[OF ok, of e1 fd k 0 ms] e1 ms show ?thesis by (auto simp: tag_def fun_eq_iff)
qed

lemma play_dies:
  assumes ok: "epoll_ok ctl watch" and w: "watch e (eh_fd h) = Some v"
  shows "\<exists>e'. play ctl (tag k (drop (length (eh_ctl h)) (eh_ctl (RemoveEventHandler (set_stop_care_all h))))) e = Inr e'
     \<and> watch e' = (watch e)(eh_fd h := None)"
proof -
  let ?m = "eh_events (set_stop_care_all h)"
  have rs: "drop (length (eh_ctl h)) (eh_ctl (RemoveEventHandler (set_stop_care_all h)))
      = [(CTL_MOD, eh_fd h, ?m), (CTL_DEL, eh_fd h, ?m)]"
    by (simp add: interest_defs RemoveEventHandler_def DeleteEvent_def)
  from ok w obtain e1 where e1: "ctl CTL_MOD (eh_fd h) (k, ?m) e = Inr e1" "watch e1 = (watch e)(eh_fd h \<mapsto> (k, ?m))"
    unfolding epoll_ok_def by (metis option.distinct(1))
  from ok e1(2) obtain e2 where "ctl CTL_DEL (eh_fd h) (k, ?m) e1 = Inr e2" "watch e2 = (watch e1)(eh_fd h := None)"
    unfolding epoll_ok_def by (metis fun_upd_same option.distinct(1))
  with e1 show ?thesis unfolding rs by (simp add: tag_def)
qed

section \<open>Exact lists\<close>

text \<open>
  \<open>own\<close> are the descriptors that the program holds besides those of the connections, and \<open>base\<close> the lists that hold these only.
  The lists are exact when they hold in addition, in the list of its loop, each connection that is referenced.
\<close>

definition fd_of :: "net \<Rightarrow> nat \<Rightarrow> int" where
  "fd_of n k = eh_fd (handler_of n k)"

definition exact :: "('e \<Rightarrow> int \<Rightarrow> (nat \<times> mask) option) \<Rightarrow> 'e lists \<Rightarrow> net \<Rightarrow> 'e lists \<Rightarrow> bool" where
  "exact watch base n ls =
     ((\<forall>k<num_conns n. referenced n k \<longrightarrow> watch (ls (conn_disp n k)) (fd_of n k) = Some (k, eh_events (handler_of n k)))
      \<and> (\<forall>i fd. (\<forall>k<num_conns n. referenced n k \<and> conn_disp n k = i \<longrightarrow> fd_of n k \<noteq> fd) \<longrightarrow> watch (ls i) fd = watch (base i) fd))"

definition separate :: "int set \<Rightarrow> net \<Rightarrow> bool" where
  "separate own n = (\<forall>k<num_conns n. referenced n k \<longrightarrow>
     fd_of n k \<notin> own \<and> (\<forall>j<num_conns n. referenced n j \<and> fd_of n j = fd_of n k \<longrightarrow> j = k))"

text \<open>What \<^verbatim>\<open>accept4\<close> documents: the new descriptor is not open, neither of the program itself nor of a connection that still exists.\<close>

definition fresh_fds :: "int set \<Rightarrow> net \<Rightarrow> net \<Rightarrow> bool" where
  "fresh_fds own n n' = (\<forall>k. num_conns n \<le> k \<and> k < num_conns n' \<longrightarrow>
     fd_of n' k \<notin> own \<and> (\<forall>j<num_conns n. referenced n j \<longrightarrow> fd_of n j \<noteq> fd_of n' k))"

lemma loop_requests_none: "(\<And>k. k < num_conns n' \<Longrightarrow> requests n n' k = []) \<Longrightarrow> loop_requests n n' i = []"
  by (simp add: loop_requests_def)

lemma concat_one: "k < m \<Longrightarrow> (\<And>j. j < m \<Longrightarrow> j \<noteq> k \<Longrightarrow> f j = []) \<Longrightarrow>
    concat (map f (filter P [0..<m])) = (if P k then f k else [])"
proof (induction m)
  case (Suc m)
  show ?case
  proof (cases "k = m")
    case True
    then have "\<forall>j\<in>set [0..<m]. f j = []" using Suc.prems(2) by auto
    then show ?thesis using True by auto
  next
    case False
    with Suc show ?thesis by auto
  qed
qed simp

lemma loop_requests_one:
  assumes "k < num_conns n'" and "\<And>j. j < num_conns n' \<Longrightarrow> j \<noteq> k \<Longrightarrow> requests n n' j = []"
  shows "loop_requests n n' i = (if conn_disp n' k = i then requests n n' k else [])"
  unfolding loop_requests_def using assms by (rule concat_one)

lemma still_exact:
  assumes inv: "net_inv n" "net_inv n'" and still: "still n n'" and "exact watch base n ls" "separate own n"
  shows "told ctl n n' ls ls \<and> exact watch base n' ls \<and> separate own n'"
proof -
  have same: "num_conns n' = num_conns n" "\<And>k. k < num_conns n \<Longrightarrow> referenced n' k = referenced n k"
    "\<And>k. k < num_conns n \<Longrightarrow> conns n' k = conns n k" "\<And>k. k < num_conns n \<Longrightarrow> conn_disp n' k = conn_disp n k"
    using still alive_iff[OF inv(1)] alive_iff[OF inv(2)] by (auto simp: still_def)
  have "requests n n' k = []" if "k < num_conns n'" for k using that same by (simp add: requests_def)
  then have "told ctl n n' ls ls" by (simp add: told_def loop_requests_none)
  moreover have "exact watch base n' ls" using assms(4) same unfolding exact_def fd_of_def by metis
  moreover have "separate own n'" using assms(5) same unfolding separate_def fd_of_def by metis
  ultimately show ?thesis by blast
qed

text \<open>What one changed connection means for the lists: only its own entry changes.\<close>

definition moves_entry :: "nat \<Rightarrow> net \<Rightarrow> net \<Rightarrow> bool" where
  "moves_entry k n n' = ((k < num_conns n \<longrightarrow> referenced n k \<and> fd_of n k = fd_of n' k \<and> conn_disp n k = conn_disp n' k)
     \<and> (\<forall>j<num_conns n'. j \<noteq> k \<longrightarrow> j < num_conns n \<and> referenced n' j = referenced n j \<and> handler_of n' j = handler_of n j
          \<and> conn_disp n' j = conn_disp n j)
     \<and> k < num_conns n' \<and> num_conns n \<le> num_conns n')"

lemma entry_apart:
  assumes m: "moves_entry k n n'" and sep: "separate own n" and fresh: "fresh_fds own n n'"
  shows "fd_of n' k \<notin> own" and "j < num_conns n \<Longrightarrow> j \<noteq> k \<Longrightarrow> referenced n j \<Longrightarrow> fd_of n j \<noteq> fd_of n' k"
proof -
  have "fd_of n' k \<notin> own \<and> (\<forall>j<num_conns n. j \<noteq> k \<and> referenced n j \<longrightarrow> fd_of n j \<noteq> fd_of n' k)"
  proof (cases "k < num_conns n")
    case True
    then have "referenced n k" "fd_of n k = fd_of n' k" using m by (simp_all add: moves_entry_def)
    with sep True show ?thesis unfolding separate_def by metis
  next
    case False
    then show ?thesis using fresh m by (simp add: fresh_fds_def moves_entry_def)
  qed
  then show "fd_of n' k \<notin> own" "j < num_conns n \<Longrightarrow> j \<noteq> k \<Longrightarrow> referenced n j \<Longrightarrow> fd_of n j \<noteq> fd_of n' k" by blast+
qed

lemma entry_separate:
  assumes m: "moves_entry k n n'" and sep: "separate own n" and fresh: "fresh_fds own n n'"
  shows "separate own n'"
proof -
  note a = entry_apart[OF assms]
  have o: "j < num_conns n \<and> referenced n' j = referenced n j \<and> fd_of n' j = fd_of n j" if "j < num_conns n'" "j \<noteq> k" for j
    using m that by (simp add: moves_entry_def fd_of_def)
  show ?thesis
    unfolding separate_def
  proof (intro allI impI)
    fix l assume l: "l < num_conns n'" "referenced n' l"
    show "fd_of n' l \<notin> own \<and> (\<forall>j<num_conns n'. referenced n' j \<and> fd_of n' j = fd_of n' l \<longrightarrow> j = l)"
    proof (cases "l = k")
      case True
      then show ?thesis using a o by metis
    next
      case False
      then show ?thesis using a o l sep unfolding separate_def by metis
    qed
  qed
qed

lemma entry_exact:
  assumes m: "moves_entry k n n'" and sep: "separate own n" and fresh: "fresh_fds own n n'" and ex: "exact watch base n ls"
    and base: "\<forall>i fd. fd \<notin> own \<longrightarrow> watch (base i) fd = None"
    and e: "watch e' = (watch (ls (conn_disp n' k)))(fd_of n' k := (if referenced n' k then Some (k, eh_events (handler_of n' k)) else None))"
  shows "exact watch base n' (ls(conn_disp n' k := e'))"
proof -
  let ?i = "conn_disp n' k" and ?fd = "fd_of n' k"
  note a = entry_apart[OF m sep fresh]
  have o: "j < num_conns n" "referenced n' j = referenced n j" "fd_of n' j = fd_of n j" "handler_of n' j = handler_of n j"
    "conn_disp n' j = conn_disp n j" if "j < num_conns n'" "j \<noteq> k" for j
    using m that by (simp_all add: moves_entry_def fd_of_def)
  have "watch ((ls(?i := e')) (conn_disp n' j)) (fd_of n' j) = Some (j, eh_events (handler_of n' j))"
    if j: "j < num_conns n'" "referenced n' j" for j
  proof (cases "j = k")
    case True
    then show ?thesis using e j by simp
  next
    case False
    then have "watch (ls (conn_disp n j)) (fd_of n j) = Some (j, eh_events (handler_of n j))"
      using ex o[OF j(1)] j(2) unfolding exact_def by metis
    then show ?thesis using e a(2)[of j] o[OF j(1) False] False j(2) by auto
  qed
  moreover have "watch ((ls(?i := e')) i) fd = watch (base i) fd"
    if none: "\<forall>j<num_conns n'. referenced n' j \<and> conn_disp n' j = i \<longrightarrow> fd_of n' j \<noteq> fd" for i fd
  proof (cases "i = ?i \<and> fd = ?fd")
    case True
    then have "\<not> referenced n' k" using none m by (auto simp: moves_entry_def)
    then show ?thesis using True e base a(1) by simp
  next
    case False
    have "\<forall>j<num_conns n. referenced n j \<and> conn_disp n j = i \<longrightarrow> fd_of n j \<noteq> fd"
    proof (intro allI impI)
      fix j assume j: "j < num_conns n" "referenced n j \<and> conn_disp n j = i"
      show "fd_of n j \<noteq> fd"
      proof (cases "j = k")
        case True
        then show ?thesis using m j False by (auto simp: moves_entry_def)
      next
        case jk: False
        have "j < num_conns n'" using m j(1) by (simp add: moves_entry_def)
        then show ?thesis using none o[OF _ jk] j by metis
      qed
    qed
    then have "watch (ls i) fd = watch (base i) fd" using ex unfolding exact_def by blast
    then show ?thesis using False e by auto
  qed
  ultimately show ?thesis unfolding exact_def by blast
qed

text \<open>No request of a step fails, and the lists stay exact.\<close>

lemma follows_fd: "follows h h' \<Longrightarrow> eh_fd h' = eh_fd h"
  by (metis follows_trace)

lemma removed_fd [simp]: "eh_fd (RemoveEventHandler h) = eh_fd h"
  by (simp add: RemoveEventHandler_def UpdataOneEventHandler_def DeleteEvent_def ctl_request_def)

lemma moved_entry:
  assumes inv: "net_inv n" "net_inv n'" and m: "moved k n n'" and alive: "k < num_conns n \<longrightarrow> conn_state (conns n k) \<noteq> DISCONNECTED"
  shows "moves_entry k n n'"
proof -
  have r: "j < num_conns n \<Longrightarrow> referenced n j \<longleftrightarrow> conn_state (conns n j) \<noteq> DISCONNECTED"
    "j < num_conns n' \<Longrightarrow> referenced n' j \<longleftrightarrow> conn_state (conns n' j) \<noteq> DISCONNECTED" for j
    using alive_iff[OF inv(1)] alive_iff[OF inv(2)] by blast+
  have "fd_of n' k = fd_of n k" if "k < num_conns n"
    using m alive that follows_fd by (auto simp: moved_def fd_of_def split: if_splits)
  then show ?thesis using m alive r unfolding moves_entry_def moved_def by auto
qed

lemma moved_played:
  assumes inv: "net_inv n" "net_inv n'" and m: "moved k n n'" and alive: "k < num_conns n \<longrightarrow> conn_state (conns n k) \<noteq> DISCONNECTED"
    and ok: "epoll_ok ctl watch" and sep: "separate own n" and fresh: "fresh_fds own n n'" and ex: "exact watch base n ls"
    and base: "\<forall>i fd. fd \<notin> own \<longrightarrow> watch (base i) fd = None"
  shows "\<exists>e'. play ctl (requests n n' k) (ls (conn_disp n' k)) = Inr e'
     \<and> watch e' = (watch (ls (conn_disp n' k)))(fd_of n' k := (if referenced n' k then Some (k, eh_events (handler_of n' k)) else None))"
proof -
  let ?e = "ls (conn_disp n' k)"
  have me: "moves_entry k n n'" using moved_entry[OF inv m alive] .
  have ref: "referenced n' k \<longleftrightarrow> conn_state (conns n' k) \<noteq> DISCONNECTED" using alive_iff[OF inv(2)] m by (simp add: moved_def)
  show ?thesis
  proof (cases "k < num_conns n")
    case True
    then have w: "watch ?e (eh_fd (handler_of n k)) = Some (k, eh_events (handler_of n k))"
      using ex me unfolding exact_def moves_entry_def fd_of_def by metis
    have rq: "requests n n' k = tag k (drop (length (eh_ctl (handler_of n k))) (eh_ctl (handler_of n' k)))"
      using True by (simp add: requests_def tag_def)
    have mf: "if conn_state (conns n' k) \<noteq> DISCONNECTED then follows (handler_of n k) (handler_of n' k)
      else handler_of n' k = RemoveEventHandler (set_stop_care_all (handler_of n k))" using m alive True by (simp add: moved_def)
    show ?thesis
    proof (cases "referenced n' k")
      case True
      then show ?thesis using play_alive[OF ok _ w] mf ref rq by (simp add: fd_of_def)
    next
      case False
      then show ?thesis using play_dies[OF ok w, of k] mf ref rq by (simp add: fd_of_def)
    qed
  next
    case False
    have a: "fd_of n' k \<notin> own" "\<And>j. j < num_conns n \<Longrightarrow> referenced n j \<Longrightarrow> fd_of n j \<noteq> fd_of n' k"
      using entry_apart[OF me sep fresh] False by auto
    then have w: "watch ?e (eh_fd (handler_of n' k)) = None" using ex base unfolding exact_def fd_of_def by metis
    from m False obtain fd where "follows (new_handler fd) (handler_of n' k)" "conn_state (conns n' k) \<noteq> DISCONNECTED"
      by (auto simp: moved_def)
    with play_new[OF ok _ w] ref False show ?thesis by (simp add: requests_def tag_def fd_of_def)
  qed
qed

lemma moved_told:
  assumes "moved k n n'" and e: "play ctl (requests n n' k) (ls (conn_disp n' k)) = Inr e'"
  shows "told ctl n n' ls (ls(conn_disp n' k := e'))"
proof -
  have "requests n n' j = []" if "j < num_conns n'" "j \<noteq> k" for j
    using assms(1) that by (simp add: moved_def requests_def)
  from loop_requests_one[of k n' n, OF _ this] assms show ?thesis by (simp add: told_def moved_def)
qed

lemma kernel_follows:
  assumes inv: "net_inv n" "net_inv n'" and step: "still n n' \<or> (\<exists>k. moved k n n')"
    and ok: "epoll_ok ctl watch" and fresh: "fresh_fds own n n'"
    and base: "\<forall>i fd. fd \<notin> own \<longrightarrow> watch (base i) fd = None" and ex: "exact watch base n ls" and sep: "separate own n"
  shows "\<exists>ls'. told ctl n n' ls ls' \<and> exact watch base n' ls' \<and> separate own n'"
proof (cases "still n n'")
  case True
  from still_exact[OF inv True ex sep] show ?thesis by blast
next
  case False
  with step obtain k where m: "moved k n n'" by blast
  have alive: "k < num_conns n \<longrightarrow> conn_state (conns n k) \<noteq> DISCONNECTED"
  proof (intro impI notI)
    assume k: "k < num_conns n" "conn_state (conns n k) = DISCONNECTED"
    have "num_conns n' \<le> num_conns n"
    proof (rule ccontr)
      assume "\<not> num_conns n' \<le> num_conns n"
      then have "num_conns n < num_conns n'" "num_conns n \<noteq> k" using k(1) by simp_all
      then have "num_conns n < num_conns n" using m unfolding moved_def by blast
      then show False by simp
    qed
    then have num: "num_conns n' = num_conns n" using m by (simp add: moved_def)
    have "conns n' k = conns n k" using m k by (simp add: moved_def)
    then have "conns n' j = conns n j" if "j < num_conns n" for j using m num that by (cases "j = k") (simp_all add: moved_def)
    then have "still n n'" using m num by (simp add: moved_def still_def)
    with False show False ..
  qed
  from moved_played[OF inv m alive ok sep fresh ex base] obtain e' where
    e: "play ctl (requests n n' k) (ls (conn_disp n' k)) = Inr e'"
    "watch e' = (watch (ls (conn_disp n' k)))(fd_of n' k := (if referenced n' k then Some (k, eh_events (handler_of n' k)) else None))"
    by blast
  note me = moved_entry[OF inv m alive]
  from moved_told[where ls = ls, OF m e(1)] entry_exact[OF me sep fresh ex base e(2)] entry_separate[OF me sep fresh]
  show ?thesis by blast
qed

section \<open>The server with the kernel's lists\<close>

definition net_of :: "server_sys \<Rightarrow> net" where
  "net_of s = sys_net (flat s)"

lemma net_of_init: "net_of (server_init name threads) = net_init name threads"
  unfolding net_of_def flat_init by (simp add: http_init_def)

inductive kernel_step :: "http_callback \<Rightarrow> (nat \<times> mask, 'e) ctl_fun \<Rightarrow> int set
    \<Rightarrow> server_sys \<times> 'e lists \<Rightarrow> server_sys \<times> 'e lists \<Rightarrow> bool" for cb ctl own where
  both: "server_step cb s t \<Longrightarrow> fresh_fds own (net_of s) (net_of t) \<Longrightarrow> told ctl (net_of s) (net_of t) ls ls' \<Longrightarrow>
    kernel_step cb ctl own (s, ls) (t, ls')"

definition kernel_ok_lists :: "(nat \<times> mask, 'e) ctl_fun \<Rightarrow> ('e \<Rightarrow> int \<Rightarrow> (nat \<times> mask) option) \<Rightarrow> int set \<Rightarrow> 'e lists \<Rightarrow> bool" where
  "kernel_ok_lists ctl watch own base = (epoll_ok ctl watch \<and> (\<forall>i fd. fd \<notin> own \<longrightarrow> watch (base i) fd = None))"

definition kernel_inv :: "http_callback \<Rightarrow> (nat \<times> mask, 'e) ctl_fun \<Rightarrow> ('e \<Rightarrow> int \<Rightarrow> (nat \<times> mask) option) \<Rightarrow> int set
    \<Rightarrow> 'e lists \<Rightarrow> server_sys \<times> 'e lists \<Rightarrow> bool" where
  "kernel_inv cb ctl watch own base = (\<lambda>(s, ls). whole_inv cb s \<and> all_kept (flat s) \<and> kernel_ok_lists ctl watch own base
     \<and> exact watch base (net_of s) ls \<and> separate own (net_of s))"

lemma server_step_moves:
  assumes "server_step cb s t" and "whole_inv cb s" and "all_kept (flat s)"
  shows "whole_inv cb t \<and> all_kept (flat t) \<and> (still (net_of s) (net_of t) \<or> (\<exists>k. moved k (net_of s) (net_of t)))"
proof -
  have h: "http_inv cb (flat s)" using assms(2) by (simp add: whole_inv_def)
  from server_step_flat[OF assms(1,2)] show ?thesis
    using http_step_moves[OF _ h assms(3)] all_kept_step[OF _ h assms(3)] assms(3) unfolding net_of_def by (metis still_refl)
qed

lemma kernel_can:
  assumes inv: "kernel_inv cb ctl watch own base (s, ls)" and st: "server_step cb s t" and fresh: "fresh_fds own (net_of s) (net_of t)"
  shows "\<exists>ls'. told ctl (net_of s) (net_of t) ls ls' \<and> kernel_inv cb ctl watch own base (t, ls')"
proof -
  have i: "whole_inv cb s" "all_kept (flat s)" using inv by (simp_all add: kernel_inv_def)
  note m = server_step_moves[OF st i]
  have n: "net_inv (net_of s)" "net_inv (net_of t)" using i(1) m unfolding net_of_def whole_inv_def http_inv_def by blast+
  have k: "epoll_ok ctl watch" "\<forall>i fd. fd \<notin> own \<longrightarrow> watch (base i) fd = None"
    using inv by (simp_all add: kernel_inv_def kernel_ok_lists_def)
  from kernel_follows[OF n _ k(1) fresh k(2)] m inv show ?thesis by (auto simp: kernel_inv_def)
qed

text \<open>Who owns an entry.\<close>

lemma entry_owner:
  assumes inv: "kernel_inv cb ctl watch own base (s, ls)" and w: "fd \<notin> own" "watch (ls i) fd = Some (k, m)"
  shows "k < num_conns (net_of s)" "referenced (net_of s) k" "conn_disp (net_of s) k = i" "fd_of (net_of s) k = fd"
    "m = eh_events (handler_of (net_of s) k)"
proof -
  have ex: "exact watch base (net_of s) ls" and base: "watch (base i) fd = None"
    using inv w(1) by (simp_all add: kernel_inv_def kernel_ok_lists_def)
  have "watch (ls i) fd \<noteq> watch (base i) fd" using base w by simp
  then obtain j where j: "j < num_conns (net_of s)" "referenced (net_of s) j" "conn_disp (net_of s) j = i" "fd_of (net_of s) j = fd"
    using ex unfolding exact_def by blast
  from this have "watch (ls i) fd = Some (j, eh_events (handler_of (net_of s) j))" using ex unfolding exact_def by blast
  then show "k < num_conns (net_of s)" "referenced (net_of s) k" "conn_disp (net_of s) k = i" "fd_of (net_of s) k = fd"
    "m = eh_events (handler_of (net_of s) k)" using w(2) j by simp_all
qed

lemma told_unique: "told ctl n n' ls ls1 \<Longrightarrow> told ctl n n' ls ls2 \<Longrightarrow> ls1 = ls2"
  unfolding told_def by (metis ext sum.inject(2))

interpretation kernel: step_system "kernel_step cb ctl own" "kernel_inv cb ctl watch own base" for cb ctl own watch base
proof unfold_locales
  fix p q assume "kernel_inv cb ctl watch own base p" and "kernel_step cb ctl own p q"
  from this(2,1) show "kernel_inv cb ctl watch own base q"
  proof cases
    case (both s t ls ls')
    assume "kernel_inv cb ctl watch own base p"
    from kernel_can[OF this[unfolded both(1)] both(3,4)] told_unique[OF both(5)] both(2) show ?thesis by metis
  qed
qed

lemma kernel_init:
  assumes "small_bodies cb" and "kernel_ok_lists ctl watch own base"
  shows "kernel_inv cb ctl watch own base (server_init name threads, base)"
proof -
  have "num_conns (net_init name threads) = 0" by (simp add: net_init_def)
  moreover from this have "all_kept (flat (server_init name threads))" unfolding flat_init by (simp add: all_kept_def http_init_def)
  ultimately show ?thesis using whole_init[OF assms(1)] assms(2)
    by (simp add: kernel_inv_def net_of_init exact_def separate_def)
qed

text \<open>Without a new connection every run of the server has one with the kernel's lists.\<close>

lemma kernel_lift:
  assumes "(server_step cb)\<^sup>*\<^sup>* s t" and "kernel_inv cb ctl watch own base (s, ls)"
    and "num_conns (net_of t) = num_conns (net_of s)"
  shows "\<exists>ls'. (kernel_step cb ctl own)\<^sup>*\<^sup>* (s, ls) (t, ls')"
proof -
  have "num_conns (net_of s) \<le> num_conns (net_of t) \<and> (num_conns (net_of t) = num_conns (net_of s) \<longrightarrow>
      (\<exists>ls'. (kernel_step cb ctl own)\<^sup>*\<^sup>* (s, ls) (t, ls'))) \<and> whole_inv cb t \<and> all_kept (flat t)"
    using assms(1)
  proof (induction rule: rtranclp_induct)
    case base
    then show ?case using assms(2) by (auto simp: kernel_inv_def)
  next
    case (step t u)
    have m: "whole_inv cb u" "all_kept (flat u)" "num_conns (net_of t) \<le> num_conns (net_of u)"
      using server_step_moves[OF step.hyps(2)] step.IH by (auto simp: moved_def still_def)
    have "\<exists>ls'. (kernel_step cb ctl own)\<^sup>*\<^sup>* (s, ls) (u, ls')" if e: "num_conns (net_of u) = num_conns (net_of s)"
    proof -
      have e': "num_conns (net_of t) = num_conns (net_of u)" using e m(3) step.IH by linarith
      then obtain ls1 where l: "(kernel_step cb ctl own)\<^sup>*\<^sup>* (s, ls) (t, ls1)" using step.IH e by auto
      have fresh: "fresh_fds own (net_of t) (net_of u)" using e' by (auto simp: fresh_fds_def)
      from kernel_can[OF kernel.good_reach[OF l assms(2)] step.hyps(2) fresh] obtain ls2 where
        "told ctl (net_of t) (net_of u) ls1 ls2" by blast
      then show ?thesis using kernel_step.both[OF step.hyps(2) fresh] l by (meson rtranclp.rtrancl_into_rtrancl)
    qed
    with m step.IH show ?case by auto
  qed
  with assms(3) show ?thesis by blast
qed

end
