(* ===== verification/PollSystem.thy ===== *)
theory PollSystem
  imports Interest
begin

text \<open>
  The server driven by its polls. \<open>LoopSystem\<close> lets a loop that handles events run any handler at any time; here \<^verbatim>\<open>epoll_wait\<close> reports
  a batch of events, entries of the loop's interest list with their masks, and \<^verbatim>\<open>Selector::UpdataTriggeredEventHandlers\<close> and
  \<^verbatim>\<open>EventHandler::HandleEvent\<close> call the handlers of the batch one after another, through the bare pointers of the report, while
  the other loops run. The calls that are still to be made are part of the state.
\<close>

section \<open>The batch\<close>

type_synonym calls = "(nat \<times> event_func) list"

text \<open>The callbacks that the dispatch of a report tries, in order.\<close>

definition batch_calls :: "(nat \<times> mask) list \<Rightarrow> calls" where
  "batch_calls evs = concat (map (\<lambda>(k, revents). map (Pair k) (event_calls revents)) evs)"

text \<open>
  What \<^verbatim>\<open>epoll_wait\<close> documents: each descriptor is reported once, with the pointer it is registered with and events that
  its mask asks for, or errors and hang-ups, which are always reported.
\<close>

definition reported :: "('e \<Rightarrow> int \<Rightarrow> (nat \<times> mask) option) \<Rightarrow> int set \<Rightarrow> 'e \<Rightarrow> (nat \<times> mask) list \<Rightarrow> bool" where
  "reported watch own e evs = (distinct (map fst evs)
     \<and> (\<forall>(k, revents)\<in>set evs. \<exists>fd m. fd \<notin> own \<and> watch e fd = Some (k, m) \<and> revents AND NOT (m OR EPOLLERR OR EPOLLHUP) = 0))"

section \<open>Calling a handler\<close>

text \<open>The input that a call takes from the socket.\<close>

definition heard :: "(nat list \<Rightarrow> int + string) \<Rightarrow> event_func \<Rightarrow> tcp_conn \<Rightarrow> string list" where
  "heard readv f c = (if f = ReadFunc
     then (case readv (read_iov (input_buf c)) of Inl err \<Rightarrow> [] | Inr chunk \<Rightarrow> if chunk = [] then [] else [chunk]) else [])"

text \<open>
  One callback of the event handler of connection \<open>k\<close>: the function that the constructor of the connection bound to it, and, when that one
  called the close callback, the function that \<^verbatim>\<open>TcpServer::NewConnection\<close> bound to that.
\<close>

definition call_handler ::
  "http_callback \<Rightarrow> (nat list \<Rightarrow> int + string) \<Rightarrow> write_fun \<Rightarrow> nat \<Rightarrow> event_func \<Rightarrow> http_sys \<Rightarrow> http_sys res" where
  "call_handler cb readv wr k f s =
     (let c = conns (sys_net s) k
      in case conn_funcs readv wr (Some (message_callback True wr 0 cb)) f of
           None \<Rightarrow> Inr s
         | Some g \<Rightarrow> rbind (g c) (\<lambda>c'.
             let n = set_conn k c' (sys_net s)
             in rbind (if conn_calls c' = conn_calls c @ [CbClose]
                       then RemoveConnection (Some OnConnection) (conn_disp n k) k n else Inr n) (\<lambda>n'.
                Inr (s\<lparr>sys_net := n', chunks := (chunks s)(k := chunks s k @ heard readv f c)\<rparr>))))"

definition dispatched :: "nat \<Rightarrow> server_sys \<Rightarrow> http_sys \<Rightarrow> server_sys" where
  "dispatched i s s1 = s\<lparr>srv := s1\<lparr>sys_net := emptied (sys_net s1)\<rparr>, loops := deliver i (sys_net s1) (loops s)\<rparr>"

section \<open>Steps\<close>

text \<open>
  What happens besides the dispatch: the loops, which leave the handling of events only when the batch is done, the functions
  they call, and the acceptor's handler.
\<close>

inductive background :: "http_callback \<Rightarrow> (nat \<Rightarrow> calls) \<Rightarrow> server_sys \<Rightarrow> server_sys \<Rightarrow> bool" for cb P where
  loop: "disp_step (loops s i) l \<Longrightarrow> queued l = queued (loops s i) \<Longrightarrow> ran (disp l) = ran (disp (loops s i)) \<Longrightarrow>
    \<not> (phase (loops s i) = Polling \<and> phase l = Handling) \<Longrightarrow>
    phase (loops s i) = Handling \<and> phase l \<noteq> Handling \<longrightarrow> P i = [] \<Longrightarrow>
    background cb P s (s\<lparr>loops := (loops s)(i := l)\<rparr>)"
| call: "phase (loops s i) = Running (t # ts) \<Longrightarrow> \<not> self_owing (loops s i) \<Longrightarrow>
    call_pending (\<lambda>f. Inr) t (disp (loops s i)) = Inr d \<Longrightarrow>
    run_net_task (Some OnConnection) i t (sys_net (srv s)) = Inr n \<Longrightarrow>
    background cb P s (after_op i n (s\<lparr>loops := (loops s)(i := (loops s i)\<lparr>disp := d, phase := Running ts\<rparr>)\<rparr>))"
| accept: "handling 0 s \<Longrightarrow> NewConnection (Some OnConnection) False 0 fd (sys_net (srv s)) = Inr n \<Longrightarrow>
    background cb P s (after_op 0 n s)"

type_synonym 'e polled = "(server_sys \<times> 'e lists) \<times> (nat \<Rightarrow> calls)"

inductive poll_step :: "http_callback \<Rightarrow> (nat \<times> mask, 'e) ctl_fun \<Rightarrow> ('e \<Rightarrow> int \<Rightarrow> (nat \<times> mask) option) \<Rightarrow> int set
    \<Rightarrow> 'e polled \<Rightarrow> 'e polled \<Rightarrow> bool" for cb ctl watch own where
  report: "phase (loops s i) = Polling \<Longrightarrow> reported watch own (ls i) evs \<Longrightarrow>
    poll_step cb ctl watch own ((s, ls), P)
      ((s\<lparr>loops := (loops s)(i := (loops s i)\<lparr>phase := Handling\<rparr>)\<rparr>, ls), P(i := batch_calls evs))"
| other: "background cb P s t \<Longrightarrow> fresh_fds own (net_of s) (net_of t) \<Longrightarrow> told ctl (net_of s) (net_of t) ls ls' \<Longrightarrow>
    poll_step cb ctl watch own ((s, ls), P) ((t, ls'), P)"
| dispatch: "P i = (k, f) # cs \<Longrightarrow> handling i s \<Longrightarrow> readv_ok readv \<Longrightarrow> kernel_ok wr \<Longrightarrow>
    call_handler cb readv wr k f (srv s) = Inr s1 \<Longrightarrow> told ctl (net_of s) (net_of (dispatched i s s1)) ls ls' \<Longrightarrow>
    poll_step cb ctl watch own ((s, ls), P) ((dispatched i s s1, ls'), P(i := cs))"

section \<open>A call is a step of the server\<close>

lemma background_step: "background cb P s t \<Longrightarrow> server_step cb s t"
  by (induction rule: background.induct) (auto intro: server_step.intros)

lemma dispatched_quiet: "net_queues (sys_net s1) = (\<lambda>_. []) \<Longrightarrow> dispatched i s s1 = s\<lparr>srv := s1\<rparr>"
  by (simp add: dispatched_def emptied_def deliver_def post_def flip: fun_upd_def)

lemma Send_calls: "SendInLoop True wr d c = Inr c' \<Longrightarrow> conn_calls c' = conn_calls c"
proof -
  assume s: "SendInLoop True wr d c = Inr c'"
  obtain k c1 where k: "(if \<not> is_care_write (conn_handler c) \<and> payload_size (output_buf c) = 0
      then direct_write wr d c else (0, c)) = (k, c1)" by fastforce
  then have "conn_calls c1 = conn_calls c"
    by (auto simp: direct_write_def Let_def split: if_splits sum.splits)
  with s show "conn_calls c' = conn_calls c" unfolding SendInLoop_def k
    by (auto simp: buffer_rest_def Let_def rbind_Inr_iff split: if_splits)
qed

lemma ShutDown_calls: "ShutDown True c = Inr c' \<Longrightarrow> conn_calls c' = conn_calls c"
  by (auto simp: ShutDown_def ShutDownInLoop_def Let_def split: if_splits)

interpretation calls: message_effect "\<lambda>c c'. conn_calls c' = conn_calls c"
  by unfold_locales (auto dest: Send_calls ShutDown_calls)

lemma write_calls: "HandleWrite wr c = Inr c' \<Longrightarrow> conn_calls c' = conn_calls c"
  by (auto simp: HandleWrite_def ShutDownInLoop_def Let_def rbind_Inr_iff split: sum.splits if_splits)

text \<open>What a call does, by the callback and by what the socket returns.\<close>

lemma read_eof:
  assumes "buf_inv (input_buf c)" and "readv (read_iov (input_buf c)) = Inr []"
  shows "HandleRead readv cb c = HandleClose c"
proof -
  have "mem_write (store (input_buf c)) (write_index (input_buf c)) [] = Inr (store (input_buf c))"
    using assms(1) by (simp add: mem_write_def buf_inv_def)
  then show ?thesis using assms(2) by (simp add: HandleRead_def readFd_def Let_def)
qed

lemma read_error:
  assumes "readv (read_iov (input_buf c)) = Inl err"
  shows "HandleRead readv cb c = Inr c"
  using assms by (simp add: HandleRead_def readFd_def Let_def HandleError_def)

lemma read_calls:
  assumes "HandleRead readv (Some (message_callback True wr 0 cb)) c = Inr c'" and "readv (read_iov (input_buf c)) = Inr chunk"
    and "chunk \<noteq> []" and "readv_ok readv" and "buf_inv (input_buf c)"
  shows "conn_calls c' = conn_calls c"
proof -
  from readFd_spec[OF assms(5,4)] assms(2) obtain b where "readFd readv (input_buf c) = Inr (Inr (length chunk), b)" by auto
  then have "message_callback True wr 0 cb (c\<lparr>input_buf := b\<rparr>) = Inr c'"
    using assms(1,3) by (simp add: HandleRead_def user_call_def Let_def)
  then show ?thesis using calls.callback[of wr 0 cb "c\<lparr>input_buf := b\<rparr>" c'] by simp
qed

lemma call_write:
  assumes "f \<noteq> ReadFunc" and "HandleWrite wr (conns (sys_net s) k) = Inr c'"
  shows "call_handler cb readv wr k f s = Inr (s\<lparr>sys_net := set_conn k c' (sys_net s)\<rparr>)"
proof -
  have "conn_funcs readv wr (Some (message_callback True wr 0 cb)) f = Some (HandleWrite wr)" using assms(1) by (cases f) auto
  then show ?thesis using assms write_calls[OF assms(2)] by (simp add: call_handler_def Let_def heard_def fun_upd_idem)
qed

lemma call_error:
  assumes "readv (read_iov (input_buf (conns (sys_net s) k))) = Inl err"
  shows "call_handler cb readv wr k ReadFunc s = Inr s"
  using read_error[where readv = readv and c = "conns (sys_net s) k", OF assms] assms by (simp add: call_handler_def Let_def heard_def set_conn_def fun_upd_idem)

lemma call_eof:
  assumes "buf_inv (input_buf (conns (sys_net s) k))" and "readv (read_iov (input_buf (conns (sys_net s) k))) = Inr []"
    and "HandleClose (conns (sys_net s) k) = Inr c'"
  shows "call_handler cb readv wr k ReadFunc s = rbind (close_conn (Some OnConnection) k (sys_net s)) (\<lambda>n. Inr (s\<lparr>sys_net := n\<rparr>))"
proof -
  have "conn_calls c' = conn_calls (conns (sys_net s) k) @ [CbClose]" using assms(3) by (auto simp: HandleClose_def Let_def)
  then show ?thesis using read_eof[where readv = readv and c = "conns (sys_net s) k", OF assms(1,2)] assms(2,3)
    by (simp add: call_handler_def Let_def heard_def set_conn_def fun_upd_idem close_conn_def on_conn_object_def)
qed

lemma call_message:
  assumes "buf_inv (input_buf (conns (sys_net s) k))" and "readv_ok readv"
    and "readv (read_iov (input_buf (conns (sys_net s) k))) = Inr chunk" and "chunk \<noteq> []"
  shows "call_handler cb readv wr k ReadFunc s = rbind (on_readable cb readv wr (conns (sys_net s) k)) (\<lambda>c'.
      Inr (s\<lparr>sys_net := set_conn k c' (sys_net s), chunks := (chunks s)(k := chunks s k @ [chunk])\<rparr>))"
  using read_calls[where c = "conns (sys_net s) k", OF _ assms(3,4,2,1), of wr cb] assms(3,4)
  by (cases "HandleRead readv (Some (message_callback True wr 0 cb)) (conns (sys_net s) k)")
    (simp_all add: call_handler_def on_readable_def Let_def heard_def)

text \<open>
  On a connection that is alive, and asks for input if it is read, a call is a step of the server or nothing, and it leaves the
  connection alive; it fails in one way only, when the parser does not return.
\<close>

definition callable :: "server_sys \<Rightarrow> nat \<Rightarrow> nat \<Rightarrow> event_func \<Rightarrow> bool" where
  "callable s i k f = (k < num_conns (sys_net (srv s)) \<and> conn_disp (sys_net (srv s)) k = i
     \<and> conn_state (conns (sys_net (srv s)) k) \<noteq> DISCONNECTED
     \<and> (f = ReadFunc \<longrightarrow> cares_read (conn_handler (conns (sys_net (srv s)) k))))"

definition touches :: "nat \<Rightarrow> net \<Rightarrow> net \<Rightarrow> bool" where
  "touches k n n' = (num_conns n' = num_conns n \<and> conn_disp n' = conn_disp n \<and> (\<forall>j. j \<noteq> k \<longrightarrow> conns n' j = conns n j)
     \<and> conn_state (conns n' k) \<noteq> DISCONNECTED)"

lemma removal_frame: "RemoveConnection cb cur k n = Inr n' \<Longrightarrow> conns n' = conns n \<and> num_conns n' = num_conns n \<and> conn_disp n' = conn_disp n"
  by (auto simp: RemoveConnection_def run_in_loop_def RemoveConnectionInLoop_def AssertInLoopThread_def queue_net_def rbind_Inr_iff
      split: if_splits prod.splits)

lemma close_touches:
  assumes "close_conn (Some OnConnection) k n = Inr n'"
  shows "touches k n n'"
proof -
  from assms obtain c where c: "HandleClose (conns n k) = Inr c"
    "RemoveConnection (Some OnConnection) (conn_disp n k) k (n\<lparr>conns := (conns n)(k := c)\<rparr>) = Inr n'"
    by (auto simp: close_conn_def on_conn_object_def rbind_Inr_iff)
  have "conn_state c \<noteq> DISCONNECTED" using c(1) by (auto simp: HandleClose_def Let_def)
  then show ?thesis using removal_frame[OF c(2)] by (simp add: touches_def)
qed

lemma set_touches: "conn_state c \<noteq> DISCONNECTED \<Longrightarrow> touches k n (set_conn k c n)"
  by (simp add: touches_def set_conn_def)

lemma open_talks:
  assumes "http_inv cb (flat s)" and "callable s i k ReadFunc"
  obtains d out where "talks (conns (sys_net (srv s)) k) d" "replay cb (chunks (srv s) k) [] dialogue_init = Some (out, d)"
    "buf_inv (input_buf (conns (sys_net (srv s)) k))"
proof -
  have "conversation cb (chunks (srv s) k) (conns (sys_net (srv s)) k)"
    using assms by (simp add: http_inv_def callable_def)
  then obtain d out where d: "talks (conns (sys_net (srv s)) k) d" "replay cb (chunks (srv s) k) [] dialogue_init = Some (out, d)"
    using assms(2) by (auto simp: conversation_def callable_def)
  from d(1) have "buf_inv (input_buf (conns (sys_net (srv s)) k))" by (auto simp: talks_def conn_inv_def)
  with d show thesis by (rule that)
qed

lemma write_total:
  assumes "http_inv cb (flat s)" and "callable s i k f" and "kernel_ok wr"
  shows "\<exists>c'. HandleWrite wr (conns (sys_net (srv s)) k) = Inr c' \<and> conn_state c' \<noteq> DISCONNECTED"
proof -
  let ?c = "conns (sys_net (srv s)) k"
  have conv: "conversation cb (chunks (srv s) k) ?c" using assms(1,2) by (simp add: http_inv_def callable_def)
  have "\<exists>c'. HandleWrite wr ?c = Inr c'"
  proof (cases "is_care_write (conn_handler ?c)")
    case True
    then have "conn_inv ?c" using conv by (auto simp: conversation_def talks_def)
    from HandleWrite_spec[OF this assms(3)] show ?thesis by blast
  next
    case False
    then show ?thesis by (simp add: HandleWrite_def)
  qed
  with write_alive[of wr ?c] assms(2) show ?thesis by (auto simp: callable_def)
qed

definition returns :: "http_callback \<Rightarrow> server_sys \<Rightarrow> nat \<Rightarrow> nat \<Rightarrow> http_sys \<Rightarrow> bool" where
  "returns cb s i k s1 = ((dispatched i s s1 = s \<or> server_step cb s (dispatched i s s1)) \<and> touches k (sys_net (srv s)) (sys_net s1))"

lemma handling_of: "callable s i k f \<Longrightarrow> handling i s \<Longrightarrow> handling (conn_disp (sys_net (srv s)) k) s"
  by (simp add: callable_def)

lemma write_returns:
  assumes inv: "whole_inv cb s" and h: "handling i s" and c: "callable s i k f" and "f \<noteq> ReadFunc" and ok: "kernel_ok wr"
  shows "\<exists>s1. call_handler cb readv wr k f (srv s) = Inr s1 \<and> returns cb s i k s1"
proof -
  from inv have "http_inv cb (flat s)" and q: "net_queues (sys_net (srv s)) = (\<lambda>_. [])" by (simp_all add: whole_inv_def)
  from write_total[OF this(1) c ok] obtain c' where c': "HandleWrite wr (conns (sys_net (srv s)) k) = Inr c'"
    "conn_state c' \<noteq> DISCONNECTED" by blast
  let ?s1 = "(srv s)\<lparr>sys_net := set_conn k c' (sys_net (srv s))\<rparr>"
  have "dispatched i s ?s1 = s\<lparr>srv := ?s1\<rparr>" by (rule dispatched_quiet) (simp add: set_conn_def q)
  moreover have "server_step cb s (s\<lparr>srv := ?s1\<rparr>)"
    using server_step.writable[OF _ handling_of[OF c h] ok c'(1)] c by (simp add: callable_def)
  ultimately show ?thesis using call_write[OF assms(4) c'(1)] set_touches[OF c'(2)] by (simp add: returns_def)
qed

lemma eof_returns:
  assumes inv: "whole_inv cb s" and h: "handling i s" and c: "callable s i k ReadFunc"
    and r: "readv (read_iov (input_buf (conns (sys_net (srv s)) k))) = Inr []"
  shows "\<exists>s1. call_handler cb readv wr k ReadFunc (srv s) = Inr s1 \<and> returns cb s i k s1"
proof -
  let ?n = "sys_net (srv s)"
  from inv have "http_inv cb (flat s)" by (simp add: whole_inv_def)
  with c obtain d out where b: "buf_inv (input_buf (conns ?n k))" by (elim open_talks)
  have care: "k < num_conns ?n" "cares_read (conn_handler (conns ?n k))" "conn_disp ?n k = i" using c by (simp_all add: callable_def)
  have "net_inv (net_of s)" using \<open>http_inv cb (flat s)\<close> unfolding net_of_def http_inv_def by blast
  from close_ok[OF this, of k "Some OnConnection"] care obtain n0 where
    "close_conn (Some OnConnection) k (behind (\<lambda>i. waiting (loops s i)) ?n) = Inr n0" by (auto simp: net_of_def)
  then obtain n where n: "close_conn (Some OnConnection) k ?n = Inr n"
    by (cases "close_conn (Some OnConnection) k ?n") (simp_all add: close_behind)
  then obtain c' where "HandleClose (conns ?n k) = Inr c'" by (auto simp: close_conn_def on_conn_object_def rbind_Inr_iff)
  then have "call_handler cb readv wr k ReadFunc (srv s) = Inr ((srv s)\<lparr>sys_net := n\<rparr>)" using call_eof[where readv = readv, OF b r] n by simp
  moreover have "server_step cb s (after_op i n s)"
    using server_step.close[OF care(1) handling_of[OF c h] care(2) n] care(3) by simp
  then have "server_step cb s (dispatched i s ((srv s)\<lparr>sys_net := n\<rparr>))" by (simp add: dispatched_def after_op_def)
  ultimately show ?thesis using close_touches[OF n] by (simp add: returns_def)
qed

lemma message_returns:
  assumes inv: "whole_inv cb s" and h: "handling i s" and c: "callable s i k ReadFunc" and ok: "readv_ok readv" "kernel_ok wr"
    and r: "readv (read_iov (input_buf (conns (sys_net (srv s)) k))) = Inr chunk" "chunk \<noteq> []"
  shows "if replay cb (chunks (srv s) k @ [chunk]) [] dialogue_init = None
     then call_handler cb readv wr k ReadFunc (srv s) = Inl Diverges
     else \<exists>s1. call_handler cb readv wr k ReadFunc (srv s) = Inr s1 \<and> returns cb s i k s1"
proof -
  let ?n = "sys_net (srv s)"
  from inv have hi: "http_inv cb (flat s)" and q: "net_queues ?n = (\<lambda>_. [])" and small: "small_bodies cb"
    by (simp_all add: whole_inv_def http_inv_def)
  obtain d out where d: "talks (conns ?n k) d" "replay cb (chunks (srv s) k) [] dialogue_init = Some (out, d)"
    "buf_inv (input_buf (conns ?n k))" using open_talks[OF hi c] .
  note call = call_message[OF d(3) ok(1) r, of cb wr]
  note spec = on_readable_spec[OF d(1) ok r small]
  show ?thesis
  proof (cases "react cb chunk d")
    case None
    then show ?thesis using spec call d(2) by (simp add: replay_snoc)
  next
    case (Some x)
    then obtain c' where c': "on_readable cb readv wr (conns ?n k) = Inr c'" "activity (conns ?n k) c'" using spec by (cases x) auto
    let ?s1 = "(srv s)\<lparr>sys_net := set_conn k c' ?n, chunks := (chunks (srv s))(k := chunks (srv s) k @ [chunk])\<rparr>"
    have "dispatched i s ?s1 = s\<lparr>srv := ?s1\<rparr>" by (rule dispatched_quiet) (simp add: set_conn_def q)
    moreover have "server_step cb s (s\<lparr>srv := ?s1\<rparr>)"
      using server_step.message[OF _ handling_of[OF c h] _ ok r c'(1)] c by (simp add: callable_def)
    moreover have "conn_state c' \<noteq> DISCONNECTED" using c'(2) c by (auto simp: activity_def callable_def)
    ultimately show ?thesis using call c'(1) set_touches[of c' k ?n] Some d(2)
      by (cases x) (auto simp: returns_def replay_snoc)
  qed
qed

text \<open>Every call, put together.\<close>

definition spins :: "http_callback \<Rightarrow> (nat list \<Rightarrow> int + string) \<Rightarrow> nat \<Rightarrow> event_func \<Rightarrow> http_sys \<Rightarrow> bool" where
  "spins cb readv k f s = (replay cb (chunks s k @ heard readv f (conns (sys_net s) k)) [] dialogue_init = None)"

lemma call_returns:
  assumes inv: "whole_inv cb s" and h: "handling i s" and c: "callable s i k f" and ok: "readv_ok readv" "kernel_ok wr"
  shows "if spins cb readv k f (srv s) then call_handler cb readv wr k f (srv s) = Inl Diverges
     else \<exists>s1. call_handler cb readv wr k f (srv s) = Inr s1 \<and> returns cb s i k s1"
proof -
  let ?c = "conns (sys_net (srv s)) k"
  have hi: "http_inv cb (flat s)" using inv by (simp add: whole_inv_def)
  then have "conversation cb (chunks (srv s) k) ?c" using c by (simp add: http_inv_def callable_def)
  then have calm: "\<not> spins cb readv k f (srv s)" if "heard readv f ?c = []" using that by (auto simp: spins_def conversation_def)
  show ?thesis
  proof (cases "f = ReadFunc")
    case False
    with write_returns[OF inv h c False ok(2)] calm show ?thesis by (simp add: heard_def)
  next
    case True
    note c = c[unfolded True]
    show ?thesis
    proof (cases "readv (read_iov (input_buf ?c))")
      case (Inl err)
      then have "heard readv f ?c = []" by (simp add: heard_def)
      moreover have "dispatched i s (srv s) = s" using inv by (simp add: dispatched_quiet whole_inv_def)
      moreover have "touches k (sys_net (srv s)) (sys_net (srv s))" using c by (simp add: touches_def callable_def)
      ultimately show ?thesis using call_error[where readv = readv, OF Inl] True calm by (simp add: returns_def)
    next
      case (Inr chunk)
      show ?thesis
      proof (cases "chunk = []")
        case True
        with eof_returns[OF inv h c] Inr calm \<open>f = ReadFunc\<close> show ?thesis by (simp add: heard_def)
      next
        case False
        with message_returns[OF inv h c ok Inr False] Inr \<open>f = ReadFunc\<close> show ?thesis by (simp add: spins_def heard_def)
      qed
    qed
  qed
qed

section \<open>The pending calls stay possible\<close>

definition pending_ok :: "server_sys \<Rightarrow> nat \<Rightarrow> calls \<Rightarrow> bool" where
  "pending_ok s i cs = ((cs \<noteq> [] \<longrightarrow> phase (loops s i) = Handling) \<and> distinct (map fst (filter (\<lambda>(k, f). f = ReadFunc) cs))
     \<and> (\<forall>(k, f)\<in>set cs. callable s i k f))"

text \<open>A report of the kernel is one: it names live connections of the loop, and read events only for those that ask for input.\<close>

lemma mask_and_zero:
  fixes a w r :: mask
  assumes "a AND NOT w = 0" and "w AND r = 0"
  shows "a AND r = 0"
proof -
  have "a AND r = (a AND (w AND r)) OR ((a AND NOT w) AND r)" by (rule bit_eqI) (auto simp: bit_simps)
  then show ?thesis using assms by simp
qed

lemma read_needs_interest:
  assumes "ReadFunc \<in> set (event_calls revents)" and "revents AND NOT (m OR EPOLLERR OR EPOLLHUP) = 0"
    and m: "m \<in> {kNone, kRead, kWrite, kRead OR kWrite}"
  shows "m AND kRead = kRead"
proof (rule ccontr)
  assume "m AND kRead \<noteq> kRead"
  then have e: "(m OR EPOLLERR OR EPOLLHUP) AND (EPOLLIN OR EPOLLPRI OR EPOLLRDHUP) = 0"
    using m by (auto simp: kNone_def kRead_def kWrite_def)
  let ?w = "m OR EPOLLERR OR EPOLLHUP" and ?r = "EPOLLIN OR EPOLLPRI OR EPOLLRDHUP"
  have "revents AND ?r = 0" by (rule mask_and_zero[OF assms(2) e])
  then show False using assms(1) by (auto simp: event_calls_def split: if_splits)
qed

lemma reads_once: "map fst (filter (\<lambda>(k, f). f = ReadFunc) (batch_calls evs))
    = map fst (filter (\<lambda>(k, revents). ReadFunc \<in> set (event_calls revents)) evs)"
proof (induction evs)
  case (Cons e evs)
  obtain k r where e: "e = (k, r)" by (cases e)
  have "map fst (filter (\<lambda>(k, f). f = ReadFunc) (map (Pair k) (event_calls r)))
      = (if ReadFunc \<in> set (event_calls r) then [k] else [])" by (simp add: event_calls_def)
  with Cons show ?case by (simp add: e batch_calls_def)
qed (simp add: batch_calls_def)

lemma reported_pending:
  assumes inv: "kernel_inv cb ctl watch own base (s, ls)" and rep: "reported watch own (ls i) evs"
    and ph: "phase (loops s i) = Polling"
  shows "pending_ok (s\<lparr>loops := (loops s)(i := (loops s i)\<lparr>phase := Handling\<rparr>)\<rparr>) i (batch_calls evs)"
proof -
  have whole: "whole_inv cb s" and kept: "all_kept (flat s)" using inv by (simp_all add: kernel_inv_def)
  then have net: "net_inv (net_of s)" unfolding net_of_def whole_inv_def http_inv_def by blast
  have "callable s i k f" if "(k, f) \<in> set (batch_calls evs)" for k f
  proof -
    from that obtain r where r: "(k, r) \<in> set evs" "f \<in> set (event_calls r)" by (auto simp: batch_calls_def)
    with rep obtain fd m where w: "fd \<notin> own" "watch (ls i) fd = Some (k, m)" and m: "r AND NOT (m OR EPOLLERR OR EPOLLHUP) = 0"
      unfolding reported_def by fast
    note o = entry_owner[OF inv w]
    have k: "k < num_conns (sys_net (srv s))" "conn_disp (sys_net (srv s)) k = i" using o(1,3) by (simp_all add: net_of_def)
    have "conn_state (conns (sys_net (srv s)) k) \<noteq> DISCONNECTED" using alive_iff[OF net o(1)] o(2) by (simp add: net_of_def)
    moreover have "m \<in> {kNone, kRead, kWrite, kRead OR kWrite}"
      using kept_handler(1)[of "conns (sys_net (srv s)) k"] kept k(1) o(5) by (simp add: all_kept_def net_of_def)
    then have "f = ReadFunc \<longrightarrow> cares_read (conn_handler (conns (sys_net (srv s)) k))"
      using read_needs_interest[OF _ m] r(2) o(5) by (auto simp: cares_read_def net_of_def)
    ultimately show ?thesis using k by (simp add: callable_def)
  qed
  moreover have "distinct (map fst (filter (\<lambda>(k, f). f = ReadFunc) (batch_calls evs)))"
    unfolding reads_once using rep by (simp add: reported_def distinct_map_filter)
  ultimately show ?thesis by (auto simp: pending_ok_def callable_def)
qed

text \<open>No other thread changes a connection of a loop that handles events.\<close>

lemma task_frame:
  assumes "run_net_task (Some OnConnection) j t n = Inr n'"
  shows "num_conns n' = num_conns n \<and> conn_disp n' = conn_disp n \<and> (conn_disp n k \<noteq> j \<longrightarrow> conns n' k = conns n k)"
proof (cases t)
  case (RemoveTask x)
  with assms show ?thesis
    by (auto simp: RemoveConnectionInLoop_def AssertInLoopThread_def queue_net_def rbind_Inr_iff split: if_splits prod.splits)
qed (use assms in \<open>auto simp: on_conn_object_def rbind_Inr_iff set_connection_established_def set_connection_destroyed_def in_loop_def
      split: if_splits\<close>)

lemma background_frame:
  assumes "background cb P s t" and c: "callable s i k f" and ph: "phase (loops s i) = Handling" and "P i \<noteq> []"
  shows "callable t i k f \<and> phase (loops t i) = Handling"
  using assms(1)
proof cases
  case (loop j l)
  then show ?thesis using c ph assms(4) by (auto simp: callable_def)
next
  case (call j x ts d n)
  have "j \<noteq> i" using call(2) ph by auto
  then show ?thesis using task_frame[OF call(5), of k] call(1) c ph
    by (auto simp: callable_def after_op_def emptied_def deliver_def)
next
  case (accept fd n)
  have "moved (num_conns (sys_net (srv s))) (sys_net (srv s)) n" using accept_moves[OF accept(3)] .
  then have "conns n k = conns (sys_net (srv s)) k" "conn_disp n k = conn_disp (sys_net (srv s)) k" "k < num_conns n"
    using c by (auto simp: moved_def callable_def)
  then show ?thesis using accept(1) c ph by (auto simp: callable_def after_op_def emptied_def deliver_def)
qed

lemma background_pending:
  assumes "background cb P s t" and "pending_ok s i (P i)"
  shows "pending_ok t i (P i)"
proof (cases "P i = []")
  case False
  then have "phase (loops s i) = Handling" using assms(2) by (simp add: pending_ok_def)
  note f = background_frame[OF assms(1) _ this False]
  obtain k f where "(k, f) \<in> set (P i)" using False by (cases "P i") auto
  with f assms(2) show ?thesis by (fastforce simp: pending_ok_def)
qed (simp add: pending_ok_def)

text \<open>A call leaves the others possible.\<close>

lemma call_cares:
  assumes "f \<noteq> ReadFunc" and "call_handler cb readv wr k f s = Inr s1"
  shows "cares_read (conn_handler (conns (sys_net s1) k)) = cares_read (conn_handler (conns (sys_net s) k))"
proof -
  have "conn_funcs readv wr (Some (message_callback True wr 0 cb)) f = Some (HandleWrite wr)" using assms(1) by (cases f) auto
  with assms(2) obtain c' where c': "HandleWrite wr (conns (sys_net s) k) = Inr c'" by (auto simp: call_handler_def Let_def rbind_Inr_iff)
  then have "s1 = s\<lparr>sys_net := set_conn k c' (sys_net s)\<rparr>" using call_write[OF assms(1), of wr s k c' cb readv] assms(2) by simp
  then show ?thesis using HandleWrite_activity[OF c'] by (simp add: set_conn_def activity_def)
qed

lemma dispatched_simps:
  "sys_net (srv (dispatched i s s1)) = emptied (sys_net s1)" "phase (loops (dispatched i s s1) j) = phase (loops s j)"
  by (simp_all add: dispatched_def deliver_def)

lemma call_pending_ok:
  assumes p: "pending_ok s j cs" and c: "callable s i k f" and "touches k (sys_net (srv s)) (sys_net s1)"
    and "call_handler cb readv wr k f (srv s) = Inr s1" and "j = i \<longrightarrow> pending_ok s i ((k, f) # cs)"
  shows "pending_ok (dispatched i s s1) j cs"
proof -
  have "callable (dispatched i s s1) j k' f'" if "(k', f') \<in> set cs" for k' f'
  proof -
    have c': "callable s j k' f'" using p that by (auto simp: pending_ok_def)
    show ?thesis
    proof (cases "k' = k")
      case False
      then show ?thesis using c' assms(3) by (simp add: callable_def touches_def dispatched_simps emptied_def)
    next
      case True
      then have j: "j = i" using c c' by (simp add: callable_def)
      have "cares_read (conn_handler (conns (sys_net s1) k))" if "f' = ReadFunc"
      proof -
        have "f \<noteq> ReadFunc"
          using assms(5) j \<open>(k', f') \<in> set cs\<close> True that by (force simp: pending_ok_def)
        from call_cares[OF this assms(4)] c' that True show ?thesis by (simp add: callable_def)
      qed
      then show ?thesis using c' True assms(3) by (simp add: callable_def touches_def dispatched_simps emptied_def)
    qed
  qed
  with p show ?thesis by (auto simp: pending_ok_def dispatched_simps)
qed

section \<open>The polled server implements the server\<close>

definition poll_inv :: "http_callback \<Rightarrow> (nat \<times> mask, 'e) ctl_fun \<Rightarrow> ('e \<Rightarrow> int \<Rightarrow> (nat \<times> mask) option) \<Rightarrow> int set
    \<Rightarrow> 'e lists \<Rightarrow> 'e polled \<Rightarrow> bool" where
  "poll_inv cb ctl watch own base = (\<lambda>(sl, P). kernel_inv cb ctl watch own base sl \<and> (\<forall>i. pending_ok (fst sl) i (P i)))"

lemma same_fresh: "num_conns n' = num_conns n \<Longrightarrow> fresh_fds own n n'"
  by (auto simp: fresh_fds_def)

lemma told_same: "told ctl n n ls ls"
  by (simp add: told_def loop_requests_none requests_def)

lemma pending_phase:
  assumes "pending_ok s j cs" and "j \<noteq> i"
  shows "pending_ok (s\<lparr>loops := (loops s)(i := l)\<rparr>) j cs"
  using assms by (auto simp: pending_ok_def callable_def)

lemma report_ok:
  assumes inv: "poll_inv cb ctl watch own base ((s, ls), P)" and ph: "phase (loops s i) = Polling"
    and rep: "reported watch own (ls i) evs" and t: "t = s\<lparr>loops := (loops s)(i := (loops s i)\<lparr>phase := Handling\<rparr>)\<rparr>"
  shows "kernel_step cb ctl own (s, ls) (t, ls) \<and> poll_inv cb ctl watch own base ((t, ls), P(i := batch_calls evs))"
proof -
  have k: "kernel_inv cb ctl watch own base (s, ls)" and w: "whole_inv cb s" using inv by (simp_all add: poll_inv_def kernel_inv_def)
  note sel = disp_step.select[OF ph]
  have n: "net_of t = net_of s" unfolding net_of_def t using loop_step_flat(1)[OF w sel] by simp
  have "server_step cb s t" unfolding t by (rule server_step.loop[OF sel]) simp_all
  from kernel_step.both[OF this] n told_same same_fresh have 1: "kernel_step cb ctl own (s, ls) (t, ls)" by metis
  have "pending_ok t j ((P(i := batch_calls evs)) j)" for j
  proof (cases "j = i")
    case True
    then show ?thesis using reported_pending[OF k rep ph] t by simp
  next
    case False
    then show ?thesis using inv pending_phase[of s j "P j" i] t by (simp add: poll_inv_def)
  qed
  with 1 kernel.good_moves[OF k 1] show ?thesis by (simp add: poll_inv_def)
qed

text \<open>Whether the server can make the next call, and what comes of it.\<close>

lemma dispatch_ok:
  assumes inv: "poll_inv cb ctl watch own base ((s, ls), P)" and next': "P i = (k, f) # cs"
    and call: "call_handler cb readv wr k f (srv s) = Inr s1" "returns cb s i k s1"
  shows "\<exists>ls'. told ctl (net_of s) (net_of (dispatched i s s1)) ls ls'
     \<and> (kernel_step cb ctl own)\<^sup>*\<^sup>* (s, ls) (dispatched i s s1, ls')
     \<and> poll_inv cb ctl watch own base ((dispatched i s s1, ls'), P(i := cs))"
proof -
  let ?t = "dispatched i s s1"
  have k: "kernel_inv cb ctl watch own base (s, ls)" and p: "\<And>j. pending_ok s j (P j)" using inv by (simp_all add: poll_inv_def)
  have c: "callable s i k f" using p[of i] next' by (simp add: pending_ok_def)
  have t: "touches k (sys_net (srv s)) (sys_net s1)" using call(2) by (simp add: returns_def)
  have "\<exists>ls'. told ctl (net_of s) (net_of ?t) ls ls' \<and> (kernel_step cb ctl own)\<^sup>*\<^sup>* (s, ls) (?t, ls')"
  proof (cases "?t = s")
    case True
    then show ?thesis using told_same by (metis rtranclp.rtrancl_refl)
  next
    case False
    then have st: "server_step cb s ?t" using call(2) by (simp add: returns_def)
    have "num_conns (net_of ?t) = num_conns (net_of s)" using t by (simp add: net_of_def dispatched_simps touches_def emptied_def)
    note fresh = same_fresh[OF this, of own]
    from kernel_can[OF k st fresh] kernel_step.both[OF st fresh] show ?thesis by (meson r_into_rtranclp)
  qed
  then obtain ls' where ls': "told ctl (net_of s) (net_of ?t) ls ls'" "(kernel_step cb ctl own)\<^sup>*\<^sup>* (s, ls) (?t, ls')" by blast
  have "pending_ok ?t j ((P(i := cs)) j)" for j
  proof (rule call_pending_ok[OF _ c t call(1)])
    show "pending_ok s j ((P(i := cs)) j)" using p[of j] p[of i] next' by (auto simp: pending_ok_def split: if_splits)
    show "j = i \<longrightarrow> pending_ok s i ((k, f) # (P(i := cs)) j)" using p[of i] next' by simp
  qed
  with ls' kernel.good_reach[OF ls'(2) k] show ?thesis by (auto simp: poll_inv_def)
qed

lemma poll_step_ok:
  assumes "poll_step cb ctl watch own p q" and inv: "poll_inv cb ctl watch own base p"
  shows "(kernel_step cb ctl own)\<^sup>*\<^sup>* (fst p) (fst q) \<and> poll_inv cb ctl watch own base q"
  using assms(1)
proof cases
  case (report s i ls evs P)
  from report_ok[OF inv[unfolded report(1)] report(3,4) refl] report(1,2) show ?thesis by auto
next
  case (other P s t ls ls')
  have k: "kernel_step cb ctl own (s, ls) (t, ls')" using kernel_step.both[OF background_step[OF other(3)] other(4,5)] .
  have "kernel_inv cb ctl watch own base (s, ls)" using inv other(1) by (simp add: poll_inv_def)
  from kernel.good_moves[OF this k] k inv background_pending[OF other(3)] other(1,2) show ?thesis by (auto simp: poll_inv_def)
next
  case (dispatch P i k f cs s readv wr s1 ls ls')
  have w: "whole_inv cb s" and c: "callable s i k f" using inv dispatch(1,3) by (auto simp: poll_inv_def kernel_inv_def pending_ok_def
        dest: spec[of _ i])
  from call_returns[OF w dispatch(4) c dispatch(5,6)] dispatch(7) have "returns cb s i k s1" by (auto split: if_splits)
  from dispatch_ok[OF inv[unfolded dispatch(1)] dispatch(3,7) this] told_unique[OF dispatch(8)] dispatch(1,2)
  show ?thesis by (metis fst_conv)
qed

interpretation polled: step_refinement "poll_step cb ctl watch own" "poll_inv cb ctl watch own base" fst "kernel_step cb ctl own"
  for cb ctl watch own base
  by unfold_locales (use poll_step_ok in blast)+

lemma poll_init:
  assumes "small_bodies cb" and "kernel_ok_lists ctl watch own base"
  shows "poll_inv cb ctl watch own base ((server_init name threads, base), \<lambda>_. [])"
  using kernel_init[OF assms] by (simp add: poll_inv_def pending_ok_def)

text \<open>
  Claim C4. The dispatch of events is safe. In every reachable state of the server driven by its polls, in which loops dispatch batches of
  reported events while other loops accept, remove and destroy connections: the server behaves as the one whose handlers run at any time, so
  that all that is proved of that one holds; each callback that a batch still has to make, through a bare pointer, is one of a
  connection of that loop that is still referenced; and the next one returns without a failing assertion, whatever the socket answers,
  except that a read of input on which the parser's specification says so does not return.
\<close>

theorem dispatch_safe:
  assumes "(poll_step cb ctl watch own)\<^sup>*\<^sup>* ((server_init name threads, base), \<lambda>_. []) ((s, ls), P)" and "small_bodies cb"
    and "epoll_ok ctl watch" and "\<forall>i fd. fd \<notin> own \<longrightarrow> watch (base i) fd = None"
  shows "(kernel_step cb ctl own)\<^sup>*\<^sup>* (server_init name threads, base) (s, ls)
     \<and> (\<forall>i k f. (k, f) \<in> set (P i) \<longrightarrow> k < num_conns (net_of s) \<and> referenced (net_of s) k \<and> conn_disp (net_of s) k = i)
     \<and> (\<forall>i k f cs readv wr. P i = (k, f) # cs \<and> handling i s \<and> readv_ok readv \<and> kernel_ok wr \<longrightarrow>
          (if spins cb readv k f (srv s) then call_handler cb readv wr k f (srv s) = Inl Diverges
           else \<exists>s1 ls'. call_handler cb readv wr k f (srv s) = Inr s1
                  \<and> poll_step cb ctl watch own ((s, ls), P) ((dispatched i s s1, ls'), P(i := cs))))"
proof -
  have k: "kernel_ok_lists ctl watch own base" using assms(3,4) by (simp add: kernel_ok_lists_def)
  note init = poll_init[OF assms(2) k, of name threads]
  have inv: "poll_inv cb ctl watch own base ((s, ls), P)" by (rule polled.good_reach[OF assms(1) init])
  have run: "(kernel_step cb ctl own)\<^sup>*\<^sup>* (server_init name threads, base) (s, ls)"
    using polled.view_reach[OF assms(1) init] by simp
  have w: "whole_inv cb s" and p: "\<And>i. pending_ok s i (P i)" using inv by (simp_all add: poll_inv_def kernel_inv_def)
  have net: "net_inv (net_of s)" using w unfolding net_of_def whole_inv_def http_inv_def by blast
  have "k < num_conns (net_of s) \<and> referenced (net_of s) k \<and> conn_disp (net_of s) k = i" if "(k, f) \<in> set (P i)" for i k f
    using p[of i] that alive_iff[OF net, of k] by (auto simp: pending_ok_def callable_def net_of_def)
  moreover have "if spins cb readv k f (srv s) then call_handler cb readv wr k f (srv s) = Inl Diverges
       else \<exists>s1 ls'. call_handler cb readv wr k f (srv s) = Inr s1
              \<and> poll_step cb ctl watch own ((s, ls), P) ((dispatched i s s1, ls'), P(i := cs))"
    if c: "P i = (k, f) # cs" "handling i s" "readv_ok readv" "kernel_ok wr" for i k f cs readv wr
  proof -
    have "callable s i k f" using p[of i] c(1) by (simp add: pending_ok_def)
    note r = call_returns[OF w c(2) this c(3,4)]
    show ?thesis
    proof (cases "spins cb readv k f (srv s)")
      case False
      with r obtain s1 where s1: "call_handler cb readv wr k f (srv s) = Inr s1" "returns cb s i k s1" by auto
      from dispatch_ok[where P = P and i = i, OF inv c(1) s1] obtain ls'
        where ls': "told ctl (net_of s) (net_of (dispatched i s s1)) ls ls'" by blast
      from poll_step.dispatch[where P = P and i = i, OF c s1(1) ls'] s1(1) False show ?thesis by auto
    qed (use r in simp)
  qed
  ultimately show ?thesis using run by blast
qed

section \<open>A run\<close>

lemma quiet_polled_step:
  assumes "quiet (loops s i) l" and w: "whole_inv cb s"
  shows "poll_step cb ctl watch own ((s, ls), \<lambda>_. []) ((s\<lparr>loops := (loops s)(i := l)\<rparr>, ls), \<lambda>_. [])"
proof -
  let ?t = "s\<lparr>loops := (loops s)(i := l)\<rparr>"
  have d: "disp_step (loops s i) l" "queued l = queued (loops s i)" "ran (disp l) = ran (disp (loops s i))"
    using assms(1) by (simp_all add: quiet_def)
  show ?thesis
  proof (cases "phase (loops s i) = Polling \<and> phase l = Handling")
    case True
    from d(1) have l: "l = (loops s i)\<lparr>phase := Handling\<rparr>" by cases (use True in auto)
    have "reported watch own (ls i) []" by (simp add: reported_def)
    from poll_step.report[where P = "\<lambda>_. []" and i = i and s = s and ls = ls, OF _ this] True show ?thesis
      by (simp add: l batch_calls_def fun_upd_idem)
  next
    case False
    have "background cb (\<lambda>_. []) s ?t" by (rule background.loop[OF d False]) simp
    moreover have n: "net_of ?t = net_of s" using loop_step_flat(1)[OF w d] by (simp add: net_of_def)
    then have "fresh_fds own (net_of s) (net_of ?t)" by (simp add: same_fresh)
    moreover have "told ctl (net_of s) (net_of ?t) ls ls" unfolding n by (rule told_same)
    ultimately show ?thesis by (rule poll_step.other)
  qed
qed

lemma quiet_polled:
  assumes "quiet\<^sup>*\<^sup>* (loops s i) l" and w: "whole_inv cb s"
  shows "(poll_step cb ctl watch own)\<^sup>*\<^sup>* ((s, ls), \<lambda>_. []) ((s\<lparr>loops := (loops s)(i := l)\<rparr>, ls), \<lambda>_. [])
     \<and> whole_inv cb (s\<lparr>loops := (loops s)(i := l)\<rparr>)"
  using assms(1)
proof (induction rule: rtranclp_induct)
  case base
  then show ?case using w by simp
next
  case (step l1 l2)
  let ?s = "s\<lparr>loops := (loops s)(i := l1)\<rparr>"
  have q: "quiet (loops ?s i) l2" using step.hyps(2) by simp
  let ?t = "s\<lparr>loops := (loops s)(i := l2)\<rparr>"
  note w1 = conjunct2[OF step.IH]
  have e: "?s\<lparr>loops := (loops ?s)(i := l2)\<rparr> = ?t" by simp
  have "whole_inv cb ?t" unfolding e[symmetric] by (rule loop_step_flat(2)[OF w1]) (use q in \<open>simp_all only: quiet_def\<close>)
  moreover have "poll_step cb ctl watch own ((?s, ls), \<lambda>_. []) ((?t, ls), \<lambda>_. [])"
    unfolding e[symmetric] by (rule quiet_polled_step[OF q w1])
  then have "(poll_step cb ctl watch own)\<^sup>*\<^sup>* ((s, ls), \<lambda>_. []) ((?t, ls), \<lambda>_. [])"
    by (rule rtranclp.rtrancl_into_rtrancl[OF conjunct1[OF step.IH]])
  ultimately show ?case by (rule conjI[rotated])
qed

text \<open>The loops start, the acceptor's loop is told of a client, and loop 1 of a hang-up of that client.\<close>

abbreviation demo_lists :: "nat \<Rightarrow> int \<Rightarrow> (nat \<times> mask) option" where
  "demo_lists \<equiv> \<lambda>_. Map.empty"

lemma demo_polled:
  "(poll_step demo_callback demo_ctl (\<lambda>e. e) {})\<^sup>*\<^sup>* ((server_init ''s'' 1, demo_lists), \<lambda>_. []) ((demo_ready, demo_lists), \<lambda>_. [])"
proof -
  let ?s = "server_init ''s'' 1 :: server_sys"
  have l: "loops ?s i = disp_init (int i)" for i by (simp add: server_init_def)
  have 1: "quiet\<^sup>*\<^sup>* (loops ?s 1) (demo_loop 1 Polling)" unfolding l by (rule demo_loop_starts(1))
  note a = quiet_polled[OF 1 whole_init[OF demo_small], of demo_ctl "\<lambda>e. e" "{}" demo_lists]
  let ?s1 = "?s\<lparr>loops := (loops ?s)(1 := demo_loop 1 Polling)\<rparr>"
  have 2: "quiet\<^sup>*\<^sup>* (loops ?s1 0) (demo_loop 0 Handling)" using demo_loop_starts(2)[of 0] l[of 0] by simp
  have "?s1\<lparr>loops := (loops ?s1)(0 := demo_loop 0 Handling)\<rparr> = demo_ready" by (simp add: demo_ready_def)
  with quiet_polled[OF 2 conjunct2[OF a], of demo_ctl "\<lambda>e. e" "{}" demo_lists]
  have "(poll_step demo_callback demo_ctl (\<lambda>e. e) {})\<^sup>*\<^sup>* ((?s1, demo_lists), \<lambda>_. []) ((demo_ready, demo_lists), \<lambda>_. [])" by simp
  then show ?thesis by (rule rtranclp_trans[OF conjunct1[OF a]])
qed

lemma bits_reported: "a AND NOT (m OR b OR a) = 0" for m a b :: mask
  by (rule bit_eqI) (auto simp: bit_simps)

lemmas always_reported = bits_reported[of EPOLLHUP _ EPOLLERR]

lemma demo_polled_inv: "(poll_step demo_callback demo_ctl (\<lambda>e. e) {})\<^sup>*\<^sup>* ((server_init ''s'' 1, demo_lists), \<lambda>_. []) q
    \<Longrightarrow> poll_inv demo_callback demo_ctl (\<lambda>e. e) {} demo_lists q"
proof -
  have k: "kernel_ok_lists demo_ctl (\<lambda>e. e) {} demo_lists" using demo_ctl_ok by (simp add: kernel_ok_lists_def)
  show "(poll_step demo_callback demo_ctl (\<lambda>e. e) {})\<^sup>*\<^sup>* ((server_init ''s'' 1, demo_lists), \<lambda>_. []) q
    \<Longrightarrow> poll_inv demo_callback demo_ctl (\<lambda>e. e) {} demo_lists q"
    using polled.good_reach[OF _ poll_init[OF demo_small k]] .
qed

lemma demo_accepted:
  obtains n ls where "(poll_step demo_callback demo_ctl (\<lambda>e. e) {})\<^sup>*\<^sup>* ((server_init ''s'' 1, demo_lists), \<lambda>_. [])
      ((after_op 0 n demo_ready, ls), \<lambda>_. [])" "num_conns n = 1" "net_queues n = (\<lambda>j. if j = 1 then [EstablishTask 0] else [])"
    "conn_disp n 0 = 1"
proof -
  have inv: "kernel_inv demo_callback demo_ctl (\<lambda>e. e) {} demo_lists (demo_ready, demo_lists)"
    using demo_polled_inv[OF demo_polled] by (simp add: poll_inv_def)
  obtain n where n: "NewConnection (Some OnConnection) False 0 7 (net_init ''s'' 1) = Inr n" "num_conns n = 1"
    "net_queues n = (\<lambda>j. if j = 1 then [EstablishTask 0] else [])" "conn_disp n 0 = 1" using demo_accept by blast
  let ?s = "after_op 0 n demo_ready"
  have b: "background demo_callback (\<lambda>_. []) demo_ready ?s"
    by (rule background.accept[OF demo_handles(1), where fd = 7]) (simp only: demo_handles(2) n(1))
  have "num_conns (net_of demo_ready) = 0"
    using demo_handles(2) by (simp add: net_of_def flat_def behind_def net_init_def)
  then have fresh: "fresh_fds {} (net_of demo_ready) (net_of ?s)" by (simp add: fresh_fds_def)
  from kernel_can[OF inv background_step[OF b] fresh] obtain ls where ls: "told demo_ctl (net_of demo_ready) (net_of ?s) demo_lists ls" by blast
  show thesis by (rule that[OF rtranclp.rtrancl_into_rtrancl[OF demo_polled poll_step.other[OF b fresh ls]] n(2-4)])
qed

text \<open>A hang-up can be reported for every connection that is referenced.\<close>

lemma demo_report:
  assumes run: "(poll_step demo_callback demo_ctl (\<lambda>e. e) {})\<^sup>*\<^sup>* ((server_init ''s'' 1, demo_lists), \<lambda>_. []) ((s, ls), \<lambda>_. [])"
    and "phase (loops s i) = Polling" and k: "k < num_conns (net_of s)" "referenced (net_of s) k" "conn_disp (net_of s) k = i"
    and t: "t = s\<lparr>loops := (loops s)(i := (loops s i)\<lparr>phase := Handling\<rparr>)\<rparr>"
  shows "(poll_step demo_callback demo_ctl (\<lambda>e. e) {})\<^sup>*\<^sup>* ((server_init ''s'' 1, demo_lists), \<lambda>_. [])
      ((t, ls), (\<lambda>_. [])(i := [(k, CloseFunc)]))"
proof -
  have "exact (\<lambda>e. e) demo_lists (net_of s) ls" using demo_polled_inv[OF run] by (simp add: poll_inv_def kernel_inv_def)
  with k have "ls i (fd_of (net_of s) k) = Some (k, eh_events (handler_of (net_of s) k))" by (auto simp: exact_def)
  with always_reported have rep: "reported (\<lambda>e. e) {} (ls i) [(k, EPOLLHUP)]"
    unfolding reported_def by (simp only: list.map distinct.simps list.set ball_simps split_conv) auto
  have "event_calls EPOLLHUP = [CloseFunc]" by code_simp
  then have "batch_calls [(k, EPOLLHUP)] = [(k, CloseFunc)]" by (simp add: batch_calls_def)
  with poll_step.report[where P = "\<lambda>_. []" and cb = demo_callback and ctl = demo_ctl and i = i and s = s and ls = ls, OF assms(2) rep]
  have "poll_step demo_callback demo_ctl (\<lambda>e. e) {} ((s, ls), \<lambda>_. []) ((t, ls), (\<lambda>_. [])(i := [(k, CloseFunc)]))" unfolding t by (simp only:)
  with run show ?thesis by (rule rtranclp.rtrancl_into_rtrancl)
qed

lemma demo_hangup:
  obtains s ls where "(poll_step demo_callback demo_ctl (\<lambda>e. e) {})\<^sup>*\<^sup>* ((server_init ''s'' 1, demo_lists), \<lambda>_. [])
      ((s, ls), (\<lambda>_. [])(1 := [(0, CloseFunc)]))" "handling 1 s" "chunks (srv s) 0 = []"
proof -
  obtain n ls where r: "(poll_step demo_callback demo_ctl (\<lambda>e. e) {})\<^sup>*\<^sup>* ((server_init ''s'' 1, demo_lists), \<lambda>_. [])
      ((after_op 0 n demo_ready, ls), \<lambda>_. [])" and n: "num_conns n = 1" "net_queues n = (\<lambda>j. if j = 1 then [EstablishTask 0] else [])"
    "conn_disp n 0 = 1" by (rule demo_accepted)
  let ?s = "after_op 0 n demo_ready"
  have one: "0 < num_conns (net_of ?s)" "EstablishTask 0 \<in> set (net_queues (net_of ?s) 1)" "conn_disp (net_of ?s) 0 = 1"
    using n by (simp_all add: net_of_def flat_after_op behind_def)
  then have ref: "referenced (net_of ?s) 0" unfolding referenced_def by force
  have ph: "phase (loops ?s 1) = Polling" by (simp add: after_op_def deliver_def demo_ready_def demo_loop_def)
  let ?t = "?s\<lparr>loops := (loops ?s)(1 := (loops ?s 1)\<lparr>phase := Handling\<rparr>)\<rparr>"
  have "handling 1 ?t"
    by (simp add: handling_def after_op_def deliver_def demo_ready_def demo_loop_def post_def disp_init_def)
  moreover have "chunks (srv ?t) 0 = []" by (simp add: after_op_def demo_ready_def server_init_def http_init_def)
  ultimately show thesis by (rule that[OF demo_report[OF r ph one(1) ref one(3) refl]])
qed

theorem dispatch_safe_witness:
  "\<exists>(s :: server_sys) s1. referenced (net_of s) 0 \<and> conn_disp (net_of s) 0 = 1
     \<and> call_handler demo_callback (demo_readv_of ''GET'') take_one 0 CloseFunc (srv s) = Inr s1"
proof -
  let ?r = "demo_readv_of ''GET''"
  obtain s ls where r: "(poll_step demo_callback demo_ctl (\<lambda>e. e) {})\<^sup>*\<^sup>* ((server_init ''s'' 1, demo_lists), \<lambda>_. [])
      ((s, ls), (\<lambda>_. [])(1 := [(0, CloseFunc)]))" and h: "handling 1 s" and c: "chunks (srv s) 0 = []" by (rule demo_hangup)
  have base: "\<forall>i fd. fd \<notin> {} \<longrightarrow> (\<lambda>e. e) (demo_lists i) fd = None" by simp
  note safe = dispatch_safe[where watch = "\<lambda>e. e" and base = demo_lists, OF r demo_small demo_ctl_ok base]
  have "readv_ok ?r" using demo_readv_of_delivers by (simp add: delivers_def)
  moreover have "\<not> spins demo_callback ?r 0 CloseFunc (srv s)" using c by (simp add: spins_def heard_def)
  moreover have "((\<lambda>_. [])(1 := [(0, CloseFunc)]) :: nat \<Rightarrow> calls) 1 = (0, CloseFunc) # []" by simp
  ultimately have "\<exists>s1. call_handler demo_callback ?r take_one 0 CloseFunc (srv s) = Inr s1"
    using conjunct2[OF conjunct2[OF safe]] h take_one_ok by (metis (no_types, lifting))
  moreover have "referenced (net_of s) 0 \<and> conn_disp (net_of s) 0 = 1" using conjunct1[OF conjunct2[OF safe]] by auto
  ultimately show ?thesis by blast
qed

text \<open>Quiet steps of a loop.\<close>

lemma demo_quiet:
  assumes run: "(poll_step demo_callback demo_ctl (\<lambda>e. e) {})\<^sup>*\<^sup>* ((server_init ''s'' 1, demo_lists), \<lambda>_. []) ((s, ls), \<lambda>_. [])"
    and "quiet\<^sup>*\<^sup>* (loops s i) l"
  shows "(poll_step demo_callback demo_ctl (\<lambda>e. e) {})\<^sup>*\<^sup>* ((server_init ''s'' 1, demo_lists), \<lambda>_. [])
      ((s\<lparr>loops := (loops s)(i := l)\<rparr>, ls), \<lambda>_. [])"
proof -
  have "whole_inv demo_callback s" using demo_polled_inv[OF run] by (simp add: poll_inv_def kernel_inv_def)
  from rtranclp_trans[OF run conjunct1[OF quiet_polled[OF assms(2) this]]] show ?thesis .
qed

text \<open>The loop calls the establishment of a connection.\<close>

lemma demo_call:
  assumes run: "(poll_step demo_callback demo_ctl (\<lambda>e. e) {})\<^sup>*\<^sup>* ((server_init ''s'' 1, demo_lists), \<lambda>_. []) ((s, ls), \<lambda>_. [])"
    and ph: "phase (loops s i) = Running (EstablishTask k # ts)" "\<not> self_owing (loops s i)"
  obtains t ls' where "(poll_step demo_callback demo_ctl (\<lambda>e. e) {})\<^sup>*\<^sup>* ((server_init ''s'' 1, demo_lists), \<lambda>_. []) ((t, ls'), \<lambda>_. [])"
    "phase (loops t i) = Running ts" "\<not> self_owing (loops t i)" "quit (disp (loops t i)) = quit (disp (loops s i))"
    "num_conns (net_of t) = num_conns (net_of s)" "conn_disp (net_of t) = conn_disp (net_of s)" "chunks (srv t) = chunks (srv s)"
    "conn_state (conns (net_of t) k) = CONNECTED" "cares_read (conn_handler (conns (net_of t) k))"
proof -
  have inv: "kernel_inv demo_callback demo_ctl (\<lambda>e. e) {} demo_lists (s, ls)" using demo_polled_inv[OF run] by (simp add: poll_inv_def)
  then have w: "whole_inv demo_callback s" by (simp add: kernel_inv_def)
  from called_succeeds[OF w ph(1)] obtain m where
    m: "run_net_task (Some OnConnection) i (EstablishTask k) (sys_net (srv s)) = Inr m" by blast
  have "net_queues (sys_net (srv s)) = (\<lambda>_. [])" using w by (simp add: whole_inv_def)
  with m have fr: "num_conns m = num_conns (net_of s)" "conn_disp m = conn_disp (net_of s)" "net_queues m = (\<lambda>_. [])"
    by (auto simp: on_conn_object_def rbind_Inr_iff net_of_def)
  let ?d = "(disp (loops s i))\<lparr>ran := ran (disp (loops s i)) @ [EstablishTask k]\<rparr>"
  define u where "u = after_op i m (s\<lparr>loops := (loops s)(i := (loops s i)\<lparr>disp := ?d, phase := Running ts\<rparr>)\<rparr>)"
  have b: "background demo_callback (\<lambda>_. []) s u" unfolding u_def
    by (rule background.call[OF ph _ m]) (simp add: call_pending_def)
  have net: "num_conns (net_of u) = num_conns (net_of s)" "conn_disp (net_of u) = conn_disp (net_of s)" "conns (net_of u) = conns m"
    using fr by (simp_all add: u_def net_of_def flat_after_op)
  from kernel_can[OF inv background_step[OF b] same_fresh[OF net(1)]] obtain ls' where
    ls': "told demo_ctl (net_of s) (net_of u) ls ls'" by blast
  have l: "loops u i = (loops s i)\<lparr>disp := ?d, phase := Running ts\<rparr>" by (simp add: u_def after_op_def deliver_def fr(3) post_def)
  show thesis
    by (rule that[OF rtranclp.rtrancl_into_rtrancl[OF run poll_step.other[OF b same_fresh[OF net(1)] ls']]])
      (use l ph(2) net task_achieves[OF m] in \<open>simp_all add: u_def after_op_def\<close>)
qed

text \<open>One turn of the I/O loop opens the connection; then it polls again.\<close>

lemma demo_opened:
  obtains s ls where "(poll_step demo_callback demo_ctl (\<lambda>e. e) {})\<^sup>*\<^sup>* ((server_init ''s'' 1, demo_lists), \<lambda>_. []) ((s, ls), \<lambda>_. [])"
    "phase (loops s 1) = Polling" "num_conns (net_of s) = 1" "conn_disp (net_of s) 0 = 1"
    "conn_state (conns (net_of s) 0) = CONNECTED" "cares_read (conn_handler (conns (net_of s) 0))" "chunks (srv s) 0 = []"
proof -
  obtain n ls where r: "(poll_step demo_callback demo_ctl (\<lambda>e. e) {})\<^sup>*\<^sup>* ((server_init ''s'' 1, demo_lists), \<lambda>_. [])
      ((after_op 0 n demo_ready, ls), \<lambda>_. [])" and n: "num_conns n = 1" "net_queues n = (\<lambda>j. if j = 1 then [EstablishTask 0] else [])"
    "conn_disp n 0 = 1" by (rule demo_accepted)
  define s where "s = after_op 0 n demo_ready"
  note r = r[folded s_def]
  have w: "whole_inv demo_callback s" using demo_polled_inv[OF r] by (simp add: poll_inv_def kernel_inv_def)
  have l: "loops s 1 = post False [EstablishTask 0] (demo_loop 1 Polling)" using n(2) by (simp add: s_def after_op_def deliver_def demo_ready_def)
  have f: "phase (loops s 1) = Polling" "waiting (loops s 1) = [EstablishTask 0]" "\<not> quit (disp (loops s 1))" unfolding l
    by (simp_all add: demo_loop_def disp_init_def waiting_def in_flight_def) (simp_all add: post_def queue_push_def)
  have "disp_inv (loops s 1)" using w by (simp add: whole_inv_def)
  from quiet_batch[OF this f(1)] f(2,3) obtain l1 where l1: "quiet\<^sup>*\<^sup>* (loops s 1) l1" "phase l1 = Running [EstablishTask 0]"
    "\<not> self_owing l1" "\<not> quit (disp l1)" by auto
  let ?s1 = "s\<lparr>loops := (loops s)(1 := l1)\<rparr>"
  have "phase (loops ?s1 1) = Running [EstablishTask 0]" "\<not> self_owing (loops ?s1 1)" using l1 by simp_all
  from demo_call[OF demo_quiet[OF r l1(1)] this] obtain t ls' where
    t: "(poll_step demo_callback demo_ctl (\<lambda>e. e) {})\<^sup>*\<^sup>* ((server_init ''s'' 1, demo_lists), \<lambda>_. []) ((t, ls'), \<lambda>_. [])"
      "phase (loops t 1) = Running []" "\<not> self_owing (loops t 1)" "\<not> quit (disp (loops t 1))"
      "num_conns (net_of t) = num_conns (net_of ?s1)" "conn_disp (net_of t) = conn_disp (net_of ?s1)" "chunks (srv t) = chunks (srv ?s1)"
      "conn_state (conns (net_of t) 0) = CONNECTED" "cares_read (conn_handler (conns (net_of t) 0))" using l1(4) by auto
  from quiet_next[OF t(2-4)] obtain l2 where l2: "quiet\<^sup>*\<^sup>* (loops t 1) l2" "phase l2 = Polling" by blast
  have "num_conns (net_of ?s1) = 1 \<and> conn_disp (net_of ?s1) 0 = 1" using n by (simp add: s_def net_of_def after_op_def emptied_def)
  moreover have "chunks (srv ?s1) 0 = []" by (simp add: s_def after_op_def demo_ready_def server_init_def http_init_def)
  ultimately show thesis using t(5-9) l2(2) by (intro that[OF demo_quiet[OF t(1) l2(1)]]) (simp_all add: net_of_def)
qed

end
