(* ===== verification/HttpExample.thy ===== *)
theory HttpExample
  imports HttpSystem
begin

text \<open>
  The rest of \<^verbatim>\<open>http/httptest.cc\<close>, the program the library ships: its icon and its \<^verbatim>\<open>main\<close>. The theory joins the
  construction of the server to the composed system of \<open>HttpSystem\<close>.
\<close>

section \<open>The icon\<close>

definition favicon :: string where
  "favicon = map char_of ([
     137, 80, 78, 71, 13, 10, 26, 10, 0, 0, 0, 13, 73, 72, 68, 82, 0, 0, 0, 16, 0, 0, 0, 16,
     8, 6, 0, 0, 0, 31, 243, 255, 97, 0, 0, 0, 25, 116, 69, 88, 116, 83, 111, 102, 116, 119, 97, 114,
     101, 0, 65, 100, 111, 98, 101, 32, 73, 109, 97, 103, 101, 82, 101, 97, 100, 121, 113, 201, 101, 60, 0, 0,
     1, 205, 73, 68, 65, 84, 120, 218, 148, 147, 57, 72, 3, 65, 20, 134, 255, 93, 98, 167, 4, 82, 196, 109,
     34, 30, 160, 70, 36, 8, 22, 22, 118, 10, 54, 186, 74, 154, 128, 8, 65, 180, 113, 133, 88, 137, 71, 176,
     73, 169, 81, 36, 205, 166, 8, 164, 72, 99, 145, 66, 11, 175, 86, 193, 70, 180, 21, 207, 34, 88, 152, 11,
     84, 72, 138, 100, 147, 141, 251, 70, 103, 201, 26, 20, 125, 240, 102, 118, 102, 223, 124, 239, 231, 103, 70, 168,
     213, 106, 72, 36, 18, 42, 0, 5, 191, 71, 212, 239, 247, 47, 54, 236, 18, 32, 30, 143, 215, 170, 213, 234,
     175, 73, 53, 70, 170, 84, 95, 159, 34, 65, 42, 149, 10, 131, 229, 114, 57, 100, 179, 89, 150, 153, 76, 6,
     233, 116, 154, 37, 133, 44, 203, 84, 167, 196, 98, 49, 181, 94, 0, 3, 104, 154, 198, 22, 130, 32, 88, 82,
     20, 69, 54, 83, 148, 203, 101, 120, 189, 94, 170, 85, 84, 35, 76, 192, 224, 226, 193, 143, 0, 158, 188, 9,
     65, 124, 62, 31, 131, 68, 34, 17, 213, 84, 64, 63, 56, 128, 119, 229, 51, 7, 184, 92, 46, 72, 146, 4,
     135, 195, 129, 64, 32, 64, 103, 152, 233, 54, 26, 166, 103, 21, 4, 227, 215, 200, 189, 21, 225, 105, 183, 67,
     171, 234, 120, 47, 106, 88, 146, 187, 24, 32, 159, 207, 51, 195, 184, 233, 78, 167, 211, 108, 74, 0, 105, 54,
     124, 142, 225, 254, 86, 132, 231, 60, 159, 114, 43, 58, 66, 123, 55, 102, 119, 174, 142, 14, 243, 189, 82, 169,
     100, 2, 66, 175, 133, 50, 102, 70, 186, 12, 217, 159, 29, 154, 108, 34, 230, 199, 58, 44, 128, 239, 193, 21,
     144, 7, 147, 162, 40, 160, 83, 106, 177, 184, 223, 41, 53, 67, 14, 63, 88, 252, 152, 218, 121, 106, 80, 64,
     0, 135, 174, 27, 23, 66, 180, 58, 63, 190, 121, 199, 10, 38, 182, 238, 217, 154, 96, 20, 147, 219, 143, 13,
     10, 46, 233, 35, 149, 41, 88, 0, 39, 235, 110, 86, 112, 188, 214, 203, 214, 71, 171, 61, 108, 125, 184, 210,
     221, 160, 96, 131, 186, 239, 95, 164, 234, 204, 2, 78, 174, 94, 112, 26, 236, 179, 64, 57, 172, 254, 242, 145,
     137, 103, 145, 133, 33, 168, 135, 183, 88, 126, 126, 133, 187, 205, 78, 78, 98, 116, 64, 250, 147, 137, 236, 30,
     236, 134, 2, 72, 38, 147, 208, 117, 29, 127, 9, 50, 149, 191, 31, 219, 215, 99, 138, 26, 247, 92, 193, 255,
     34, 74, 195, 135, 0, 3, 0, 75, 187, 248, 214, 42, 118, 152, 73, 0, 0, 0, 0, 73, 69, 78, 68, 174,
     66, 96, 130] :: nat list)"

lemma length_favicon [simp]: "length favicon = 555"
  by (simp add: favicon_def)

section \<open>The server object\<close>

text \<open>An \<^verbatim>\<open>HttpServer\<close> with its member \<^verbatim>\<open>server_\<close>; the flag says whether the acceptor was told to listen.\<close>

record http_app =
  app_http :: http_server
  app_tcp :: tcp_server
  app_listens :: bool

definition HttpApp_new :: "sockaddr_in \<Rightarrow> int \<Rightarrow> http_app" where
  "HttpApp_new addr m = \<lparr>app_http = HttpServer_new m, app_tcp = TcpServer_new addr, app_listens = False\<rparr>"

definition HttpServer_SetThreadNum :: "int \<Rightarrow> http_app \<Rightarrow> http_app res" where
  "HttpServer_SetThreadNum n a = rbind (SetThreadNum n (app_tcp a)) (\<lambda>t. Inr (a\<lparr>app_tcp := t\<rparr>))"

definition HttpServer_Start :: "bool \<Rightarrow> http_app \<Rightarrow> http_app res" where
  "HttpServer_Start same a =
     rbind (Server_Start same (app_listens a) (app_tcp a)) (\<lambda>(t, listen). Inr (a\<lparr>app_tcp := t, app_listens := listen\<rparr>))"

text \<open>\<^verbatim>\<open>main\<close> up to the loop of the base dispatcher, in its thread.\<close>

definition thread_count :: "string list \<Rightarrow> int" where
  "thread_count argv = (if length argv > 1 then atoi (argv ! 1) else 4)"

definition httptest_main :: "string list \<Rightarrow> http_app res" where
  "httptest_main argv =
     (let numThreads = thread_count argv;
          server = HttpApp_new (InetAddr_port 12345) 10000;
          server = server\<lparr>app_http := set_call_back (example_OnRequest favicon) (app_http server)\<rparr>
      in rbind (HttpServer_SetThreadNum numThreads server) (HttpServer_Start True))"

section \<open>What it starts\<close>

lemma main_negative: "thread_count argv < 0 \<Longrightarrow> httptest_main argv = Inl AssertFail"
  by (simp add: httptest_main_def HttpServer_SetThreadNum_def SetThreadNum_def)

lemma main_starts:
  assumes "0 \<le> thread_count argv"
  shows "httptest_main argv = Inr \<lparr>app_http = set_call_back (example_OnRequest favicon) (HttpServer_new 10000),
      app_tcp = server (net_init (get_iner_host_port (InetAddr_port 12345)) (nat (thread_count argv))), app_listens = True\<rparr>"
proof -
  obtain k where k: "thread_count argv = int k" using assms nonneg_int_cases by blast
  show ?thesis
    using started_pool_eq[of k]
    by (simp add: httptest_main_def HttpServer_SetThreadNum_def SetThreadNum_def k HttpApp_new_def TcpServer_new_def
        HttpServer_Start_def Server_Start_def net_init_def)
qed

lemma example_small: "small_bodies (example_OnRequest favicon)"
  by (simp add: small_bodies_def example_OnRequest_def set_body_def set_status_code_def set_status_message_def
      set_content_type_def add_header_def set_close_connection_def response_init_def)

text \<open>The composed system right after \<^verbatim>\<open>main\<close> has built it, with no client yet.\<close>

definition app_system :: "http_app \<Rightarrow> http_sys" where
  "app_system a = \<lparr>sys_net = (net_init (server_name (app_tcp a)) 0)\<lparr>server := app_tcp a\<rparr>, chunks = (\<lambda>_. [])\<rparr>"

lemma main_system:
  assumes "httptest_main argv = Inr a"
  shows "app_system a = http_init (get_iner_host_port (InetAddr_port 12345)) (nat (thread_count argv))
     \<and> http_call_back (app_http a) = example_OnRequest favicon \<and> app_listens a"
proof -
  have n: "0 \<le> thread_count argv" using assms main_negative[of argv] by fastforce
  show ?thesis
    using assms unfolding main_starts[OF n]
    by (auto simp: app_system_def http_init_def net_init_def set_call_back_def)
qed

text \<open>The answer to one request on a fresh connection.\<close>

lemma replay_one_request:
  assumes "wf_raw q" and "req = parsed q request_init" and "resp = cb req (response_init (wants_close req))"
  shows "map_option fst (replay cb [render_request q] [] dialogue_init) = Some (response_text resp)"
  using request_spec_render[OF assms(1), of context_init "[]"] assms(2,3)
  by (simp add: react_def dialogue_init_def after_parse_def is_done_def Let_def)


text \<open>A run: the server without I/O threads accepts a client, which asks for the page \<^verbatim>\<open>/hello\<close>.\<close>

lemma thread_count_0: "thread_count [''httptest'', ''0''] = 0"
  by code_simp

lemma demo_page: "\<exists>s. (http_step (example_OnRequest favicon))\<^sup>*\<^sup>* (http_init name 0) s
    \<and> num_conns (sys_net s) = 1 \<and> chunks s 0 = [render_request demo_request]"
proof -
  let ?cb = "example_OnRequest favicon" and ?text = "render_request demo_request"
  let ?readv = "demo_readv_of ?text"
  obtain s where s: "(http_step ?cb)\<^sup>*\<^sup>* (http_init name 0) s" "num_conns (sys_net s) = 1"
    "cares_read (conn_handler (conns (sys_net s) 0))" "chunks s 0 = []" using open_demo by blast
  have "http_inv ?cb s" using http.good_reach[OF s(1) http_init_inv[OF example_small]] .
  then have "conversation ?cb (chunks s 0) (conns (sys_net s) 0)" using s(2) by (simp add: http_inv_def)
  then have t: "talks (conns (sys_net s) 0) dialogue_init" using s(3,4) by (auto simp: conversation_def)
  have r: "readv_ok ?readv" "?readv (read_iov (input_buf (conns (sys_net s) 0))) = Inr ?text"
    using demo_readv_of_delivers deliversD[OF demo_readv_of_delivers demo_request_fits] by (simp_all add: delivers_def)
  have "?text \<noteq> []" by (simp add: render_request_def crlf_def)
  note ok = on_readable_spec[OF t r(1) take_one_ok r(2) this example_small]
  have "react ?cb ?text dialogue_init \<noteq> None"
    using request_spec_render[OF demo_request_wf, of context_init "[]"] by (simp add: react_def dialogue_init_def)
  with ok obtain c where c: "on_readable ?cb ?readv take_one (conns (sys_net s) 0) = Inr c" by fastforce
  have "0 < num_conns (sys_net s)" using s(2) by simp
  from http_step.message[OF this s(3) r(1) take_one_ok r(2) \<open>?text \<noteq> []\<close> c] s
  show ?thesis by (intro exI[of _ "s\<lparr>sys_net := set_conn 0 c (sys_net s), chunks := (chunks s)(0 := chunks s 0 @ [?text])\<rparr>"])
      (auto simp: set_conn_def)
qed


end
