(* ===== verification/Shutdown.thy ===== *)
theory Shutdown
  imports PollSystem
begin

text \<open>
  The destruction of the server while its I/O threads still run. \<^verbatim>\<open>~TcpServer\<close> says itself that it closes no connection; its members are
  destroyed in the reverse order of their declaration in \<^verbatim>\<open>net/tcpserver.h\<close>: first the map of connections, then the pool, whose
  destructor is the one that stops the threads.
\<close>

text \<open>
  The first of these: the map drops its references. What keeps a connection after that are the functions that are queued.
\<close>

definition TcpServer_delete :: "net \<Rightarrow> net" where
  "TcpServer_delete n = n\<lparr>server := (server n)\<lparr>connections := []\<rparr>\<rparr>"

lemma delete_references: "referenced (TcpServer_delete n) k \<longleftrightarrow> (\<exists>j. \<exists>t\<in>set (net_queues n j). task_conn t = k)"
  by (simp add: referenced_def in_map_def TcpServer_delete_def smap_get_def)

text \<open>An open connection of a running server is destroyed by that.\<close>

lemma delete_kills_open:
  assumes inv: "net_inv n" and k: "k < num_conns n" and open': "conn_state (conns n k) \<noteq> CONNECTING" "cares_read (conn_handler (conns n k))"
  shows "referenced n k \<and> \<not> referenced (TcpServer_delete n) k"
proof -
  from net_inv_others[OF inv k] obtain st where st: "stage_ok n k st" .
  then have "st = SOpen" using open' by (cases st) (auto simp: stage_ok_def)
  then have none: "task_conn t = k \<Longrightarrow> t \<notin> set (net_queues n j)" for t j
  proof -
    assume t: "task_conn t = k"
    have "expected SOpen (conn_disp n k) j t = 0" by (cases t) simp_all
    then show "t \<notin> set (net_queues n j)" using st t \<open>st = SOpen\<close> by (simp add: stage_ok_def tasks_ok_def queued_count)
  qed
  then show ?thesis using referenced_stage[OF st] \<open>st = SOpen\<close> by (auto simp: delete_references)
qed

text \<open>
  So a server that is destroyed while a client is connected can destroy the connection, its handler and its buffers under an I/O loop
  that is about to call it: the state is reached, the call is pending, and after the first step of the destructor the object is gone.
\<close>

lemma destructor_race:
  "\<exists>s ls. (poll_step demo_callback demo_ctl (\<lambda>e. e) {})\<^sup>*\<^sup>* ((server_init ''s'' 1, demo_lists), \<lambda>_. [])
       ((s, ls), (\<lambda>_. [])(1 := [(0, CloseFunc)]))
     \<and> referenced (net_of s) 0 \<and> \<not> referenced (TcpServer_delete (net_of s)) 0"
proof -
  obtain s ls where s: "(poll_step demo_callback demo_ctl (\<lambda>e. e) {})\<^sup>*\<^sup>* ((server_init ''s'' 1, demo_lists), \<lambda>_. []) ((s, ls), \<lambda>_. [])"
    "phase (loops s 1) = Polling" "num_conns (net_of s) = 1" "conn_disp (net_of s) 0 = 1"
    "conn_state (conns (net_of s) 0) = CONNECTED" "cares_read (conn_handler (conns (net_of s) 0))" "chunks (srv s) 0 = []" by (rule demo_opened)
  have w: "whole_inv demo_callback s" using demo_polled_inv[OF s(1)] by (simp add: poll_inv_def kernel_inv_def)
  then have net: "net_inv (net_of s)" unfolding net_of_def whole_inv_def http_inv_def by blast
  have k: "0 < num_conns (net_of s)" using s(3) by simp
  have kill: "referenced (net_of s) 0 \<and> \<not> referenced (TcpServer_delete (net_of s)) 0"
    by (rule delete_kills_open[OF net k]) (use s(5,6) in simp_all)
  let ?t = "s\<lparr>loops := (loops s)(1 := (loops s 1)\<lparr>phase := Handling\<rparr>)\<rparr>"
  have "net_of ?t = net_of s" using loop_step_flat(1)[OF w disp_step.select[OF s(2)]] by (simp add: net_of_def)
  with demo_report[OF s(1,2) k conjunct1[OF kill] s(4) refl] kill show ?thesis by metis
qed

end
