(* ===== verification/Callbacks.thy ===== *)
theory Callbacks
  imports HttpSystem
begin

text \<open>
  The callbacks as the objects store them. The other theories pass the functions that \<^verbatim>\<open>TcpServer\<close> and \<^verbatim>\<open>TcpConnection\<close> call as
  arguments; here they are the \<^verbatim>\<open>std::function\<close> members of \<^verbatim>\<open>net/tcpserver.h\<close> and \<^verbatim>\<open>net/tcpconnection.h\<close>: empty at first, set by the constructor of
  \<^verbatim>\<open>HttpServer\<close>, copied into each connection by \<^verbatim>\<open>TcpServer::NewConnection\<close>, and read at each call. The server that works with them
  behaves exactly like the server of \<open>HttpSystem\<close>, and no connection of it ever queues a function in its loop.
\<close>

section \<open>The members\<close>

text \<open>
  An empty \<^verbatim>\<open>std::function\<close> is None. The message callback reads the object it is bound to, of type \<open>'h\<close>, when it is called; the
  close callback gets the dispatcher of the calling thread and the connection.
\<close>

type_synonym conn_callback = "tcp_conn \<Rightarrow> tcp_conn res"
type_synonym 'h message_slot = "('h \<Rightarrow> write_fun \<Rightarrow> conn_callback) option"

record 'h conn_slots =
  connection_call_back :: "conn_callback option"
  message_call_back :: "'h message_slot"
  close_call_back :: "(nat \<Rightarrow> nat \<Rightarrow> net \<Rightarrow> net res) option"
  write_complete_callback :: "conn_callback option"
  high_water_mark_callback :: "(nat \<Rightarrow> conn_callback) option"

record 'h server_slots =
  server_connection_call_back :: "conn_callback option"
  server_message_call_back :: "'h message_slot"
  server_write_complete_callback :: "conn_callback option"

definition TcpConnection_slots :: "'h conn_slots" where
  "TcpConnection_slots = \<lparr>connection_call_back = None, message_call_back = None, close_call_back = None,
     write_complete_callback = None, high_water_mark_callback = None\<rparr>"

definition Conn_set_connection_call_back :: "conn_callback option \<Rightarrow> 'h conn_slots \<Rightarrow> 'h conn_slots" where
  "Conn_set_connection_call_back cb sl = sl\<lparr>connection_call_back := cb\<rparr>"

definition Conn_set_message_call_back :: "'h message_slot \<Rightarrow> 'h conn_slots \<Rightarrow> 'h conn_slots" where
  "Conn_set_message_call_back cb sl = sl\<lparr>message_call_back := cb\<rparr>"

definition Conn_set_close_call_back :: "(nat \<Rightarrow> nat \<Rightarrow> net \<Rightarrow> net res) option \<Rightarrow> 'h conn_slots \<Rightarrow> 'h conn_slots" where
  "Conn_set_close_call_back cb sl = sl\<lparr>close_call_back := cb\<rparr>"

definition Conn_set_write_complete_callback :: "conn_callback option \<Rightarrow> 'h conn_slots \<Rightarrow> 'h conn_slots" where
  "Conn_set_write_complete_callback cb sl = sl\<lparr>write_complete_callback := cb\<rparr>"

definition TcpServer_slots :: "'h server_slots" where
  "TcpServer_slots = \<lparr>server_connection_call_back = None, server_message_call_back = None, server_write_complete_callback = None\<rparr>"

definition Server_set_connection_call_back :: "conn_callback option \<Rightarrow> 'h server_slots \<Rightarrow> 'h server_slots" where
  "Server_set_connection_call_back cb sl = sl\<lparr>server_connection_call_back := cb\<rparr>"

definition Server_set_message_call_back :: "'h message_slot \<Rightarrow> 'h server_slots \<Rightarrow> 'h server_slots" where
  "Server_set_message_call_back cb sl = sl\<lparr>server_message_call_back := cb\<rparr>"

definition Server_set_write_complete_callback :: "conn_callback option \<Rightarrow> 'h server_slots \<Rightarrow> 'h server_slots" where
  "Server_set_write_complete_callback cb sl = sl\<lparr>server_write_complete_callback := cb\<rparr>"

text \<open>What the constructor of \<^verbatim>\<open>HttpServer\<close> sets on its \<^verbatim>\<open>TcpServer\<close>.\<close>

definition bound_OnMessage :: "http_server \<Rightarrow> write_fun \<Rightarrow> conn_callback" where
  "bound_OnMessage h wr = message_callback True wr 0 (http_call_back h)"

definition HttpServer_slots :: "http_server server_slots" where
  "HttpServer_slots = Server_set_message_call_back (Some bound_OnMessage)
     (Server_set_connection_call_back (Some OnConnection) TcpServer_slots)"

text \<open>
  What \<^verbatim>\<open>NewConnection\<close> copies into a new connection. The connection callback that \<open>RemoveConnection\<close> passes on is not used
  by the function it queues, so none is given.
\<close>

definition new_slots :: "'h server_slots \<Rightarrow> 'h conn_slots" where
  "new_slots sl = Conn_set_close_call_back (Some (RemoveConnection None))
     (Conn_set_write_complete_callback (server_write_complete_callback sl)
       (Conn_set_message_call_back (server_message_call_back sl)
         (Conn_set_connection_call_back (server_connection_call_back sl) TcpConnection_slots)))"

section \<open>The server with its members\<close>

record wired =
  wired_http :: http_server
  wired_server :: "http_server server_slots"
  wired_conns :: "nat \<Rightarrow> http_server conn_slots"
  wired_sys :: http_sys

abbreviation wired_net :: "wired \<Rightarrow> net" where
  "wired_net w \<equiv> sys_net (wired_sys w)"

definition with_net :: "net \<Rightarrow> wired \<Rightarrow> wired" where
  "with_net n w = w\<lparr>wired_sys := (wired_sys w)\<lparr>sys_net := n\<rparr>\<rparr>"

definition Wired_NewConnection :: "nat \<Rightarrow> int \<Rightarrow> wired \<Rightarrow> wired res" where
  "Wired_NewConnection cur fd w =
     (let sl = new_slots (wired_server w)
      in rbind (NewConnection (connection_call_back sl) (\<not> Option.is_none (write_complete_callback sl)) cur fd (wired_net w))
           (\<lambda>n. Inr ((with_net n w)\<lparr>wired_conns := (wired_conns w)(num_conns (wired_net w) := sl)\<rparr>)))"

text \<open>A queued function, with the callback of the connection it is bound to.\<close>

definition Wired_task :: "nat \<Rightarrow> net_task \<Rightarrow> wired \<Rightarrow> net \<Rightarrow> net res" where
  "Wired_task cur t w = run_net_task (connection_call_back (wired_conns w (task_conn t))) cur t"

definition Wired_HandleClose :: "nat \<Rightarrow> wired \<Rightarrow> net res" where
  "Wired_HandleClose k w = rbind (on_conn_object k HandleClose (wired_net w)) (\<lambda>n.
     user_call (map_option (\<lambda>f. f (conn_disp (wired_net w) k) k) (close_call_back (wired_conns w k))) n)"

definition Wired_HandleRead :: "(nat list \<Rightarrow> int + string) \<Rightarrow> write_fun \<Rightarrow> nat \<Rightarrow> wired \<Rightarrow> tcp_conn res" where
  "Wired_HandleRead readv wr k w =
     HandleRead readv (map_option (\<lambda>f. f (wired_http w) wr) (message_call_back (wired_conns w k))) (conns (wired_net w) k)"

text \<open>The last rule runs a function that a connection has queued in its loop.\<close>

inductive wired_step :: "wired \<Rightarrow> wired \<Rightarrow> bool" where
  accept: "Wired_NewConnection 0 fd w = Inr w' \<Longrightarrow> wired_step w w'"
| task: "net_queues (wired_net w) i = t # ts \<Longrightarrow>
    Wired_task i t w ((wired_net w)\<lparr>net_queues := (net_queues (wired_net w))(i := ts)\<rparr>) = Inr n \<Longrightarrow>
    wired_step w (with_net n w)"
| close: "k < num_conns (wired_net w) \<Longrightarrow> cares_read (conn_handler (conns (wired_net w) k)) \<Longrightarrow>
    Wired_HandleClose k w = Inr n \<Longrightarrow> wired_step w (with_net n w)"
| message: "k < num_conns (wired_net w) \<Longrightarrow> cares_read (conn_handler (conns (wired_net w) k)) \<Longrightarrow>
    readv_ok readv \<Longrightarrow> kernel_ok wr \<Longrightarrow>
    readv (read_iov (input_buf (conns (wired_net w) k))) = Inr chunk \<Longrightarrow> chunk \<noteq> [] \<Longrightarrow>
    Wired_HandleRead readv wr k w = Inr c \<Longrightarrow>
    wired_step w (w\<lparr>wired_sys := (wired_sys w)\<lparr>sys_net := set_conn k c (wired_net w),
      chunks := (chunks (wired_sys w))(k := chunks (wired_sys w) k @ [chunk])\<rparr>\<rparr>)"
| writable: "k < num_conns (wired_net w) \<Longrightarrow> kernel_ok wr \<Longrightarrow> HandleWrite wr (conns (wired_net w) k) = Inr c \<Longrightarrow>
    wired_step w (with_net (set_conn k c (wired_net w)) w)"
| queued: "k < num_conns (wired_net w) \<Longrightarrow> conn_tasks (conns (wired_net w) k) = t # ts \<Longrightarrow>
    run_task mem wr t ((conns (wired_net w) k)\<lparr>conn_tasks := ts\<rparr>) = Inr c \<Longrightarrow>
    wired_step w (with_net (set_conn k c (wired_net w)) w)"

definition wired_init :: "http_server \<Rightarrow> string \<Rightarrow> nat \<Rightarrow> wired" where
  "wired_init h name threads = \<lparr>wired_http = h, wired_server = HttpServer_slots, wired_conns = (\<lambda>_. TcpConnection_slots),
     wired_sys = http_init name threads\<rparr>"

section \<open>Connections that queue nothing\<close>

text \<open>
  A connection without the two callbacks that are queued, used in its own thread only, never queues a function: neither one bound to a
  bare pointer nor one of the client.
\<close>

definition plain :: "tcp_conn \<Rightarrow> bool" where
  "plain c = (conn_tasks c = [] \<and> \<not> has_write_complete c \<and> \<not> has_high_water c)"

lemma plain_handler [simp]: "plain (on_handler f c) = plain c"
  by (simp add: plain_def on_handler_def)

lemma plain_fields [simp]: "plain (c\<lparr>conn_state := st\<rparr>) = plain c" "plain (c\<lparr>conn_calls := cs\<rparr>) = plain c"
  "plain (c\<lparr>input_buf := b\<rparr>) = plain c" "plain (c\<lparr>conn_context := x\<rparr>) = plain c"
  by (simp_all add: plain_def)

lemma Send_plain:
  assumes "SendInLoop True wr d c = Inr c'" and p: "plain c"
  shows "plain c'"
proof -
  obtain n c1 where n: "(if \<not> is_care_write (conn_handler c) \<and> payload_size (output_buf c) = 0
      then direct_write wr d c else (0, c)) = (n, c1)" by fastforce
  then have p1: "plain c1" using p
    by (auto simp: direct_write_def plain_def Let_def split: if_splits sum.splits)
  from assms(1) show ?thesis unfolding SendInLoop_def n using p1
    by (auto simp: buffer_rest_def plain_def Let_def rbind_Inr_iff on_handler_def split: if_splits)
qed

lemma ShutDown_plain: "ShutDown True c = Inr c' \<Longrightarrow> plain c \<Longrightarrow> plain c'"
  by (auto simp: ShutDown_def ShutDownInLoop_def plain_def Let_def split: if_splits)

interpretation plainly: message_effect "\<lambda>c c'. plain c \<longrightarrow> plain c'"
  by unfold_locales (auto intro: Send_plain ShutDown_plain)

lemma write_plain: "HandleWrite wr c = Inr c' \<Longrightarrow> plain c \<Longrightarrow> plain c'"
  by (auto simp: HandleWrite_def ShutDownInLoop_def plain_def on_handler_def Let_def rbind_Inr_iff split: sum.splits if_splits)

lemma OnConnection_plain: "OnConnection c = Inr c' \<Longrightarrow> plain c' = plain c"
  by (auto simp: OnConnection_def plain_def set_context_def split: if_splits)

interpretation plains: conn_property "\<lambda>k. plain"
  by unfold_locales (auto simp: set_connection_established_def set_connection_destroyed_def HandleClose_def user_call_def
      in_loop_def rbind_Inr_iff Let_def dest!: OnConnection_plain split: if_splits)

lemma new_plain: "plain (set_write_complete_callback False (TcpConnection_new fd))"
  by (simp add: plain_def set_write_complete_callback_def TcpConnection_new_def)


lemma message_plain:
  assumes run: "on_readable cb readv wr c = Inr c'" and p: "plain c"
    and k: "conn_inv c" "readv (read_iov (input_buf c)) = Inr chunk" "chunk \<noteq> []" "readv_ok readv"
  shows "plain c'"
proof -
  from readable_ok[OF k] obtain b where
    "on_readable cb readv wr c = user_call (Some (message_callback True wr 0 cb)) (c\<lparr>input_buf := b\<rparr>)"
    unfolding on_readable_def by blast
  then show ?thesis using plainly.callback[of wr 0 cb "c\<lparr>input_buf := b\<rparr>" c'] run p by (simp add: user_call_def)
qed

section \<open>The members are the arguments\<close>

definition wired_inv :: "http_callback \<Rightarrow> wired \<Rightarrow> bool" where
  "wired_inv cb w = (http_inv cb (wired_sys w) \<and> http_call_back (wired_http w) = cb \<and> wired_server w = HttpServer_slots
     \<and> (\<forall>k<num_conns (wired_net w). wired_conns w k = new_slots HttpServer_slots)
     \<and> (\<forall>k<num_conns (wired_net w). plain (conns (wired_net w) k)))"

lemma http_slots [simp]:
  "connection_call_back (new_slots HttpServer_slots) = Some OnConnection"
  "message_call_back (new_slots HttpServer_slots) = Some bound_OnMessage"
  "close_call_back (new_slots HttpServer_slots) = Some (RemoveConnection None)"
  "write_complete_callback (new_slots HttpServer_slots) = None"
  "high_water_mark_callback (new_slots HttpServer_slots) = None"
  by (simp_all add: new_slots_def HttpServer_slots_def TcpServer_slots_def TcpConnection_slots_def
      Conn_set_connection_call_back_def Conn_set_message_call_back_def Conn_set_close_call_back_def
      Conn_set_write_complete_callback_def Server_set_connection_call_back_def Server_set_message_call_back_def)

text \<open>The operations read the members, and find what the other theories pass.\<close>

lemma removal_slot: "RemoveConnection cb cur k n = RemoveConnection cb' cur k n"
  by (simp add: RemoveConnection_def run_in_loop_def)

lemma wired_ops:
  assumes inv: "wired_inv cb w"
  shows "Wired_NewConnection 0 fd w = rbind (NewConnection (Some OnConnection) False 0 fd (wired_net w)) (\<lambda>n.
        Inr ((with_net n w)\<lparr>wired_conns := (wired_conns w)(num_conns (wired_net w) := new_slots HttpServer_slots)\<rparr>))"
    and "net_queues (wired_net w) i = t # ts \<Longrightarrow> Wired_task i t w n = run_net_task (Some OnConnection) i t n"
    and "k < num_conns (wired_net w) \<Longrightarrow> Wired_HandleClose k w = close_conn (Some OnConnection) k (wired_net w)"
    and "k < num_conns (wired_net w) \<Longrightarrow> Wired_HandleRead readv wr k w = on_readable cb readv wr (conns (wired_net w) k)"
proof -
  have slots: "\<And>k. k < num_conns (wired_net w) \<Longrightarrow> wired_conns w k = new_slots HttpServer_slots"
    and srv: "wired_server w = HttpServer_slots" and cb: "http_call_back (wired_http w) = cb" and net: "net_inv (wired_net w)"
    using inv by (simp_all add: wired_inv_def http_inv_def)
  show "Wired_NewConnection 0 fd w = rbind (NewConnection (Some OnConnection) False 0 fd (wired_net w)) (\<lambda>n.
        Inr ((with_net n w)\<lparr>wired_conns := (wired_conns w)(num_conns (wired_net w) := new_slots HttpServer_slots)\<rparr>))"
    by (simp add: Wired_NewConnection_def srv)
  have "task_conn t < num_conns (wired_net w)" if "net_queues (wired_net w) i = t # ts"
    using net that unfolding net_inv_def by (fastforce dest: spec[of _ i])
  then show "net_queues (wired_net w) i = t # ts \<Longrightarrow> Wired_task i t w n = run_net_task (Some OnConnection) i t n"
    by (simp add: Wired_task_def slots)
  show "k < num_conns (wired_net w) \<Longrightarrow> Wired_HandleClose k w = close_conn (Some OnConnection) k (wired_net w)"
    by (simp add: Wired_HandleClose_def close_conn_def slots user_call_def removal_slot[of None _ _ _ "Some OnConnection"])
  show "k < num_conns (wired_net w) \<Longrightarrow> Wired_HandleRead readv wr k w = on_readable cb readv wr (conns (wired_net w) k)"
    by (simp add: Wired_HandleRead_def on_readable_def slots bound_OnMessage_def[abs_def] cb)
qed


lemma with_net_simps [simp]:
  "wired_net (with_net n w) = n" "wired_conns (with_net n w) = wired_conns w" "wired_server (with_net n w) = wired_server w"
  "wired_http (with_net n w) = wired_http w" "wired_sys (with_net n w) = (wired_sys w)\<lparr>sys_net := n\<rparr>"
  by (simp_all add: with_net_def)

text \<open>The same invariant after an operation, if the slots and the connections are again as they must be.\<close>

lemma wired_invI:
  assumes "wired_inv cb w" and "http_inv cb (wired_sys w')"
    and "wired_http w' = wired_http w" and "wired_server w' = wired_server w"
    and "\<forall>k<num_conns (wired_net w'). wired_conns w' k = new_slots HttpServer_slots"
    and "\<forall>k<num_conns (wired_net w'). plain (conns (wired_net w') k)"
  shows "wired_inv cb w'"
  using assms by (simp add: wired_inv_def)

lemma wired_step_http:
  assumes "wired_step w w'" and inv: "wired_inv cb w"
  shows "http_step cb (wired_sys w) (wired_sys w') \<and> wired_inv cb w'"
proof -
  let ?n = "wired_net w"
  have hi: "http_inv cb (wired_sys w)" and slots: "\<forall>k<num_conns ?n. wired_conns w k = new_slots HttpServer_slots"
    and pl: "\<forall>k<num_conns ?n. plain (conns ?n k)" using inv by (simp_all add: wired_inv_def)
  note ops = wired_ops[OF inv]
  have "http_step cb (wired_sys w) (wired_sys w') \<and> wired_http w' = wired_http w \<and> wired_server w' = wired_server w
     \<and> (\<forall>k<num_conns (wired_net w'). wired_conns w' k = new_slots HttpServer_slots)
     \<and> (\<forall>k<num_conns (wired_net w'). plain (conns (wired_net w') k))"
    using assms(1)
  proof cases
    case (accept fd)
    then obtain n where n: "NewConnection (Some OnConnection) False 0 fd ?n = Inr n"
      "w' = (with_net n w)\<lparr>wired_conns := (wired_conns w)(num_conns ?n := new_slots HttpServer_slots)\<rparr>"
      unfolding ops(1) by (auto simp: rbind_Inr_iff)
    from plains.accepted[OF pl new_plain n(1)] http_step.accept[OF n(1)] slots n(2) show ?thesis by (auto simp: less_Suc_eq)
  next
    case (task i t ts n)
    have run: "run_net_task (Some OnConnection) i t (?n\<lparr>net_queues := (net_queues ?n)(i := ts)\<rparr>) = Inr n"
      using task(3) ops(2)[OF task(2)] by simp
    have "\<forall>k<num_conns (?n\<lparr>net_queues := (net_queues ?n)(i := ts)\<rparr>). plain (conns (?n\<lparr>net_queues := (net_queues ?n)(i := ts)\<rparr>) k)"
      using pl by simp
    from plains.queued[OF this run] http_step.task[OF task(2) run] slots task(1) show ?thesis by simp
  next
    case (close k n)
    have run: "close_conn (Some OnConnection) k ?n = Inr n" using close(4) ops(3)[OF close(2)] by simp
    from plains.closed[OF pl run] http_step.close[OF close(2,3) run] slots close(1) show ?thesis by simp
  next
    case (message k readv wr chunk c)
    have run: "on_readable cb readv wr (conns ?n k) = Inr c" using message(8) ops(4)[OF message(2)] by simp
    have "conversation cb (chunks (wired_sys w) k) (conns ?n k)" using hi message(2) by (simp add: http_inv_def)
    then have "conn_inv (conns ?n k)" using message(3) by (auto simp: conversation_def talks_def)
    from message_plain[OF run _ this message(6,7,4)] pl message(2) have "plain c" by blast
    with http_step.message[OF message(2-7) run] slots pl message(1) show ?thesis by (simp add: set_conn_def)
  next
    case (writable k wr c)
    have "plain c" using write_plain[OF writable(4)] pl writable(2) by blast
    with http_step.writable[OF writable(2-4)] slots pl writable(1) show ?thesis by (simp add: set_conn_def)
  next
    case (queued k t ts mem wr c)
    then show ?thesis using pl by (simp add: plain_def)
  qed
  with http_step_inv[OF _ hi] wired_invI[OF inv] show ?thesis by blast
qed

text \<open>Conversely every step of the server is one of the server with its members.\<close>

lemma http_step_wired:
  assumes "http_step cb (wired_sys w) s" and inv: "wired_inv cb w"
  shows "\<exists>w'. wired_step w w' \<and> wired_sys w' = s"
  using assms(1)
proof cases
  case (accept fd n)
  then have "Wired_NewConnection 0 fd w = Inr ((with_net n w)\<lparr>wired_conns := (wired_conns w)(num_conns (wired_net w) := new_slots HttpServer_slots)\<rparr>)"
    by (simp add: wired_ops(1)[OF inv])
  from wired_step.accept[OF this] accept(1) show ?thesis by fastforce
next
  case (task i t ts n)
  from wired_step.task[OF task(2), of n] task(1,3) wired_ops(2)[OF inv task(2)] show ?thesis by fastforce
next
  case (close k n)
  from wired_step.close[OF close(2,3), of n] close(1,4) wired_ops(3)[OF inv close(2)] show ?thesis by fastforce
next
  case (message k readv wr chunk c)
  from message(8) have "Wired_HandleRead readv wr k w = Inr c" using wired_ops(4)[OF inv message(2)] by simp
  from wired_step.message[OF message(2-7) this] message(1) show ?thesis by fastforce
next
  case (writable k wr c)
  from wired_step.writable[OF writable(2-4)] writable(1) show ?thesis by fastforce
qed

interpretation wires: step_refinement wired_step "wired_inv cb" wired_sys "http_step cb" for cb
  by unfold_locales (use wired_step_http in blast)+

lemma wired_init_inv:
  assumes "small_bodies (http_call_back h)"
  shows "wired_inv (http_call_back h) (wired_init h name threads)"
  using http_init_inv[OF assms, of name threads] by (simp add: wired_inv_def wired_init_def) (simp add: http_init_def net_init_def)

lemma http_reach_wired:
  assumes "(http_step cb)\<^sup>*\<^sup>* (wired_sys w) s" and "wired_inv cb w"
  shows "\<exists>w'. wired_step\<^sup>*\<^sup>* w w' \<and> wired_sys w' = s"
  using assms(1)
proof (induction rule: rtranclp_induct)
  case (step s t)
  then obtain w1 where w1: "wired_step\<^sup>*\<^sup>* w w1" "wired_sys w1 = s" by blast
  from http_step_wired[OF _ wires.good_reach[OF w1(1) assms(2)]] step.hyps(2) w1(2) obtain w2
    where "wired_step w1 w2" "wired_sys w2 = t" by blast
  with rtranclp.rtrancl_into_rtrancl[OF w1(1)] show ?case by blast
qed blast

text \<open>
  Claim C37. The stored callbacks are the ones that the server is meant to call. The server that reads them from the members of its
  objects, where the constructor of \<^verbatim>\<open>HttpServer\<close> and \<^verbatim>\<open>TcpServer::NewConnection\<close> put them, and that also runs whatever connections
  queue in their loops, reaches exactly the states of the server that is given \<^verbatim>\<open>OnConnection\<close> and \<^verbatim>\<open>OnMessage\<close>; in each of them no
  connection has an empty connection, message or close callback, so that none of these calls throws, and no connection
  has ever queued a function, in particular none with a bare pointer to itself.
\<close>

theorem callbacks_wired:
  assumes "small_bodies (http_call_back h)"
  shows "(\<forall>s. (http_step (http_call_back h))\<^sup>*\<^sup>* (http_init name threads) s
       \<longleftrightarrow> (\<exists>w. wired_step\<^sup>*\<^sup>* (wired_init h name threads) w \<and> wired_sys w = s))
     \<and> (\<forall>w k. wired_step\<^sup>*\<^sup>* (wired_init h name threads) w \<and> k < num_conns (wired_net w) \<longrightarrow>
       connection_call_back (wired_conns w k) = Some OnConnection \<and> message_call_back (wired_conns w k) = Some bound_OnMessage
       \<and> close_call_back (wired_conns w k) \<noteq> None \<and> conn_tasks (conns (wired_net w) k) = [])"
proof -
  note init = wired_init_inv[OF assms, of name threads]
  have s: "wired_sys (wired_init h name threads) = http_init name threads" by (simp add: wired_init_def)
  have "(http_step (http_call_back h))\<^sup>*\<^sup>* (http_init name threads) t
      \<longleftrightarrow> (\<exists>w. wired_step\<^sup>*\<^sup>* (wired_init h name threads) w \<and> wired_sys w = t)" for t
    using http_reach_wired[OF _ init, of t] wires.view_reach[OF _ init] unfolding s by blast
  moreover have "connection_call_back (wired_conns w k) = Some OnConnection \<and> message_call_back (wired_conns w k) = Some bound_OnMessage
       \<and> close_call_back (wired_conns w k) \<noteq> None \<and> conn_tasks (conns (wired_net w) k) = []"
    if "wired_step\<^sup>*\<^sup>* (wired_init h name threads) w" "k < num_conns (wired_net w)" for w k
    using wires.good_reach[OF that(1) init] that(2) by (simp add: wired_inv_def plain_def)
  ultimately show ?thesis by blast
qed

theorem callbacks_wired_witness:
  "\<exists>w. wired_step\<^sup>*\<^sup>* (wired_init (set_call_back demo_callback (HttpServer_new 1)) ''s'' 0) w \<and> num_conns (wired_net w) = 1
     \<and> message_call_back (wired_conns w 0) = Some bound_OnMessage \<and> conn_tasks (conns (wired_net w) 0) = []"
proof -
  let ?h = "set_call_back demo_callback (HttpServer_new 1)"
  have cb: "http_call_back ?h = demo_callback" by (simp add: set_call_back_def)
  obtain s where s: "(http_step demo_callback)\<^sup>*\<^sup>* (http_init ''s'' 0) s" "num_conns (sys_net s) = 1" using demo_http by blast
  have small: "small_bodies (http_call_back ?h)" unfolding cb by (rule demo_small)
  note wired = callbacks_wired[OF small, of "''s''" 0]
  with s(1) obtain w where w: "wired_step\<^sup>*\<^sup>* (wired_init ?h ''s'' 0) w" "wired_sys w = s" unfolding cb by blast
  moreover have "0 < num_conns (wired_net w)" using w(2) s(2) by simp
  ultimately show ?thesis using wired s(2) by blast
qed

end
