(* ===== verification/LogStream.thy ===== *)
theory LogStream
  imports CLib "HOL-Library.Signed_Division" "HOL-Library.Word"
begin

text \<open>
  \<^verbatim>\<open>logger/logstream.h\<close>, \<^verbatim>\<open>logger/logstream.cc\<close> and the part of \<^verbatim>\<open>logger/logging.cc\<close>
  that formats a line: the fixed size buffer, the integer formatting that needs no division by
  a positive number, and the line of a \<^verbatim>\<open>Logger\<close>. The memory of a buffer is a list whose
  length is the template argument; every access is checked.
\<close>

definition kDefaultSize_log :: nat where "kDefaultSize_log = 4000"
definition kBigSize :: nat where "kBigSize = 4000 * 1000"
definition kMaxNumericSize :: nat where "kMaxNumericSize = 32"
definition NUL :: char where "NUL = CHR 0x00"

section \<open>FixedBuffer\<close>

record fixed_buffer =
  fb_data :: string
  fb_cur :: nat

text \<open>\<^verbatim>\<open>data_\<close> is not initialised: \<open>m\<close> is what the memory holds.\<close>

definition FixedBuffer :: "string \<Rightarrow> fixed_buffer" where
  "FixedBuffer m = \<lparr>fb_data = m, fb_cur = 0\<rparr>"

definition current_length :: "fixed_buffer \<Rightarrow> nat" where
  "current_length b = fb_cur b"

text \<open>A negative difference would wrap around as a \<^verbatim>\<open>size_t\<close>.\<close>

definition available :: "fixed_buffer \<Rightarrow> nat" where
  "available b = nat ((int (length (fb_data b)) - int (fb_cur b)) mod 2 ^ 64)"

definition fb_Append :: "string \<Rightarrow> fixed_buffer \<Rightarrow> fixed_buffer res" where
  "fb_Append d b =
     (if available b > length d
      then rbind (mem_write (fb_data b) (fb_cur b) d) (\<lambda>m.
           Inr (b\<lparr>fb_data := m, fb_cur := fb_cur b + length d\<rparr>))
      else Inr b)"

definition fb_add :: "nat \<Rightarrow> fixed_buffer \<Rightarrow> fixed_buffer" where
  "fb_add n b = b\<lparr>fb_cur := fb_cur b + n\<rparr>"

definition fb_reset :: "fixed_buffer \<Rightarrow> fixed_buffer" where
  "fb_reset b = b\<lparr>fb_cur := 0\<rparr>"

definition ClearBuffer :: "fixed_buffer \<Rightarrow> fixed_buffer" where
  "ClearBuffer b = b\<lparr>fb_data := replicate (length (fb_data b)) NUL\<rparr>"

text \<open>Writing at \<^verbatim>\<open>current()\<close> and then advancing by a given length.\<close>

definition write_at_current :: "string \<Rightarrow> nat \<Rightarrow> fixed_buffer \<Rightarrow> fixed_buffer res" where
  "write_at_current d len b =
     rbind (mem_write (fb_data b) (fb_cur b) d) (\<lambda>m. Inr (fb_add len (b\<lparr>fb_data := m\<rparr>)))"

text \<open>The bytes of a buffer, and its invariant.\<close>

definition fb_text :: "fixed_buffer \<Rightarrow> string" where
  "fb_text b = take (fb_cur b) (fb_data b)"

definition fb_inv :: "fixed_buffer \<Rightarrow> bool" where
  "fb_inv b = (fb_cur b \<le> length (fb_data b) \<and> length (fb_data b) < 2 ^ 64)"

lemma available_eq: "fb_inv b \<Longrightarrow> available b = length (fb_data b) - fb_cur b"
proof -
  assume b: "fb_inv b"
  then have d: "int (length (fb_data b)) - int (fb_cur b) = int (length (fb_data b) - fb_cur b)"
    by (simp add: fb_inv_def of_nat_diff)
  have "int (length (fb_data b) - fb_cur b) < 2 ^ 64" using b by (simp add: fb_inv_def)
  then have "int (length (fb_data b) - fb_cur b) mod 2 ^ 64 = int (length (fb_data b) - fb_cur b)"
    by (intro mod_pos_pos_trivial) simp_all
  then show ?thesis by (simp only: available_def d nat_int)
qed

lemma length_fb_text: "fb_inv b \<Longrightarrow> length (fb_text b) = current_length b"
  by (simp add: fb_inv_def fb_text_def current_length_def)

lemma write_at_current_spec:
  assumes "fb_inv b" and "fb_cur b + length d \<le> length (fb_data b)" and "n \<le> length d"
  shows "\<exists>b'. write_at_current d n b = Inr b' \<and> fb_inv b' \<and> fb_text b' = fb_text b @ take n d
     \<and> length (fb_data b') = length (fb_data b)"
  using assms
  by (auto simp: write_at_current_def mem_write_def fb_inv_def fb_text_def fb_add_def)

lemma fb_Append_spec:
  assumes "fb_inv b"
  shows "\<exists>b'. fb_Append d b = Inr b' \<and> fb_inv b' \<and> length (fb_data b') = length (fb_data b)
     \<and> fb_text b' = fb_text b @ (if length d < available b then d else [])"
  using assms by (auto simp: fb_Append_def available_eq mem_write_def fb_inv_def fb_text_def)

section \<open>Integers\<close>

definition digits :: string where
  "digits = ''9876543210123456789'' @ [NUL]"

text \<open>\<^verbatim>\<open>zero[lsd]\<close>, where \<^verbatim>\<open>zero\<close> points to the middle of \<^verbatim>\<open>digits\<close>.\<close>

definition zero_at :: "int \<Rightarrow> char res" where
  "zero_at lsd = (if 0 \<le> 9 + lsd \<and> 9 + lsd < int (length digits) then Inr (digits ! nat (9 + lsd))
                  else Inl OutOfRange)"

text \<open>The loop of \<^verbatim>\<open>convert\<close>: division and remainder truncate towards zero.\<close>

lemma sdiv_10: "i sdiv 10 = sgn i * (\<bar>i\<bar> div 10)" for i :: int
  by (simp add: signed_divide_int_def)

lemma abs_sdiv_10: "\<bar>i sdiv 10\<bar> = \<bar>i\<bar> div 10" for i :: int
  by (cases "i = 0") (auto simp: sdiv_10 abs_mult sgn_if pos_imp_zdiv_nonneg_iff)

function convert_loop :: "int \<Rightarrow> string res" where
  "convert_loop i =
     rbind (zero_at (i smod 10)) (\<lambda>ch.
     if i sdiv 10 \<noteq> 0 then rbind (convert_loop (i sdiv 10)) (\<lambda>r. Inr (ch # r)) else Inr [ch])"
  by pat_completeness auto
termination
proof (relation "measure (\<lambda>i. nat \<bar>i\<bar>)")
  fix i :: int
  assume "i sdiv 10 \<noteq> 0"
  then have "0 < \<bar>i\<bar> div 10" unfolding abs_sdiv_10[symmetric] by simp
  then have "\<bar>i\<bar> div 10 < \<bar>i\<bar>" and "0 < \<bar>i\<bar>" by linarith+
  then show "(i sdiv 10, i) \<in> measure (\<lambda>i. nat \<bar>i\<bar>)" by (simp add: abs_sdiv_10)
qed simp

declare convert_loop.simps [simp del]

text \<open>The bytes \<^verbatim>\<open>convert\<close> leaves at \<^verbatim>\<open>buf\<close>, and its result.\<close>

definition convert :: "int \<Rightarrow> (string \<times> nat) res" where
  "convert value =
     rbind (convert_loop value) (\<lambda>ds.
     let p = ds @ (if value < 0 then ''-'' else [])
     in Inr (rev p @ [NUL], length p))"

definition FormatInteger :: "int \<Rightarrow> fixed_buffer \<Rightarrow> fixed_buffer res" where
  "FormatInteger v b =
     (if available b \<ge> kMaxNumericSize
      then rbind (convert v) (\<lambda>(bytes, len). write_at_current bytes len b)
      else Inr b)"

lemma abs_smod_10: "\<bar>i smod 10\<bar> = \<bar>i\<bar> mod 10" for i :: int
proof -
  have "i smod 10 = sgn i * (\<bar>i\<bar> mod 10)"
    by (cases "i < 0"; cases "i = 0")
      (simp_all add: signed_modulo_int_def sdiv_10 minus_mult_div_eq_mod[symmetric] algebra_simps)
  then show ?thesis by (simp add: abs_mult sgn_if)
qed

lemma zero_at_all: "list_all (\<lambda>l. zero_at l = Inr (digit_char (nat \<bar>l\<bar>))) [-9..9]"
  by code_simp

lemma zero_at_digit: "\<bar>l\<bar> < 10 \<Longrightarrow> zero_at l = Inr (digit_char (nat \<bar>l\<bar>))"
  using zero_at_all unfolding list_all_iff set_upto by (elim bspec) (simp only: atLeastAtMost_iff, linarith)

lemma convert_loop_dec: "convert_loop i = Inr (rev (dec_nat (nat \<bar>i\<bar>)))"
proof (induction i rule: convert_loop.induct)
  case (1 i)
  have m: "\<bar>i smod 10\<bar> < 10" by (simp add: abs_smod_10)
  have z: "zero_at (i smod 10) = Inr (digit_char (nat \<bar>i\<bar> mod 10))"
    using zero_at_digit[OF m] by (simp add: abs_smod_10 nat_mod_distrib)
  have d: "nat \<bar>i sdiv 10\<bar> = nat \<bar>i\<bar> div 10" by (simp add: abs_sdiv_10 nat_div_distrib)
  have zero: "i sdiv 10 = 0 \<longleftrightarrow> nat \<bar>i\<bar> < 10"
  proof -
    have "i sdiv 10 = 0 \<longleftrightarrow> nat \<bar>i sdiv 10\<bar> = 0" by simp
    also have "\<dots> \<longleftrightarrow> nat \<bar>i\<bar> < 10" unfolding d by (simp add: div_eq_0_iff)
    finally show ?thesis .
  qed
  show ?case
  proof (cases "i sdiv 10 = 0")
    case True
    then show ?thesis using z zero
      by (subst convert_loop.simps, subst dec_nat.simps) simp
  next
    case False
    then show ?thesis using z zero 1[OF _ False] d
      by (subst convert_loop.simps, subst dec_nat.simps) simp
  qed
qed

lemma convert_dec: "convert v = Inr (dec_int v @ [NUL], length (dec_int v))"
  by (auto simp: convert_def convert_loop_dec dec_int_def)

text \<open>Every value of the integer types, signed or not, is in this range.\<close>

definition machine_int :: "int \<Rightarrow> bool" where
  "machine_int v = (- (2 ^ 63) \<le> v \<and> v < 2 ^ 64)"

lemma length_dec_int: "machine_int v \<Longrightarrow> length (dec_int v) \<le> 20"
proof (cases "v < 0")
  case True
  assume "machine_int v"
  with True have "nat (- v) < 10 ^ 19" by (simp add: machine_int_def)
  then have "length (dec_nat (nat (- v))) \<le> 19" by (rule length_dec_nat_le) simp
  with True show ?thesis by (simp add: dec_int_def)
next
  case False
  assume "machine_int v"
  with False have "nat v < 10 ^ 20" by (simp add: machine_int_def)
  then have "length (dec_nat (nat v)) \<le> 20" by (rule length_dec_nat_le) simp
  with False show ?thesis by (simp add: dec_int_def)
qed

lemma FormatInteger_spec:
  assumes "fb_inv b" and "machine_int v"
  shows "\<exists>b'. FormatInteger v b = Inr b' \<and> fb_inv b' \<and> length (fb_data b') = length (fb_data b)
     \<and> fb_text b' = fb_text b @ (if 32 \<le> available b then dec_int v else [])"
proof (cases "32 \<le> available b")
  case True
  then have "fb_cur b + length (dec_int v @ [NUL]) \<le> length (fb_data b)"
    using length_dec_int[OF assms(2)] assms(1) by (simp add: available_eq)
  from write_at_current_spec[OF assms(1) this, of "length (dec_int v)"] True show ?thesis
    by (auto simp: FormatInteger_def kMaxNumericSize_def convert_dec)
next
  case False
  then show ?thesis using assms(1) by (simp add: FormatInteger_def kMaxNumericSize_def)
qed

text \<open>
  Claim C31. \<^verbatim>\<open>FormatInteger\<close> on any value of the integer types, the smallest one included,
  reads no byte outside of the digit table, writes no byte outside of the buffer, and appends
  exactly the decimal notation of the value, when 32 bytes are free; otherwise it appends nothing.
\<close>

theorem FormatInteger_correct:
  assumes "fb_inv b" and "machine_int v"
  shows "\<exists>b'. FormatInteger v b = Inr b' \<and> fb_inv b'
     \<and> fb_text b' = fb_text b @ (if 32 \<le> available b then dec_int v else [])"
  using FormatInteger_spec[OF assms] by blast

theorem FormatInteger_correct_witness:
  "\<exists>b'. FormatInteger (- (2 ^ 63)) (FixedBuffer (replicate 40 NUL)) = Inr b'
     \<and> fb_text b' = ''-9223372036854775808''"
proof -
  have d: "dec_int (- (2 ^ 63)) = ''-9223372036854775808''"
    by (simp add: dec_int_def dec_nat.simps)
  have "fb_inv (FixedBuffer (replicate 40 NUL))" by (simp add: fb_inv_def FixedBuffer_def)
  from FormatInteger_correct[OF this, of "- (2 ^ 63)"] available_eq[OF this] d show ?thesis
    by (auto simp: machine_int_def FixedBuffer_def fb_text_def)
qed

section \<open>The stream operators\<close>

definition put_bool :: "bool \<Rightarrow> fixed_buffer \<Rightarrow> fixed_buffer res" where
  "put_bool v = fb_Append (if v then ''1'' else ''0'')"

definition put_int :: "32 word \<Rightarrow> fixed_buffer \<Rightarrow> fixed_buffer res" where
  "put_int v = FormatInteger (sint v)"

definition put_unsigned :: "32 word \<Rightarrow> fixed_buffer \<Rightarrow> fixed_buffer res" where
  "put_unsigned v = FormatInteger (uint v)"

definition put_short :: "16 word \<Rightarrow> fixed_buffer \<Rightarrow> fixed_buffer res" where
  "put_short v = put_int (scast v)"

definition put_ushort :: "16 word \<Rightarrow> fixed_buffer \<Rightarrow> fixed_buffer res" where
  "put_ushort v = put_unsigned (ucast v)"

definition put_long :: "64 word \<Rightarrow> fixed_buffer \<Rightarrow> fixed_buffer res" where
  "put_long v = FormatInteger (sint v)"

definition put_ulong :: "64 word \<Rightarrow> fixed_buffer \<Rightarrow> fixed_buffer res" where
  "put_ulong v = FormatInteger (uint v)"

text \<open>
  \<open>text\<close> is what \<^verbatim>\<open>"%.12g"\<close> prints for the value; \<^verbatim>\<open>snprintf\<close> stores at most 31
  characters of it and a zero byte, and returns its full length.
\<close>

definition put_double :: "string \<Rightarrow> fixed_buffer \<Rightarrow> fixed_buffer res" where
  "put_double text b =
     (if available b \<ge> kMaxNumericSize
      then write_at_current (snprintf_keep kMaxNumericSize text @ [NUL]) (length text) b
      else Inr b)"

text \<open>A C string is None for a null pointer; otherwise the bytes before the first zero byte count.\<close>

definition strlen :: "string \<Rightarrow> nat" where
  "strlen s = length (takeWhile (\<lambda>c. c \<noteq> NUL) s)"

definition put_cstr :: "string option \<Rightarrow> fixed_buffer \<Rightarrow> fixed_buffer res" where
  "put_cstr v = (case v of None \<Rightarrow> fb_Append (take 6 ''(NULL)'') | Some s \<Rightarrow> fb_Append (take (strlen s) s))"

text \<open>Overloads that hand their argument on, or instantiate the same template.\<close>

definition put_llong :: "64 word \<Rightarrow> fixed_buffer \<Rightarrow> fixed_buffer res" where
  "put_llong v = FormatInteger (sint v)"

definition put_ullong :: "64 word \<Rightarrow> fixed_buffer \<Rightarrow> fixed_buffer res" where
  "put_ullong v = FormatInteger (uint v)"

definition put_float :: "string \<Rightarrow> fixed_buffer \<Rightarrow> fixed_buffer res" where
  "put_float text = put_double text"

definition put_ucstr :: "string option \<Rightarrow> fixed_buffer \<Rightarrow> fixed_buffer res" where
  "put_ucstr v = put_cstr v"

text \<open>What can follow \<^verbatim>\<open><<\<close>. A character has no operator of its own: it is promoted to an int
  as a signed character.\<close>

datatype log_item =
    LBool bool | LShort "16 word" | LUShort "16 word" | LInt "32 word" | LUnsigned "32 word"
  | LLong "64 word" | LULong "64 word" | LLongLong "64 word" | LULongLong "64 word"
  | LFloat string | LDouble string | LStr "string option" | LUStr "string option" | LChar char

fun put_item :: "log_item \<Rightarrow> fixed_buffer \<Rightarrow> fixed_buffer res" where
  "put_item (LBool v) = put_bool v"
| "put_item (LShort v) = put_short v"
| "put_item (LUShort v) = put_ushort v"
| "put_item (LInt v) = put_int v"
| "put_item (LUnsigned v) = put_unsigned v"
| "put_item (LLong v) = put_long v"
| "put_item (LULong v) = put_ulong v"
| "put_item (LLongLong v) = put_llong v"
| "put_item (LULongLong v) = put_ullong v"
| "put_item (LFloat t) = put_float t"
| "put_item (LDouble t) = put_double t"
| "put_item (LStr s) = put_cstr s"
| "put_item (LUStr s) = put_ucstr s"
| "put_item (LChar c) = put_int (scast (of_char c :: 8 word))"

section \<open>A line of the log\<close>

record logger =
  log_stream :: fixed_buffer
  log_line :: "32 word"
  base_name :: string

definition Logger_stream :: "log_item \<Rightarrow> logger \<Rightarrow> logger res" where
  "Logger_stream x l = rbind (put_item x (log_stream l)) (\<lambda>b. Inr (l\<lparr>log_stream := b\<rparr>))"

text \<open>\<open>m\<close> is the memory of the new object, \<open>now\<close> the formatted time.\<close>

definition Logger_new :: "string \<Rightarrow> string \<Rightarrow> string \<Rightarrow> 32 word \<Rightarrow> logger res" where
  "Logger_new m now fileName line =
     seq_res Logger_stream [LStr (Some now), LStr (Some '' '')]
       \<lparr>log_stream = FixedBuffer m, log_line = line, base_name = fileName\<rparr>"

text \<open>The destructor: the bytes it hands to \<^verbatim>\<open>async_logger_->Append\<close>.\<close>

definition Logger_finish :: "logger \<Rightarrow> string res" where
  "Logger_finish l =
     rbind (seq_res Logger_stream
       [LStr (Some '' -- ''), LStr (Some (base_name l)), LChar (CHR '':''), LInt (log_line l), LStr (Some [LF])] l)
       (\<lambda>l'. mem_read (fb_data (log_stream l')) 0 (current_length (log_stream l')))"

text \<open>A log statement: constructor, the streamed items, destructor.\<close>

definition log_statement ::
  "string \<Rightarrow> string \<Rightarrow> string \<Rightarrow> 32 word \<Rightarrow> log_item list \<Rightarrow> string res" where
  "log_statement m now fileName line items =
     rbind (Logger_new m now fileName line) (\<lambda>l. rbind (seq_res Logger_stream items l) Logger_finish)"

text \<open>The text of an item, and which items exist.\<close>

fun item_text :: "log_item \<Rightarrow> string" where
  "item_text (LBool v) = (if v then ''1'' else ''0'')"
| "item_text (LShort v) = dec_int (sint v)"
| "item_text (LUShort v) = dec_int (uint v)"
| "item_text (LInt v) = dec_int (sint v)"
| "item_text (LUnsigned v) = dec_int (uint v)"
| "item_text (LLong v) = dec_int (sint v)"
| "item_text (LULong v) = dec_int (uint v)"
| "item_text (LLongLong v) = dec_int (sint v)"
| "item_text (LULongLong v) = dec_int (uint v)"
| "item_text (LFloat t) = t"
| "item_text (LDouble t) = t"
| "item_text (LStr None) = ''(NULL)''"
| "item_text (LStr (Some s)) = takeWhile (\<lambda>c. c \<noteq> NUL) s"
| "item_text (LUStr None) = ''(NULL)''"
| "item_text (LUStr (Some s)) = takeWhile (\<lambda>c. c \<noteq> NUL) s"
| "item_text (LChar c) = dec_int (sint (of_char c :: 8 word))"

text \<open>\<^verbatim>\<open>%.12g\<close> prints at most 19 characters.\<close>

fun item_ok :: "log_item \<Rightarrow> bool" where
  "item_ok (LDouble t) = (length t \<le> 31)"
| "item_ok (LFloat t) = (length t \<le> 31)"
| "item_ok x = True"

lemma take_strlen: "take (strlen s) s = takeWhile (\<lambda>c. c \<noteq> NUL) s"
  by (simp add: strlen_def takeWhile_eq_take[symmetric])

lemma word_machine:
  "machine_int (sint (a :: 8 word))" "machine_int (sint (b :: 16 word))" "machine_int (sint (c :: 32 word))"
  "machine_int (sint (d :: 64 word))" "machine_int (uint (b :: 16 word))" "machine_int (uint (c :: 32 word))"
  "machine_int (uint (d :: 64 word))"
  using sint_ge[of a] sint_lt[of a] sint_ge[of b] sint_lt[of b] sint_ge[of c] sint_lt[of c]
    sint_ge[of d] sint_lt[of d] uint_lt2p[of b] uint_lt2p[of c] uint_lt2p[of d]
    order_trans[OF _ uint_ge_0, of "- (2 ^ 63)"]
  by (simp_all add: machine_int_def)

text \<open>An item is appended whole or not at all; when 32 bytes and its own length are free, it is appended.\<close>

definition puts_whole :: "(fixed_buffer \<Rightarrow> fixed_buffer res) \<Rightarrow> string \<Rightarrow> fixed_buffer \<Rightarrow> bool" where
  "puts_whole f t b = (\<exists>b'. f b = Inr b' \<and> fb_inv b' \<and> length (fb_data b') = length (fb_data b)
     \<and> (fb_text b' = fb_text b @ t \<or> (fb_text b' = fb_text b \<and> available b < 32 + length t)))"

lemma puts_whole_Append: "fb_inv b \<Longrightarrow> puts_whole (fb_Append d) d b"
  using fb_Append_spec[of b d] by (auto simp: puts_whole_def split: if_splits)

lemma puts_whole_Integer: "fb_inv b \<Longrightarrow> machine_int v \<Longrightarrow> puts_whole (FormatInteger v) (dec_int v) b"
  using FormatInteger_spec[of b v] by (auto simp: puts_whole_def split: if_splits)

lemma puts_whole_double:
  assumes "fb_inv b" and "length t \<le> 31"
  shows "puts_whole (put_double t) t b"
proof (cases "32 \<le> available b")
  case True
  have k: "snprintf_keep kMaxNumericSize t = t"
    using assms(2) by (intro snprintf_keep_id) (simp add: kMaxNumericSize_def)
  have "fb_cur b + length (t @ [NUL]) \<le> length (fb_data b)"
    using True assms by (simp add: available_eq)
  from write_at_current_spec[OF assms(1) this, of "length t"] True show ?thesis
    by (auto simp: puts_whole_def put_double_def k) (simp_all add: kMaxNumericSize_def)
next
  case False
  then show ?thesis using assms by (simp add: puts_whole_def put_double_def kMaxNumericSize_def)
qed

lemmas widened = sint_up_scast[where ?'a = 16 and ?'b = 32] sint_up_scast[where ?'a = 8 and ?'b = 32]
  uint_up_ucast[where ?'a = 16 and ?'b = 32]

lemma put_item_whole:
  assumes "fb_inv b" and "item_ok x"
  shows "puts_whole (put_item x) (item_text x) b"
proof -
  note p = puts_whole_Append[OF assms(1)] puts_whole_Integer[OF assms(1)] puts_whole_double[OF assms(1)]
  show ?thesis
  proof (cases x)
    case (LStr s)
    then show ?thesis using p(1) by (cases s) (simp_all add: put_cstr_def take_strlen)
  next
    case (LUStr s)
    then show ?thesis using p(1) by (cases s) (simp_all add: put_ucstr_def put_cstr_def take_strlen)
  qed (use p word_machine assms(2) in \<open>simp_all add: put_bool_def put_short_def put_ushort_def put_int_def put_unsigned_def
      put_long_def put_ulong_def put_llong_def put_ullong_def put_float_def widened is_up\<close>)
qed

text \<open>
  Whatever is streamed, each item is appended as a whole or dropped as a whole, no
  byte is written outside of the line buffer, and an item is only dropped when fewer than 32 bytes
  more than its own text are free.
\<close>

lemma put_item_all_or_nothing:
  assumes "fb_inv b" and "item_ok x"
  shows "\<exists>b'. put_item x b = Inr b' \<and> fb_inv b' \<and> length (fb_data b') = length (fb_data b)
     \<and> (fb_text b' = fb_text b @ item_text x
        \<or> fb_text b' = fb_text b \<and> available b < 32 + length (item_text x))"
  using put_item_whole[OF assms] by (simp add: puts_whole_def)

theorem put_item_witness:
  "\<exists>b'. put_item (LChar (CHR '':'')) (FixedBuffer (replicate 40 NUL)) = Inr b' \<and> fb_text b' = ''58''"
proof -
  have i: "fb_inv (FixedBuffer (replicate 40 NUL))" by (simp add: fb_inv_def FixedBuffer_def)
  have d: "item_text (LChar (CHR '':'')) = ''58''" by (simp add: dec_int_def dec_nat.simps)
  from put_item_all_or_nothing[OF i, of "LChar (CHR '':'')"] available_eq[OF i] d show ?thesis
    by (auto simp: FixedBuffer_def fb_text_def)
qed

lemma Logger_stream_inv:
  assumes "fb_inv (log_stream l)" and "list_all item_ok xs"
  shows "\<exists>b. seq_res Logger_stream xs l = Inr (l\<lparr>log_stream := b\<rparr>) \<and> fb_inv b
     \<and> length (fb_data b) = length (fb_data (log_stream l))"
  using assms
proof (induction xs arbitrary: l)
  case Nil
  then show ?case by (auto intro!: exI[of _ "log_stream l"])
next
  case (Cons x xs)
  from put_item_whole[OF Cons.prems(1), of x] Cons.prems(2) obtain b where
    b: "put_item x (log_stream l) = Inr b" "fb_inv b" "length (fb_data b) = length (fb_data (log_stream l))"
    by (auto simp: puts_whole_def)
  from Cons.IH[of "l\<lparr>log_stream := b\<rparr>"] b Cons.prems(2) show ?case by (auto simp: Logger_stream_def)
qed

text \<open>Every log statement yields a line, and the line is no longer than the buffer of its stream.\<close>

lemma log_statement_total:
  assumes "length m = kDefaultSize_log" and "list_all item_ok items"
  shows "\<exists>d. log_statement m now fileName line items = Inr d \<and> length d \<le> kDefaultSize_log"
proof -
  let ?l = "\<lparr>log_stream = FixedBuffer m, log_line = line, base_name = fileName\<rparr>"
  have "fb_inv (log_stream ?l)" using assms(1) by (simp add: fb_inv_def FixedBuffer_def kDefaultSize_log_def)
  from Logger_stream_inv[OF this, of "[LStr (Some now), LStr (Some '' '')]"] obtain b1 where
    b1: "Logger_new m now fileName line = Inr (?l\<lparr>log_stream := b1\<rparr>)" "fb_inv b1" "length (fb_data b1) = kDefaultSize_log"
    using assms(1) by (auto simp: Logger_new_def FixedBuffer_def)
  from Logger_stream_inv[of "?l\<lparr>log_stream := b1\<rparr>" items] b1 assms(2) obtain b2 where
    b2: "seq_res Logger_stream items (?l\<lparr>log_stream := b1\<rparr>) = Inr (?l\<lparr>log_stream := b2\<rparr>)" "fb_inv b2"
    "length (fb_data b2) = kDefaultSize_log" by auto
  from Logger_stream_inv[of "?l\<lparr>log_stream := b2\<rparr>"
      "[LStr (Some '' -- ''), LStr (Some fileName), LChar (CHR '':''), LInt line, LStr (Some [LF])]"] b2 obtain b3 where
    b3: "seq_res Logger_stream [LStr (Some '' -- ''), LStr (Some fileName), LChar (CHR '':''), LInt line, LStr (Some [LF])]
        (?l\<lparr>log_stream := b2\<rparr>) = Inr (?l\<lparr>log_stream := b3\<rparr>)" "fb_inv b3" "length (fb_data b3) = kDefaultSize_log" by auto
  have "current_length b3 \<le> length (fb_data b3)" using b3(2) by (simp add: fb_inv_def current_length_def)
  then show ?thesis using b1(1) b2(1) b3 by (simp add: log_statement_def Logger_finish_def mem_read_ok)
qed

lemma Logger_stream_run:
  assumes "fb_inv (log_stream l)" and "list_all item_ok xs"
    and "length (concat (map item_text xs)) + 32 \<le> available (log_stream l)"
  shows "\<exists>b. seq_res Logger_stream xs l = Inr (l\<lparr>log_stream := b\<rparr>) \<and> fb_inv b
     \<and> length (fb_data b) = length (fb_data (log_stream l))
     \<and> fb_text b = fb_text (log_stream l) @ concat (map item_text xs)"
  using assms
proof (induction xs arbitrary: l)
  case Nil
  then show ?case by (auto intro!: exI[of _ "log_stream l"])
next
  case (Cons x xs)
  from put_item_whole[OF Cons.prems(1), of x] Cons.prems(2,3) obtain b where
    b: "put_item x (log_stream l) = Inr b" "fb_inv b" "length (fb_data b) = length (fb_data (log_stream l))"
    "fb_text b = fb_text (log_stream l) @ item_text x" by (auto simp: puts_whole_def)
  have "fb_cur b = fb_cur (log_stream l) + length (item_text x)"
    using arg_cong[OF b(4), of length] b(2) Cons.prems(1)
    by (simp add: length_fb_text current_length_def)
  then have "length (concat (map item_text xs)) + 32 \<le> available b"
    using Cons.prems(1,3) b(2,3) by (simp add: available_eq)
  with Cons.IH[of "l\<lparr>log_stream := b\<rparr>"] b Cons.prems(2) show ?case
    by (auto simp: Logger_stream_def)
qed

lemma log_statement_text:
  assumes "length m = kDefaultSize_log" and "list_all item_ok items"
    and "all = [LStr (Some now), LStr (Some '' '')] @ items
      @ [LStr (Some '' -- ''), LStr (Some fileName), LChar (CHR '':''), LInt line, LStr (Some [LF])]"
    and "length (concat (map item_text all)) + 32 \<le> kDefaultSize_log"
  shows "log_statement m now fileName line items = Inr (concat (map item_text all))"
proof -
  let ?l = "\<lparr>log_stream = FixedBuffer m, log_line = line, base_name = fileName\<rparr>"
  let ?tail = "[LStr (Some '' -- ''), LStr (Some fileName), LChar (CHR '':''), LInt line, LStr (Some [LF])]"
  have i: "fb_inv (log_stream ?l)" "available (log_stream ?l) = kDefaultSize_log"
    using assms(1) available_eq[of "FixedBuffer m"]
    by (simp_all add: fb_inv_def FixedBuffer_def kDefaultSize_log_def)
  have "list_all item_ok all" using assms(2,3) by simp
  from Logger_stream_run[OF i(1) this] assms(4) i(2) obtain b where
    b: "seq_res Logger_stream all ?l = Inr (?l\<lparr>log_stream := b\<rparr>)" "fb_inv b"
    "fb_text b = concat (map item_text all)" by (auto simp: FixedBuffer_def fb_text_def)
  have cat: "seq_res f (xs @ ys) s = rbind (seq_res f xs s) (seq_res f ys)" for f :: "log_item \<Rightarrow> logger \<Rightarrow> logger res" and xs ys s
  proof (induction xs arbitrary: s)
    case (Cons x xs)
    then show ?case by (cases "f x s") simp_all
  qed simp
  have assoc: "rbind (rbind m f) g = rbind m (\<lambda>x. rbind (f x) g)" for m :: "logger res" and f :: "logger \<Rightarrow> logger res" and g :: "logger \<Rightarrow> string res"
    by (cases m) simp_all
  from b(1) obtain l1 l2 where l1: "Logger_new m now fileName line = Inr l1"
    and l2: "seq_res Logger_stream items l1 = Inr l2"
    and l3: "seq_res Logger_stream ?tail l2 = Inr (?l\<lparr>log_stream := b\<rparr>)"
    unfolding assms(3) cat by (auto simp: rbind_Inr_iff Logger_new_def simp del: seq_res.simps)
  have keep: "seq_res Logger_stream xs s = Inr s' \<Longrightarrow> base_name s' = base_name s \<and> log_line s' = log_line s"
    for xs s s' by (induction xs arbitrary: s) (auto simp: Logger_stream_def rbind_Inr_iff)
  have "base_name l2 = fileName" "log_line l2 = line"
    using keep[OF l2] keep[OF l1[unfolded Logger_new_def]] by simp_all
  then have "Logger_finish l2 = Inr (fb_text b)"
    using l3 b(2) by (simp add: Logger_finish_def mem_read_def fb_text_def fb_inv_def current_length_def
        del: seq_res.simps)
  then show ?thesis using l1 l2 b(3) by (simp add: log_statement_def)
qed

text \<open>
  Claim C34. A log statement whose text leaves 32 bytes of the line buffer free hands exactly
  one line to the back end: time, items, file name, line number and line feed. The colon between
  file name and line number comes out as the number 58, its character code.
\<close>

theorem log_statement_correct:
  assumes "length m = kDefaultSize_log" and "list_all item_ok items"
    and "all = [LStr (Some now), LStr (Some '' '')] @ items
      @ [LStr (Some '' -- ''), LStr (Some fileName), LChar (CHR '':''), LInt line, LStr (Some [LF])]"
    and "length (concat (map item_text all)) + 32 \<le> kDefaultSize_log"
  shows "log_statement m now fileName line items = Inr (concat (map item_text all))"
  using log_statement_text[OF assms] .

theorem log_statement_witness:
  "log_statement (replicate 4000 NUL) ''T'' ''a.cc'' 7 [LStr None, LInt (-1)] = Inr (''T (NULL)-1 -- a.cc587'' @ [LF])"
proof -
  have d: "dec_int 58 = ''58''" "dec_int 7 = ''7''" "dec_int (- 1) = ''-1''"
    by (simp_all add: dec_int_def dec_nat.simps)
  show ?thesis
    using log_statement_correct[of "replicate 4000 NUL" "[LStr None, LInt (-1)]" _ "''T''" "''a.cc''" 7] d
    by (simp add: kDefaultSize_log_def NUL_def LF_def)
qed

end
