(* ===== verification/LogFile.thy ===== *)
theory LogFile
  imports Prelude
begin

text \<open>
  \<^verbatim>\<open>logger/fileutil.cc\<close> and \<^verbatim>\<open>logger/logfile.cc\<close>: writing a log file. The C library is a
  parameter: \<open>fw k d\<close> is how many bytes of \<open>d\<close> the \<open>k\<close>-th call of \<^verbatim>\<open>fwrite_unlocked\<close>
  takes. \<open>af_text\<close> holds the bytes it took so far, \<open>af_flushed\<close> how many of them the last
  \<^verbatim>\<open>fflush\<close> has passed to the kernel, \<open>af_errors\<close> counts the messages on
  \<^verbatim>\<open>stderr\<close>.
\<close>

type_synonym fwrite_fun = "nat \<Rightarrow> string \<Rightarrow> nat"

record append_file =
  af_text :: string
  af_flushed :: nat
  af_calls :: nat
  af_errors :: nat

definition AppendFile :: append_file where
  "AppendFile = \<lparr>af_text = [], af_flushed = 0, af_calls = 0, af_errors = 0\<rparr>"

definition fwrite :: "fwrite_fun \<Rightarrow> string \<Rightarrow> append_file \<Rightarrow> nat \<times> append_file" where
  "fwrite fw d f = (let n = fw (af_calls f) d
                    in (n, f\<lparr>af_text := af_text f @ take n d, af_calls := Suc (af_calls f)\<rparr>))"

text \<open>The \<^verbatim>\<open>while\<close> loop; \<open>err\<close> is \<^verbatim>\<open>ferror\<close>, asked when nothing was taken.\<close>

function append_loop :: "fwrite_fun \<Rightarrow> bool \<Rightarrow> string \<Rightarrow> append_file \<Rightarrow> append_file" where
  "append_loop fw err rest f =
     (if length rest > 0
      then case fwrite fw rest f of (x, f') \<Rightarrow>
        if x = 0 then (if err then f'\<lparr>af_errors := Suc (af_errors f')\<rparr> else f')
        else append_loop fw err (drop x rest) f'
      else f)"
  by pat_completeness auto
termination by (relation "measure (\<lambda>(fw, err, rest, f). length rest)") auto

declare append_loop.simps [simp del]

definition AppendFile_Append :: "fwrite_fun \<Rightarrow> bool \<Rightarrow> string \<Rightarrow> append_file \<Rightarrow> append_file" where
  "AppendFile_Append fw err d f = (case fwrite fw d f of (n, f') \<Rightarrow> append_loop fw err (drop n d) f')"

definition AppendFile_Flush :: "append_file \<Rightarrow> append_file" where
  "AppendFile_Flush f = f\<lparr>af_flushed := length (af_text f)\<rparr>"

section \<open>LogFile\<close>

record log_file =
  lf_count :: int
  check_every_n :: int
  lf_file :: append_file

definition LogFile :: "int \<Rightarrow> log_file" where
  "LogFile n = \<lparr>lf_count = 0, check_every_n = n, lf_file = AppendFile\<rparr>"

definition LogFile_default :: log_file where
  "LogFile_default = LogFile 1024"

definition LogFile_Append0 :: "fwrite_fun \<Rightarrow> bool \<Rightarrow> string \<Rightarrow> log_file \<Rightarrow> log_file" where
  "LogFile_Append0 fw err d l =
     (let l1 = l\<lparr>lf_file := AppendFile_Append fw err d (lf_file l), lf_count := lf_count l + 1\<rparr>
      in if lf_count l1 \<ge> check_every_n l1
         then l1\<lparr>lf_count := 0, lf_file := AppendFile_Flush (lf_file l1)\<rparr> else l1)"

text \<open>With and without the mutex the same happens, alone or under the lock.\<close>

definition LogFile_Append :: "fwrite_fun \<Rightarrow> bool \<Rightarrow> string \<Rightarrow> log_file \<Rightarrow> log_file" where
  "LogFile_Append fw err d l = LogFile_Append0 fw err d l"

definition LogFile_Flush :: "log_file \<Rightarrow> log_file" where
  "LogFile_Flush l = l\<lparr>lf_file := AppendFile_Flush (lf_file l)\<rparr>"

text \<open>The file is closed with \<^verbatim>\<open>fclose\<close>, which flushes; a \<^verbatim>\<open>LogFile\<close> owns its file.\<close>

definition AppendFile_delete :: "append_file \<Rightarrow> append_file" where
  "AppendFile_delete f = f\<lparr>af_flushed := length (af_text f)\<rparr>"

definition LogFile_delete :: "log_file \<Rightarrow> log_file" where
  "LogFile_delete l = l\<lparr>lf_file := AppendFile_delete (lf_file l)\<rparr>"

definition lf_text :: "log_file \<Rightarrow> string" where
  "lf_text l = af_text (lf_file l)"

section \<open>What reaches the file\<close>

text \<open>\<^verbatim>\<open>fwrite\<close> documents: it takes at most what it was given. A writable file takes something.\<close>

definition writable_file :: "fwrite_fun \<Rightarrow> bool" where
  "writable_file fw = (\<forall>k d. fw k d \<le> length d \<and> (d \<noteq> [] \<longrightarrow> 0 < fw k d))"

lemma append_loop_text:
  "writable_file fw \<Longrightarrow> af_text (append_loop fw err rest f) = af_text f @ rest
     \<and> af_flushed (append_loop fw err rest f) = af_flushed f"
proof (induction fw err rest f rule: append_loop.induct)
  case (1 fw err rest f)
  show ?case
  proof (cases "rest = []")
    case True
    then show ?thesis by (subst (1 2) append_loop.simps) simp
  next
    case False
    then have "0 < fw (af_calls f) rest" using 1(2) by (simp add: writable_file_def)
    with False 1 show ?thesis
      by (subst (1 2) append_loop.simps) (simp add: fwrite_def Let_def)
  qed
qed

lemma AppendFile_Append_text:
  "writable_file fw \<Longrightarrow> af_text (AppendFile_Append fw err d f) = af_text f @ d
     \<and> af_flushed (AppendFile_Append fw err d f) = af_flushed f"
  by (simp add: AppendFile_Append_def fwrite_def Let_def append_loop_text)

lemma LogFile_Append_text: "writable_file fw \<Longrightarrow> lf_text (LogFile_Append fw err d l) = lf_text l @ d"
  by (simp add: LogFile_Append_def LogFile_Append0_def Let_def lf_text_def AppendFile_Append_text
      AppendFile_Flush_def)

lemma LogFile_Flush_text [simp]: "lf_text (LogFile_Flush l) = lf_text l"
  by (simp add: LogFile_Flush_def lf_text_def AppendFile_Flush_def)

lemma LogFile_Appends_text:
  "writable_file fw \<Longrightarrow> lf_text (fold (LogFile_Append fw err) ds l) = lf_text l @ concat ds"
  by (induction ds arbitrary: l) (simp_all add: LogFile_Append_text)

text \<open>
  Without any assumption on the file system a call still ends, and the bytes that reach the
  file are a prefix of those it was given.
\<close>

lemma append_loop_prefix:
  "\<exists>k. af_text (append_loop fw err rest f) = af_text f @ take k rest"
proof (induction fw err rest f rule: append_loop.induct)
  case (1 fw err rest f)
  let ?x = "fw (af_calls f) rest"
  show ?case
  proof (cases "rest \<noteq> [] \<and> ?x \<noteq> 0")
    case True
    let ?f = "snd (fwrite fw rest f)"
    have f: "fwrite fw rest f = (?x, ?f)" "af_text ?f = af_text f @ take ?x rest"
      by (simp_all add: fwrite_def Let_def)
    from 1[OF _ f(1)[symmetric]] True obtain k where
      "af_text (append_loop fw err (drop ?x rest) ?f) = af_text ?f @ take k (drop ?x rest)" by auto
    moreover have "append_loop fw err rest f = append_loop fw err (drop ?x rest) ?f"
      using True by (subst append_loop.simps, subst f(1)) simp
    ultimately show ?thesis using f(2) by (intro exI[of _ "?x + k"]) (simp add: take_add)
  next
    case False
    then show ?thesis by (subst append_loop.simps) (auto simp: fwrite_def Let_def intro: exI[of _ 0])
  qed
qed

text \<open>The last \<^verbatim>\<open>count_\<close> lines are those that have not been flushed.\<close>

definition flush_inv :: "string list \<Rightarrow> log_file \<Rightarrow> bool" where
  "flush_inv ds l = (lf_text l = concat ds \<and> 0 \<le> lf_count l \<and> lf_count l < check_every_n l
     \<and> nat (lf_count l) \<le> length ds
     \<and> af_flushed (lf_file l) = length (concat (take (length ds - nat (lf_count l)) ds)))"

lemma flush_inv_Append:
  assumes "flush_inv ds l" and "writable_file fw"
  shows "flush_inv (ds @ [d]) (LogFile_Append fw err d l)"
proof -
  have n: "nat (lf_count l + 1) = Suc (nat (lf_count l))" using assms(1) by (simp add: flush_inv_def Suc_nat_eq_nat_zadd1)
  show ?thesis using assms AppendFile_Append_text[OF assms(2), of err d "lf_file l"] n
    by (auto simp: flush_inv_def LogFile_Append_def LogFile_Append0_def Let_def lf_text_def
        AppendFile_Flush_def)
qed

text \<open>
  Claim C39. A log file that can be written receives every line completely and in order, however
  the C library splits the writes, and after any number of lines fewer than \<^verbatim>\<open>check_every_n\<close>
  of them, the last ones, have not been flushed; when it is destroyed all of them are.
\<close>

theorem LogFile_lines:
  assumes "writable_file fw" and "0 < n"
    and "l = fold (LogFile_Append fw err) ds (LogFile n)"
  shows "lf_text l = concat ds
     \<and> (\<exists>k. k < nat n \<and> k \<le> length ds \<and> af_flushed (lf_file l) = length (concat (take (length ds - k) ds)))
     \<and> af_flushed (lf_file (LogFile_delete l)) = length (concat ds)"
proof -
  have n: "check_every_n (LogFile_Append fw err d l) = check_every_n l" for d l
    by (simp add: LogFile_Append_def LogFile_Append0_def Let_def)
  have "flush_inv ds' l \<Longrightarrow> flush_inv (ds' @ ds) (fold (LogFile_Append fw err) ds l)
      \<and> check_every_n (fold (LogFile_Append fw err) ds l) = check_every_n l" for ds' l
  proof (induction ds arbitrary: ds' l)
    case (Cons d ds)
    from Cons.IH[OF flush_inv_Append[OF Cons.prems assms(1)]] show ?case by (simp add: n)
  qed simp
  moreover have "flush_inv [] (LogFile n)"
    using assms(2) by (simp add: flush_inv_def LogFile_def AppendFile_def lf_text_def)
  ultimately have i: "flush_inv ds l" and c: "check_every_n l = n"
    using assms(3) by (fastforce, fastforce simp: LogFile_def)
  then show ?thesis
    by (auto simp: flush_inv_def lf_text_def LogFile_delete_def AppendFile_delete_def intro!: exI[of _ "nat (lf_count l)"])
qed

definition demo_fwrite :: fwrite_fun where
  "demo_fwrite k d = (if k = 0 then min 1 (length d) else length d)"

lemma demo_fwrite_ok: "writable_file demo_fwrite"
  by (simp add: writable_file_def demo_fwrite_def)

theorem LogFile_lines_witness:
  "lf_text (fold (LogFile_Append demo_fwrite False) [''ab'', ''cd''] (LogFile 2)) = ''abcd''"
  using LogFile_lines[OF demo_fwrite_ok, of 2 _ False "[''ab'', ''cd'']"] by simp

end
