(* ===== verification/AsyncLogging.thy ===== *)
theory AsyncLogging
  imports LogStream LogFile
begin

text \<open>
  \<^verbatim>\<open>logger/asynclogging.h\<close> and \<^verbatim>\<open>logger/asynclogging.cc\<close>: the double buffered
  asynchronous logger. \<open>async_log\<close> is the state that the mutex protects, \<open>backend\<close> the local
  variables of the back end thread. A buffer pointer is an option, None for a null pointer, whose
  use is the fault \<open>NullDeref\<close>; the vector holds pointers too. One call of \<^verbatim>\<open>Append\<close>
  and one critical section of the thread are one step each, since both hold the mutex; the timed
  wait releases it before anything is changed and the predicate is not asked again afterwards, so
  the critical section after the wait can run at any moment.
\<close>

type_synonym buffer_ptr = "fixed_buffer option"

record async_log =
  current_buffer :: buffer_ptr
  next_buffer :: buffer_ptr
  buffers :: "buffer_ptr list"
  running :: bool
  notified :: nat

record backend =
  new_buffer_1 :: buffer_ptr
  new_buffer_2 :: buffer_ptr
  buffers_to_write :: "buffer_ptr list"
  log_output :: log_file

text \<open>\<open>m1\<close> to \<open>m4\<close> are the memory the new buffers are made in.\<close>

definition AsyncLogging_new :: "string \<Rightarrow> string \<Rightarrow> async_log" where
  "AsyncLogging_new m1 m2 =
     \<lparr>current_buffer = Some (ClearBuffer (FixedBuffer m1)), next_buffer = Some (ClearBuffer (FixedBuffer m2)),
      buffers = [], running = False, notified = 0\<rparr>"

definition async_Start :: "async_log \<Rightarrow> async_log" where
  "async_Start a = a\<lparr>running := True\<rparr>"

definition async_Stop :: "async_log \<Rightarrow> async_log" where
  "async_Stop a = a\<lparr>running := False, notified := Suc (notified a)\<rparr>"

definition deref :: "buffer_ptr \<Rightarrow> (fixed_buffer \<Rightarrow> 'a res) \<Rightarrow> 'a res" where
  "deref p f = (case p of None \<Rightarrow> Inl NullDeref | Some b \<Rightarrow> f b)"

text \<open>\<open>m\<close> is the memory of the buffer that the third branch allocates.\<close>

definition async_Append :: "string \<Rightarrow> string \<Rightarrow> async_log \<Rightarrow> async_log res" where
  "async_Append m d a =
     deref (current_buffer a) (\<lambda>cb.
     if available cb > length d
     then rbind (fb_Append d cb) (\<lambda>cb'. Inr (a\<lparr>current_buffer := Some cb'\<rparr>))
     else let a1 = a\<lparr>buffers := buffers a @ [current_buffer a], current_buffer := None\<rparr>;
              a2 = (case next_buffer a1 of
                      Some nb \<Rightarrow> a1\<lparr>current_buffer := Some nb, next_buffer := None\<rparr>
                    | None \<Rightarrow> a1\<lparr>current_buffer := Some (FixedBuffer m)\<rparr>)
          in deref (current_buffer a2) (\<lambda>nb. rbind (fb_Append d nb) (\<lambda>nb'.
             Inr (a2\<lparr>current_buffer := Some nb', notified := Suc (notified a2)\<rparr>))))"

section \<open>The back end thread\<close>

definition backend_new :: "string \<Rightarrow> string \<Rightarrow> backend" where
  "backend_new m3 m4 =
     \<lparr>new_buffer_1 = Some (ClearBuffer (FixedBuffer m3)), new_buffer_2 = Some (ClearBuffer (FixedBuffer m4)),
      buffers_to_write = [], log_output = LogFile_default\<rparr>"

text \<open>From the loop head to the end of the critical section.\<close>

definition backend_swap :: "async_log \<Rightarrow> backend \<Rightarrow> (async_log \<times> backend) res" where
  "backend_swap a k =
     deref (new_buffer_1 k) (\<lambda>b1. assert_then (current_length b1 = 0)
     (deref (new_buffer_2 k) (\<lambda>b2. assert_then (current_length b2 = 0)
     (assert_then (buffers_to_write k = [])
       (let bs = buffers a @ [current_buffer a];
            a1 = a\<lparr>current_buffer := new_buffer_1 k, buffers := buffers_to_write k\<rparr>;
            k1 = k\<lparr>new_buffer_1 := None, buffers_to_write := bs\<rparr>
        in Inr (if next_buffer a1 = None
                then (a1\<lparr>next_buffer := new_buffer_2 k1\<rparr>, k1\<lparr>new_buffer_2 := None\<rparr>)
                else (a1, k1)))))))"

definition drop_message :: "nat \<Rightarrow> string" where
  "drop_message n = snprintf_keep 256 (''Dropped log messages , '' @ dec_nat n @ '' larger buffers'' @ [LF])"

fun write_all :: "fwrite_fun \<Rightarrow> bool \<Rightarrow> buffer_ptr list \<Rightarrow> log_file \<Rightarrow> log_file res" where
  "write_all fw err [] out = Inr out"
| "write_all fw err (p # ps) out =
     deref p (\<lambda>b. rbind (mem_read (fb_data b) 0 (current_length b)) (\<lambda>d.
       write_all fw err ps (LogFile_Append fw err d out)))"

text \<open>Refilling one of the two spare buffers from the back of the vector.\<close>

definition take_back :: "buffer_ptr \<Rightarrow> buffer_ptr list \<Rightarrow> (buffer_ptr \<times> buffer_ptr list) res" where
  "take_back p ps =
     (if p = None
      then assert_then (ps \<noteq> []) (deref (last ps) (\<lambda>b. Inr (Some (fb_reset b), butlast ps)))
      else Inr (p, ps))"

text \<open>From the end of the critical section to the end of the loop body.\<close>

definition backend_write :: "fwrite_fun \<Rightarrow> bool \<Rightarrow> backend \<Rightarrow> backend res" where
  "backend_write fw err k =
     assert_then (buffers_to_write k \<noteq> [])
      (let n = length (buffers_to_write k);
           k1 = (if n > 25
                 then k\<lparr>log_output := LogFile_Append fw err (drop_message (n - 2)) (log_output k),
                        buffers_to_write := take 2 (buffers_to_write k)\<rparr>
                 else k)
       in rbind (write_all fw err (buffers_to_write k1) (log_output k1)) (\<lambda>out.
          let ps = (if length (buffers_to_write k1) > 2 then take 2 (buffers_to_write k1)
                    else buffers_to_write k1)
          in rbind (take_back (new_buffer_1 k1) ps) (\<lambda>(b1, ps1).
             rbind (take_back (new_buffer_2 k1) ps1) (\<lambda>(b2, ps2).
             Inr (k1\<lparr>new_buffer_1 := b1, new_buffer_2 := b2, buffers_to_write := [],
                     log_output := LogFile_Flush out\<rparr>)))))"

text \<open>After the loop, and the destructor of the logger.\<close>

definition backend_exit :: "backend \<Rightarrow> backend" where
  "backend_exit k = k\<lparr>log_output := LogFile_Flush (log_output k)\<rparr>"

definition async_destroy :: "async_log \<Rightarrow> async_log" where
  "async_destroy a = (if running a then async_Stop a else a)"

section \<open>Runs\<close>

text \<open>
  The whole logger: \<open>writing\<close> holds between the critical section and the end of the loop body.
  Labels are the lines that the front end appends and whether a batch was too large.
\<close>

record async_sys =
  sys_front :: async_log
  sys_back :: backend
  sys_writing :: bool

datatype async_label = Line string | Silent | Overload

inductive async_step :: "fwrite_fun \<Rightarrow> async_sys \<Rightarrow> async_label \<Rightarrow> async_sys \<Rightarrow> bool" for fw where
  append: "length d < kBigSize \<Longrightarrow> length m = kBigSize \<Longrightarrow> async_Append m d (sys_front s) = Inr a \<Longrightarrow>
    async_step fw s (Line d) (s\<lparr>sys_front := a\<rparr>)"
| start: "async_step fw s Silent (s\<lparr>sys_front := async_Start (sys_front s)\<rparr>)"
| stop: "async_step fw s Silent (s\<lparr>sys_front := async_Stop (sys_front s)\<rparr>)"
| swap: "\<not> sys_writing s \<Longrightarrow> running (sys_front s) \<Longrightarrow> backend_swap (sys_front s) (sys_back s) = Inr (a, k) \<Longrightarrow>
    async_step fw s Silent \<lparr>sys_front = a, sys_back = k, sys_writing = True\<rparr>"
| write_out: "sys_writing s \<Longrightarrow> backend_write fw err (sys_back s) = Inr k \<Longrightarrow>
    async_step fw s (if length (buffers_to_write (sys_back s)) > 25 then Overload else Silent)
      (s\<lparr>sys_back := k, sys_writing := False\<rparr>)"

inductive async_run :: "fwrite_fun \<Rightarrow> async_sys \<Rightarrow> async_label list \<Rightarrow> async_sys \<Rightarrow> bool" for fw where
  init: "async_run fw s [] s"
| more: "async_run fw s ls s1 \<Longrightarrow> async_step fw s1 l s2 \<Longrightarrow> async_run fw s (ls @ [l]) s2"

fun line_text :: "async_label \<Rightarrow> string" where
  "line_text (Line d) = d"
| "line_text _ = []"

text \<open>The bytes in a list of buffers, and all bytes that are on their way to the file.\<close>

definition ptr_text :: "buffer_ptr \<Rightarrow> string" where
  "ptr_text p = (case p of None \<Rightarrow> [] | Some b \<Rightarrow> fb_text b)"

definition front_text :: "async_log \<Rightarrow> string" where
  "front_text a = concat (map ptr_text (buffers a)) @ ptr_text (current_buffer a)"

definition sys_text :: "async_sys \<Rightarrow> string" where
  "sys_text s = lf_text (log_output (sys_back s)) @ concat (map ptr_text (buffers_to_write (sys_back s)))
     @ front_text (sys_front s)"

definition big_buffer :: "buffer_ptr \<Rightarrow> bool" where
  "big_buffer p = (\<exists>b. p = Some b \<and> fb_inv b \<and> length (fb_data b) = kBigSize)"

definition empty_buffer :: "buffer_ptr \<Rightarrow> bool" where
  "empty_buffer p = (big_buffer p \<and> ptr_text p = [])"

text \<open>
  The invariant. The vector of the front end is not empty when the spare buffer is gone, which
  is why the back end always finds enough buffers to refill its own two spare ones.
\<close>

definition front_inv :: "async_log \<Rightarrow> bool" where
  "front_inv a = (big_buffer (current_buffer a) \<and> list_all big_buffer (buffers a)
     \<and> (next_buffer a = None \<or> empty_buffer (next_buffer a))
     \<and> (next_buffer a = None \<longrightarrow> buffers a \<noteq> []))"

definition back_inv :: "bool \<Rightarrow> backend \<Rightarrow> bool" where
  "back_inv writing k =
     (if writing
      then new_buffer_1 k = None \<and> list_all big_buffer (buffers_to_write k) \<and> buffers_to_write k \<noteq> []
        \<and> (if new_buffer_2 k = None then 2 \<le> length (buffers_to_write k) else empty_buffer (new_buffer_2 k))
      else buffers_to_write k = [] \<and> empty_buffer (new_buffer_1 k) \<and> empty_buffer (new_buffer_2 k))"

definition sys_inv :: "async_sys \<Rightarrow> bool" where
  "sys_inv s = (front_inv (sys_front s) \<and> back_inv (sys_writing s) (sys_back s))"

definition async_init :: "string \<Rightarrow> string \<Rightarrow> string \<Rightarrow> string \<Rightarrow> async_sys" where
  "async_init m1 m2 m3 m4 =
     \<lparr>sys_front = async_Start (AsyncLogging_new m1 m2), sys_back = backend_new m3 m4, sys_writing = False\<rparr>"

lemma big_small: "kBigSize < 2 ^ 64"
  by (simp add: kBigSize_def)

lemma empty_fresh: "length m = kBigSize \<Longrightarrow> empty_buffer (Some (FixedBuffer m))"
  using big_small by (simp add: empty_buffer_def big_buffer_def FixedBuffer_def fb_inv_def ptr_text_def fb_text_def)

lemma empty_cleared: "length m = kBigSize \<Longrightarrow> empty_buffer (Some (ClearBuffer (FixedBuffer m)))"
  using empty_fresh[of "replicate (length m) NUL"] by (simp add: ClearBuffer_def FixedBuffer_def)

lemma empty_reset: "big_buffer (Some b) \<Longrightarrow> empty_buffer (Some (fb_reset b))"
  by (simp add: empty_buffer_def big_buffer_def fb_reset_def fb_inv_def ptr_text_def fb_text_def)

lemma empty_bufferD:
  assumes "empty_buffer p"
  obtains b where "p = Some b" "big_buffer (Some b)" "fb_text b = []" "current_length b = 0"
    "available b = kBigSize"
proof -
  from assms obtain b where b: "p = Some b" "fb_inv b" "length (fb_data b) = kBigSize" "fb_text b = []"
    by (auto simp: empty_buffer_def big_buffer_def ptr_text_def)
  then have c: "current_length b = 0" using length_fb_text[of b] by simp
  with b have "available b = kBigSize" by (simp add: available_eq current_length_def)
  with b c that[of b] show thesis by (simp add: big_buffer_def)
qed

lemma async_Append_spec:
  assumes inv: "front_inv a" and d: "length d < kBigSize" and m: "length m = kBigSize"
  shows "\<exists>a'. async_Append m d a = Inr a' \<and> front_inv a' \<and> front_text a' = front_text a @ d"
proof -
  obtain cb where cb: "current_buffer a = Some cb" "fb_inv cb" "length (fb_data cb) = kBigSize"
    using inv by (auto simp: front_inv_def big_buffer_def)
  show ?thesis
  proof (cases "length d < available cb")
    case True
    with fb_Append_spec[OF cb(2), of d] cb inv show ?thesis
      by (auto simp: async_Append_def deref_def front_inv_def big_buffer_def front_text_def ptr_text_def)
  next
    case False
    let ?nb = "case next_buffer a of Some nb \<Rightarrow> nb | None \<Rightarrow> FixedBuffer m"
    have "empty_buffer (Some ?nb)"
      using inv empty_fresh[OF m] by (auto simp: front_inv_def split: option.split)
    then have nb: "fb_inv ?nb" "length (fb_data ?nb) = kBigSize" "fb_text ?nb = []" "available ?nb = kBigSize"
      by (auto elim!: empty_bufferD simp: big_buffer_def)
    from fb_Append_spec[OF nb(1), of d] d nb(2-4) obtain nb' where
      nb': "fb_Append d ?nb = Inr nb'" "fb_inv nb'" "length (fb_data nb') = kBigSize" "fb_text nb' = d" by auto
    have "async_Append m d a = Inr (a\<lparr>buffers := buffers a @ [Some cb], current_buffer := Some nb',
        next_buffer := None, notified := Suc (notified a)\<rparr>)"
      using cb(1) False nb'(1) by (auto simp: async_Append_def deref_def Let_def split: option.splits)
    then show ?thesis using inv cb nb'(2-4)
      by (auto simp: front_inv_def big_buffer_def front_text_def ptr_text_def)
  qed
qed

lemma backend_swap_spec:
  assumes "front_inv a" and "back_inv False k"
  shows "\<exists>a' k'. backend_swap a k = Inr (a', k') \<and> front_inv a' \<and> back_inv True k'
     \<and> front_text a' = [] \<and> concat (map ptr_text (buffers_to_write k')) = front_text a
     \<and> log_output k' = log_output k \<and> running a' = running a \<and> length (buffers_to_write k') = Suc (length (buffers a))"
proof -
  have e: "empty_buffer (new_buffer_1 k)" "empty_buffer (new_buffer_2 k)" and w: "buffers_to_write k = []"
    using assms(2) by (simp_all add: back_inv_def)
  obtain b1 where b1: "new_buffer_1 k = Some b1" "current_length b1 = 0" using e(1) by (rule empty_bufferD)
  obtain b2 where b2: "new_buffer_2 k = Some b2" "current_length b2 = 0" using e(2) by (rule empty_bufferD)
  have b: "new_buffer_1 k = Some b1" "new_buffer_2 k = Some b2" "current_length b1 = 0"
    "current_length b2 = 0" "empty_buffer (Some b1)" "empty_buffer (Some b2)" "buffers_to_write k = []"
    using b1 b2 e w by simp_all
  then have t: "fb_text b1 = []" "big_buffer (Some b1)" by (simp_all add: empty_buffer_def ptr_text_def)
  show ?thesis using assms b t
    by (auto simp: backend_swap_def deref_def Let_def front_inv_def back_inv_def front_text_def ptr_text_def
        Suc_le_eq)
qed

lemma write_all_spec:
  assumes "list_all big_buffer ps" and "writable_file fw"
  shows "\<exists>out'. write_all fw err ps out = Inr out' \<and> lf_text out' = lf_text out @ concat (map ptr_text ps)"
  using assms(1)
proof (induction ps arbitrary: out)
  case (Cons p ps)
  then obtain b where b: "p = Some b" "fb_inv b" by (auto simp: big_buffer_def)
  then have "mem_read (fb_data b) 0 (current_length b) = Inr (fb_text b)"
    by (simp add: mem_read_def fb_inv_def current_length_def fb_text_def)
  with b Cons.IH[of "LogFile_Append fw err (fb_text b) out"] Cons.prems show ?case
    by (auto simp: deref_def ptr_text_def LogFile_Append_text[OF assms(2)])
qed simp

lemma take_back_spec:
  assumes "list_all big_buffer ps" and "p = None \<longrightarrow> ps \<noteq> []" and "p \<noteq> None \<longrightarrow> empty_buffer p"
  shows "\<exists>p' ps'. take_back p ps = Inr (p', ps') \<and> empty_buffer p' \<and> list_all big_buffer ps'
     \<and> length ps' = length ps - (if p = None then 1 else 0)"
proof (cases "p = None")
  case True
  with assms(1,2) have "big_buffer (last ps)" "list_all big_buffer (butlast ps)"
    by (auto simp: list_all_iff dest: in_set_butlastD)
  with True assms(2) empty_reset show ?thesis
    by (auto simp: take_back_def deref_def big_buffer_def)
qed (use assms in \<open>auto simp: take_back_def\<close>)

lemma backend_write_spec:
  assumes inv: "back_inv True k" and fw: "writable_file fw"
  shows "\<exists>k'. backend_write fw err k = Inr k' \<and> back_inv False k'
     \<and> lf_text (log_output k') = lf_text (log_output k)
        @ (if length (buffers_to_write k) > 25
           then drop_message (length (buffers_to_write k) - 2) @ concat (map ptr_text (take 2 (buffers_to_write k)))
           else concat (map ptr_text (buffers_to_write k)))"
proof -
  let ?n = "length (buffers_to_write k)"
  let ?k = "if ?n > 25 then k\<lparr>log_output := LogFile_Append fw err (drop_message (?n - 2)) (log_output k),
      buffers_to_write := take 2 (buffers_to_write k)\<rparr> else k"
  let ?ps = "if length (buffers_to_write ?k) > 2 then take 2 (buffers_to_write ?k) else buffers_to_write ?k"
  have all: "list_all big_buffer (buffers_to_write k)" and ne: "buffers_to_write k \<noteq> []"
    and n1: "new_buffer_1 k = None"
    and n2: "new_buffer_2 k = None \<Longrightarrow> 2 \<le> ?n" "new_buffer_2 k \<noteq> None \<Longrightarrow> empty_buffer (new_buffer_2 k)"
    using inv by (auto simp: back_inv_def split: if_splits)
  have t2: "list_all big_buffer (take 2 (buffers_to_write k))"
    using all by (auto simp: list_all_iff dest: in_set_takeD)
  have k: "list_all big_buffer (buffers_to_write ?k)" "list_all big_buffer ?ps"
    using all t2 by auto
  have keep: "new_buffer_1 ?k = None" "new_buffer_2 ?k = new_buffer_2 k" using n1 by auto
  from write_all_spec[OF k(1) fw] obtain out where
    out: "write_all fw err (buffers_to_write ?k) (log_output ?k) = Inr out"
      "lf_text out = lf_text (log_output ?k) @ concat (map ptr_text (buffers_to_write ?k))" by blast
  have pne: "?ps \<noteq> []" using ne by auto
  have plen: "?n \<ge> 2 \<Longrightarrow> length ?ps = 2" by auto
  from take_back_spec[OF k(2), of "new_buffer_1 ?k"] pne keep(1) obtain b1 ps1 where
    b1: "take_back (new_buffer_1 ?k) ?ps = Inr (b1, ps1)" "empty_buffer b1" "list_all big_buffer ps1"
      "length ps1 = length ?ps - 1" by auto
  have "new_buffer_2 ?k = None \<longrightarrow> ps1 \<noteq> []" using b1(4) plen n2(1) keep(2) by auto
  from take_back_spec[OF b1(3) this] n2(2) keep(2) obtain b2 ps2 where
    b2: "take_back (new_buffer_2 ?k) ps1 = Inr (b2, ps2)" "empty_buffer b2" by auto
  have "backend_write fw err k = Inr (?k\<lparr>new_buffer_1 := b1, new_buffer_2 := b2, buffers_to_write := [],
      log_output := LogFile_Flush out\<rparr>)"
    unfolding backend_write_def Let_def using ne out(1) b1(1) b2(1) by simp
  then show ?thesis using b1(2) b2(2) out(2)
    by (auto simp: back_inv_def LogFile_Append_text[OF fw])
qed

section \<open>No assertion fails, no line is lost\<close>

lemma async_init_inv:
  assumes "length m1 = kBigSize" and "length m2 = kBigSize" and "length m3 = kBigSize" and "length m4 = kBigSize"
  shows "sys_inv (async_init m1 m2 m3 m4)" and "sys_text (async_init m1 m2 m3 m4) = []"
  using assms[THEN empty_cleared]
  by (simp_all add: sys_inv_def async_init_def async_Start_def AsyncLogging_new_def front_inv_def
      back_inv_def backend_new_def empty_buffer_def sys_text_def front_text_def LogFile_default_def
      LogFile_def AppendFile_def lf_text_def)

lemma async_step_inv:
  assumes "async_step fw s l s'" and inv: "sys_inv s" and fw: "writable_file fw"
  shows "sys_inv s' \<and> (l \<noteq> Overload \<longrightarrow> sys_text s' = sys_text s @ line_text l)"
  using assms(1)
proof cases
  case (append d m a)
  have "front_inv (sys_front s)" using inv by (simp add: sys_inv_def)
  from async_Append_spec[OF this append(3,4)] append inv show ?thesis by (auto simp: sys_inv_def sys_text_def)
next
  case start
  then show ?thesis using inv by (auto simp: sys_inv_def sys_text_def async_Start_def front_inv_def front_text_def)
next
  case stop
  then show ?thesis using inv by (auto simp: sys_inv_def sys_text_def async_Stop_def front_inv_def front_text_def)
next
  case (swap a k)
  have "front_inv (sys_front s)" and k: "back_inv False (sys_back s)"
    using inv swap(3) by (simp_all add: sys_inv_def)
  from backend_swap_spec[OF this] swap k show ?thesis
    by (auto simp: sys_inv_def sys_text_def back_inv_def)
next
  case (write_out err k)
  then have "back_inv True (sys_back s)" using inv by (simp add: sys_inv_def)
  from backend_write_spec[OF this fw, of err] write_out inv show ?thesis
    by (auto simp: sys_inv_def sys_text_def back_inv_def)
qed

lemma async_run_inv:
  "async_run fw s ls s' \<Longrightarrow> sys_inv s \<Longrightarrow> writable_file fw \<Longrightarrow>
    sys_inv s' \<and> (Overload \<notin> set ls \<longrightarrow> sys_text s' = sys_text s @ concat (map line_text ls))"
proof (induction rule: async_run.induct)
  case (more s ls s1 l s2)
  then show ?case using async_step_inv[OF more.hyps(2)] by auto
qed simp


text \<open>
  Claim C25. No assertion of the back end thread fails and no null pointer is used: in every
  state that the logger can reach, the next append, the next critical section and the next writing
  phase all run to their end, however the operations were interleaved before.
\<close>

theorem async_logging_never_fails:
  assumes "async_run fw (async_init m1 m2 m3 m4) ls s" and "writable_file fw"
    and "\<forall>m\<in>{m1, m2, m3, m4}. length m = kBigSize"
  shows "(\<forall>m d. length m = kBigSize \<and> length d < kBigSize \<longrightarrow> (\<exists>a. async_Append m d (sys_front s) = Inr a))
     \<and> (\<not> sys_writing s \<longrightarrow> (\<exists>r. backend_swap (sys_front s) (sys_back s) = Inr r))
     \<and> (sys_writing s \<longrightarrow> (\<forall>err. \<exists>k. backend_write fw err (sys_back s) = Inr k))"
proof -
  have inv: "front_inv (sys_front s)" "back_inv (sys_writing s) (sys_back s)"
    using async_run_inv[OF assms(1) async_init_inv(1) assms(2)] assms(3) by (simp_all add: sys_inv_def)
  have "\<exists>r. backend_swap (sys_front s) (sys_back s) = Inr r" if "\<not> sys_writing s"
    using backend_swap_spec[OF inv(1), of "sys_back s"] inv(2) that by auto
  moreover have "\<exists>k. backend_write fw err (sys_back s) = Inr k" if "sys_writing s" for err
    using backend_write_spec[OF _ assms(2), of "sys_back s"] inv(2) that by auto
  ultimately show ?thesis using async_Append_spec[OF inv(1)] by blast
qed

text \<open>A run in which a line is appended and written to the file.\<close>

lemma demo_async_run:
  "\<exists>s. async_run demo_fwrite (async_init (replicate kBigSize NUL) (replicate kBigSize NUL)
       (replicate kBigSize NUL) (replicate kBigSize NUL)) [Line ''hi'', Silent] s \<and> sys_writing s"
proof -
  let ?m = "replicate kBigSize NUL" and ?s = "async_init (replicate kBigSize NUL) (replicate kBigSize NUL)
       (replicate kBigSize NUL) (replicate kBigSize NUL)"
  have i: "front_inv (sys_front ?s)" "back_inv False (sys_back ?s)"
    using async_init_inv(1)[of ?m ?m ?m ?m] by (simp_all add: sys_inv_def async_init_def)
  have d: "length ''hi'' < kBigSize" by (simp add: kBigSize_def)
  from async_Append_spec[OF i(1) d, of ?m] obtain a where
    a: "async_Append ?m ''hi'' (sys_front ?s) = Inr a" "front_inv a" by auto
  have m: "length ?m = kBigSize" by (rule length_replicate)
  have s1: "async_run demo_fwrite ?s ([] @ [Line ''hi'']) (?s\<lparr>sys_front := a\<rparr>)"
    by (rule async_run.more[OF async_run.init async_step.append[where m = ?m and d = "''hi''", OF d m a(1)]])
  have r: "running a"
    using a(1) by (auto simp: async_Append_def deref_def rbind_Inr_iff async_init_def async_Start_def Let_def
        split: option.splits if_splits)
  from backend_swap_spec[OF a(2) i(2)] obtain a' k where "backend_swap a (sys_back ?s) = Inr (a', k)" by blast
  then have "async_step demo_fwrite (?s\<lparr>sys_front := a\<rparr>) Silent \<lparr>sys_front = a', sys_back = k, sys_writing = True\<rparr>"
    using r by (intro async_step.swap) (simp_all add: async_init_def)
  from async_run.more[OF s1 this] show ?thesis by (intro exI) auto
qed


theorem async_logging_never_fails_witness:
  "\<exists>s :: async_sys. sys_writing s \<and> (\<exists>k. backend_write demo_fwrite True (sys_back s) = Inr k)"
proof -
  let ?m = "replicate kBigSize NUL"
  obtain s where s: "async_run demo_fwrite (async_init ?m ?m ?m ?m) [Line ''hi'', Silent] s" "sys_writing s"
    using demo_async_run by blast
  have "\<forall>m\<in>{?m, ?m, ?m, ?m}. length m = kBigSize" by simp
  from async_logging_never_fails[OF s(1) demo_fwrite_ok this] s(2) show ?thesis by blast
qed

section \<open>Overload and stopping\<close>

text \<open>
  Claim C40. Under overload the back end keeps the two oldest buffers of the batch and writes a
  message instead of the others: everything after the first two buffers is lost.
\<close>

theorem overload_keeps_two:
  assumes "back_inv True k" and "writable_file fw" and "25 < length (buffers_to_write k)"
    and "length (buffers_to_write k) < 10 ^ 19"
  shows "\<exists>k'. backend_write fw err k = Inr k'
     \<and> lf_text (log_output k') = lf_text (log_output k)
        @ ''Dropped log messages , '' @ dec_nat (length (buffers_to_write k) - 2) @ '' larger buffers'' @ [LF]
        @ concat (map ptr_text (take 2 (buffers_to_write k)))"
proof -
  have "length (dec_nat (length (buffers_to_write k) - 2)) \<le> 19"
    by (rule length_dec_nat_le) (use assms(4) in simp_all)
  then have "drop_message (length (buffers_to_write k) - 2) = ''Dropped log messages , ''
      @ dec_nat (length (buffers_to_write k) - 2) @ '' larger buffers'' @ [LF]"
    unfolding drop_message_def by (intro snprintf_keep_id) simp
  then show ?thesis using backend_write_spec[OF assms(1,2), of err] assms(3) by auto
qed

theorem overload_keeps_two_witness:
  "\<exists>k k' b. length (buffers_to_write k) = 26 \<and> backend_write demo_fwrite False k = Inr k'
     \<and> lf_text (log_output k') = ''Dropped log messages , 24 larger buffers'' @ [LF] @ b"
proof -
  let ?e = "Some (FixedBuffer (replicate kBigSize NUL))"
  let ?k = "\<lparr>new_buffer_1 = None, new_buffer_2 = ?e, buffers_to_write = replicate 26 ?e,
     log_output = LogFile_default\<rparr>"
  have e: "empty_buffer ?e" by (rule empty_fresh) (rule length_replicate)
  then have "big_buffer ?e" by (simp add: empty_buffer_def)
  then have "back_inv True ?k" using e by (simp add: back_inv_def list_all_iff)
  moreover have "25 < length (buffers_to_write ?k)" "length (buffers_to_write ?k) < 10 ^ 19" by simp_all
  ultimately obtain k' where k': "backend_write demo_fwrite False ?k = Inr k'"
    "lf_text (log_output k') = lf_text (log_output ?k) @ ''Dropped log messages , ''
      @ dec_nat (length (buffers_to_write ?k) - 2) @ '' larger buffers'' @ [LF]
      @ concat (map ptr_text (take 2 (buffers_to_write ?k)))"
    using overload_keeps_two[OF _ demo_fwrite_ok, of ?k False] by blast
  have "dec_nat (length (buffers_to_write ?k) - 2) = ''24''" by (simp add: dec_nat.simps)
  moreover have "lf_text (log_output ?k) = []" by (simp add: LogFile_default_def LogFile_def AppendFile_def lf_text_def)
  ultimately have "lf_text (log_output k') = ''Dropped log messages , 24 larger buffers'' @ [LF]
      @ concat (map ptr_text (take 2 (buffers_to_write ?k)))" using k'(2) by simp
  moreover have "length (buffers_to_write ?k) = 26" by simp
  ultimately show ?thesis using k'(1) by blast
qed

text \<open>
  Stopping does not flush: when \<^verbatim>\<open>Stop\<close> is called while the back end is at the
  head of its loop, no critical section runs any more, so the lines the front end holds then, and
  all lines appended later, stay in memory and never reach the file.
\<close>

theorem stop_loses_pending:
  assumes "async_run fw (s\<lparr>sys_front := async_Stop (sys_front s)\<rparr>) ls s'"
    and "sys_inv s" and "\<not> sys_writing s" and "writable_file fw" and "\<forall>l\<in>set ls. \<exists>d. l = Line d"
  shows "lf_text (log_output (sys_back s')) = lf_text (log_output (sys_back s))
     \<and> front_text (sys_front s') = front_text (sys_front s) @ concat (map line_text ls)"
proof -
  let ?s = "s\<lparr>sys_front := async_Stop (sys_front s)\<rparr>"
  have bk: "async_run fw ?s ls s' \<Longrightarrow> \<forall>l\<in>set ls. \<exists>d. l = Line d \<Longrightarrow> sys_back s' = sys_back s" for s'
  proof (induction "?s" ls s' rule: async_run.induct)
    case (more ls s1 l s2)
    obtain d where l: "l = Line d" using more.prems by auto
    from more.hyps(3) have "sys_back s2 = sys_back s1" by cases (use l in \<open>auto split: if_splits\<close>)
    then show ?case using more by simp
  qed simp
  have t: "sys_text ?s = sys_text s"
    by (simp add: sys_text_def front_text_def async_Stop_def)
  have i: "sys_inv ?s" using assms(2)
    by (simp add: sys_inv_def front_inv_def async_Stop_def)
  have "Overload \<notin> set ls" using assms(5) by auto
  then have "sys_text s' = sys_text s @ concat (map line_text ls)"
    using async_run_inv[OF assms(1) i assms(4)] t by simp
  then show ?thesis using bk[OF assms(1,5)] by (simp add: sys_text_def)
qed

theorem stop_loses_pending_witness:
  "\<exists>s s'. sys_inv s \<and> async_run demo_fwrite (s\<lparr>sys_front := async_Stop (sys_front s)\<rparr>) [Line ''hi''] s'
     \<and> front_text (sys_front s') = ''hi''"
proof -
  let ?m = "replicate kBigSize NUL"
  let ?s = "async_init ?m ?m ?m ?m"
  have i: "sys_inv ?s" "sys_text ?s = []" by (simp_all add: async_init_inv)
  have f: "front_inv (sys_front ?s)" "front_text (sys_front ?s) = []" "\<not> sys_writing ?s"
    using i by (simp_all add: sys_inv_def sys_text_def async_init_def)
  then have f2: "front_inv (async_Stop (sys_front ?s))" by (simp add: front_inv_def async_Stop_def)
  have d: "length ''hi'' < kBigSize" by (simp add: kBigSize_def)
  have m: "length ?m = kBigSize" by (rule length_replicate)
  obtain a where a: "async_Append ?m ''hi'' (async_Stop (sys_front ?s)) = Inr a"
    using async_Append_spec[OF f2 d m] by blast
  let ?s1 = "?s\<lparr>sys_front := async_Stop (sys_front ?s)\<rparr>"
  have "async_Append ?m ''hi'' (sys_front ?s1) = Inr a" using a by simp
  from async_run.more[OF async_run.init async_step.append[OF d m this], of demo_fwrite]
  have run: "async_run demo_fwrite ?s1 [Line ''hi''] (?s1\<lparr>sys_front := a\<rparr>)" by simp
  from stop_loses_pending[OF this i(1) f(3) demo_fwrite_ok] f(2) run i(1) show ?thesis by fastforce
qed

end
