(* ===== verification/Timestamp.thy ===== *)
theory Timestamp
  imports CLib
begin

text \<open>
  \<^verbatim>\<open>time/timestamp.cc\<close> and \<^verbatim>\<open>time/timer.h\<close>: points in time as microseconds since the epoch, their text, and
  the timer. Of the C library it uses \<^verbatim>\<open>gmtime_r\<close>, the Gregorian calendar without leap seconds, and \<^verbatim>\<open>snprintf\<close>.
  An \<^verbatim>\<open>int64_t\<close> is an \<open>int\<close> whose range is checked where it is computed.
\<close>

section \<open>The calendar\<close>

definition leap :: "nat \<Rightarrow> bool" where
  "leap y = ((4 dvd y \<and> \<not> 100 dvd y) \<or> 400 dvd y)"

definition year_len :: "nat \<Rightarrow> nat" where
  "year_len y = (if leap y then 366 else 365)"

definition month_lens :: "nat \<Rightarrow> nat list" where
  "month_lens y = [31, if leap y then 29 else 28, 31, 30, 31, 30, 31, 31, 30, 31, 30, 31]"

lemma year_len_pos [simp]: "0 < year_len y"
  by (simp add: year_len_def)

lemma month_lens_sum: "sum_list (month_lens y) = year_len y"
  by (simp add: month_lens_def year_len_def)

function year_split :: "nat \<Rightarrow> nat \<Rightarrow> nat \<times> nat" where
  "year_split y d = (if d < year_len y then (y, d) else year_split (Suc y) (d - year_len y))"
  by pat_completeness auto
termination
  by (relation "measure snd") (auto simp: year_len_def)

declare year_split.simps [simp del]

fun month_split :: "nat list \<Rightarrow> nat \<Rightarrow> nat \<times> nat" where
  "month_split [] d = (0, d)"
| "month_split (l # ls) d =
     (if d < l then (0, d) else (case month_split ls (d - l) of (m, r) \<Rightarrow> (Suc m, r)))"

record tm =
  tm_year :: int
  tm_mon :: int
  tm_mday :: int
  tm_hour :: int
  tm_min :: int
  tm_sec :: int

text \<open>Days before the epoch are moved by whole periods of 400 years, which have 146097 days.\<close>

definition gmtime_r :: "int \<Rightarrow> tm" where
  "gmtime_r secs =
     (let days = secs div 86400; rest = secs mod 86400;
          periods = (if days < 0 then (146096 - days) div 146097 else 0);
          (y, yday) = year_split 1970 (nat (days + 146097 * periods));
          (m, mday) = month_split (month_lens y) yday
      in \<lparr>tm_year = int y - 400 * periods - 1900, tm_mon = int m, tm_mday = int mday + 1,
          tm_hour = rest div 3600, tm_min = rest mod 3600 div 60, tm_sec = rest mod 60\<rparr>)"

section \<open>Printing\<close>

text \<open>\<^verbatim>\<open>%04d\<close> and \<^verbatim>\<open>%4d\<close>: \<open>w\<close> is the least width.\<close>

definition pad :: "char \<Rightarrow> nat \<Rightarrow> string \<Rightarrow> string" where
  "pad c w s = replicate (w - length s) c @ s"

definition fmt_zero :: "nat \<Rightarrow> int \<Rightarrow> string" where
  "fmt_zero w i = (if i < 0 then CHR ''-'' # pad (CHR ''0'') (w - 1) (dec_nat (nat (- i)))
                   else pad (CHR ''0'') w (dec_nat (nat i)))"

definition fmt_blank :: "nat \<Rightarrow> int \<Rightarrow> string" where
  "fmt_blank w i = pad (CHR '' '') w (dec_int i)"

section \<open>Timestamp\<close>

text \<open>The class has one field and a constructor from its value.\<close>

datatype timestamp = Timestamp_micros (micro_seconds_since_epoch: int)

definition int64 :: "int \<Rightarrow> bool" where
  "int64 i = (- (2 ^ 63) \<le> i \<and> i < 2 ^ 63)"

definition kMicroSecondsPerSecond :: int where
  "kMicroSecondsPerSecond = 1000 * 1000"

definition Timestamp0 :: timestamp where
  "Timestamp0 = Timestamp_micros 0"

definition Swap :: "timestamp \<Rightarrow> timestamp \<Rightarrow> timestamp \<times> timestamp" where
  "Swap self rhs =
     (let tmp = micro_seconds_since_epoch rhs;
          rhs' = Timestamp_micros (micro_seconds_since_epoch self)
      in (Timestamp_micros tmp, rhs'))"

text \<open>Division and remainder of C++ truncate towards zero.\<close>

definition cdiv :: "int \<Rightarrow> int \<Rightarrow> int" where
  "cdiv a b = (if a < 0 then - (- a div b) else a div b)"

definition crem :: "int \<Rightarrow> int \<Rightarrow> int" where
  "crem a b = a - cdiv a b * b"

definition ToString :: "timestamp \<Rightarrow> string" where
  "ToString ts =
     (let seconds = cdiv (micro_seconds_since_epoch ts) kMicroSecondsPerSecond;
          microseconds_remainder = crem (micro_seconds_since_epoch ts) kMicroSecondsPerSecond
      in snprintf_keep 32 (dec_int seconds @ ''.'' @ fmt_zero 6 microseconds_remainder))"

definition ToFormattedString :: "timestamp \<Rightarrow> string" where
  "ToFormattedString ts =
     (let seconds = cdiv (micro_seconds_since_epoch ts) kMicroSecondsPerSecond;
          microseconds_remainder = crem (micro_seconds_since_epoch ts) kMicroSecondsPerSecond;
          tm_time = gmtime_r seconds
      in snprintf_keep 32
          (fmt_blank 4 (tm_year tm_time + 1900) @ fmt_zero 2 (tm_mon tm_time + 1) @ fmt_zero 2 (tm_mday tm_time)
           @ '' '' @ fmt_zero 2 (tm_hour tm_time) @ '':'' @ fmt_zero 2 (tm_min tm_time) @ '':''
           @ fmt_zero 2 (tm_sec tm_time) @ ''.'' @ fmt_zero 6 microseconds_remainder))"

definition is_valid :: "timestamp \<Rightarrow> bool" where
  "is_valid ts = (micro_seconds_since_epoch ts > 0)"

text \<open>\<open>tv\<close> is the result of \<^verbatim>\<open>gettimeofday\<close>.\<close>

definition Timestamp_now :: "int \<times> int \<Rightarrow> timestamp res" where
  "Timestamp_now tv =
     (let us = fst tv * kMicroSecondsPerSecond + snd tv
      in if int64 us then Inr (Timestamp_micros us) else Inl Overflow)"

definition Timestamp_invalid :: timestamp where
  "Timestamp_invalid = Timestamp0"

definition ts_less :: "timestamp \<Rightarrow> timestamp \<Rightarrow> bool" where
  "ts_less ts rhs = (micro_seconds_since_epoch ts < micro_seconds_since_epoch rhs)"

definition ts_eq :: "timestamp \<Rightarrow> timestamp \<Rightarrow> bool" where
  "ts_eq ts rhs = (micro_seconds_since_epoch ts = micro_seconds_since_epoch rhs)"

text \<open>The operators make time stamps a linear order, with the library's sorting and sets for it.\<close>

instantiation timestamp :: linorder
begin

definition less_eq_timestamp :: "timestamp \<Rightarrow> timestamp \<Rightarrow> bool" where
  "less_eq_timestamp a b = (ts_less a b \<or> ts_eq a b)"

definition less_timestamp :: "timestamp \<Rightarrow> timestamp \<Rightarrow> bool" where
  "less_timestamp = ts_less"

instance
  by standard (auto simp: less_eq_timestamp_def less_timestamp_def ts_less_def ts_eq_def timestamp.expand)

end

text \<open>\<open>t\<close> is the truncated product of the seconds, a floating point number, and \<^verbatim>\<open>kMicroSecondsPerSecond\<close>.\<close>

definition AddTime :: "timestamp \<Rightarrow> int \<Rightarrow> timestamp res" where
  "AddTime ts t =
     (let us = micro_seconds_since_epoch ts + t
      in if int64 us then Inr (Timestamp_micros us) else Inl Overflow)"

section \<open>Timer\<close>

text \<open>
  \<^verbatim>\<open>interval_\<close> is initialised from itself, so its value is whatever the memory held: \<open>garbage\<close>, in microseconds.
\<close>

record timer =
  expiration :: timestamp
  timer_interval :: int
  repeat_timer :: bool

definition Timer_new :: "int \<Rightarrow> timestamp \<Rightarrow> int \<Rightarrow> timer" where
  "Timer_new garbage when interval =
     \<lparr>expiration = when, timer_interval = garbage, repeat_timer = (interval > 0)\<rparr>"

definition Timer_restart :: "timestamp \<Rightarrow> timer \<Rightarrow> timer res" where
  "Timer_restart now t =
     (if repeat_timer t
      then rbind (AddTime now (timer_interval t)) (\<lambda>e. Inr (t\<lparr>expiration := e\<rparr>))
      else Inr (t\<lparr>expiration := Timestamp_invalid\<rparr>))"

section \<open>The calendar keeps the order of days\<close>

definition year_start :: "nat \<Rightarrow> nat" where
  "year_start y = sum_list (map year_len [1970..<y])"

definition month_start :: "nat \<Rightarrow> nat \<Rightarrow> nat" where
  "month_start y m = sum_list (take m (month_lens y))"

lemma year_start_Suc: "1970 \<le> y \<Longrightarrow> year_start (Suc y) = year_start y + year_len y"
  by (simp add: year_start_def)

lemma year_start_mono: "1970 \<le> y \<Longrightarrow> y \<le> y' \<Longrightarrow> year_start y \<le> year_start y'"
  using upt_add_eq_append[of 1970 y "y' - y"] by (simp add: year_start_def)

lemma year_split_spec:
  "1970 \<le> y \<Longrightarrow> (case year_split y d of (y', d') \<Rightarrow> y \<le> y' \<and> d' < year_len y' \<and> year_start y' + d' = year_start y + d)"
proof (induction y d rule: year_split.induct)
  case (1 y d)
  show ?case
  proof (cases "d < year_len y")
    case True
    then show ?thesis by (subst year_split.simps) simp
  next
    case False
    have "year_split y d = year_split (Suc y) (d - year_len y)" using False by (subst year_split.simps) simp
    moreover have "1970 \<le> Suc y" using 1(2) by simp
    ultimately show ?thesis using 1(1)[OF False] 1(2) False year_start_Suc[OF 1(2)]
      by (auto split: prod.splits)
  qed
qed

lemma year_split_bound: "(case year_split y d of (y', d') \<Rightarrow> y' \<le> y + d div 365)"
proof (induction y d rule: year_split.induct)
  case (1 y d)
  show ?case
  proof (cases "d < year_len y")
    case True
    then show ?thesis by (subst year_split.simps) simp
  next
    case False
    then have "Suc ((d - year_len y) div 365) \<le> d div 365"
      using div_le_mono[of "d - year_len y + 365" d 365] by (auto simp: year_len_def split: if_splits)
    moreover have "year_split y d = year_split (Suc y) (d - year_len y)" using False by (subst year_split.simps) simp
    ultimately show ?thesis using 1[OF False] by (auto split: prod.splits)
  qed
qed

lemma month_split_spec:
  "d < sum_list ls \<Longrightarrow> (case month_split ls d of (m, r) \<Rightarrow>
     m < length ls \<and> r < ls ! m \<and> sum_list (take m ls) + r = d)"
proof (induction ls arbitrary: d)
  case (Cons l ls)
  show ?case
  proof (cases "d < l")
    case False
    then have "d - l < sum_list ls" using Cons.prems by simp
    from Cons.IH[OF this] False show ?thesis by (auto split: prod.splits)
  qed simp
qed simp

lemma sum_list_take_mono: "m < m' \<Longrightarrow> m' \<le> length ls \<Longrightarrow> sum_list (take m ls) + ls ! m \<le> sum_list (take m' (ls :: nat list))"
proof -
  assume "m < m'" and "m' \<le> length ls"
  then have "take m' ls = take (Suc m) ls @ take (m' - Suc m) (drop (Suc m) ls)"
    using take_add[of "Suc m" "m' - Suc m" ls] by simp
  then show ?thesis using \<open>m < m'\<close> \<open>m' \<le> length ls\<close> by (simp add: take_Suc_conv_app_nth)
qed

text \<open>A day of the calendar: the fields of \<^verbatim>\<open>struct tm\<close> for a day after the epoch.\<close>

definition civil :: "nat \<Rightarrow> nat \<times> nat \<times> nat" where
  "civil days = (case year_split 1970 days of (y, yday) \<Rightarrow>
     case month_split (month_lens y) yday of (m, r) \<Rightarrow> (y, m, r))"

definition day_number :: "nat \<times> nat \<times> nat \<Rightarrow> nat" where
  "day_number = (\<lambda>(y, m, r). year_start y + month_start y m + r)"

lemma civil_spec:
  assumes "civil n = (y, m, r)"
  shows "1970 \<le> y \<and> m < 12 \<and> r < month_lens y ! m \<and> day_number (y, m, r) = n
     \<and> month_start y m + r < year_len y \<and> y \<le> 1970 + n div 365"
proof -
  obtain yd where y: "year_split 1970 n = (y, yd)" "month_split (month_lens y) yd = (m, r)"
    using assms by (auto simp: civil_def split: prod.splits)
  have 1: "1970 \<le> y" "yd < year_len y" "year_start y + yd = n"
    using year_split_spec[of 1970 n] y(1) by (auto simp: year_start_def)
  have "yd < sum_list (month_lens y)" using 1(2) by (simp add: month_lens_sum)
  from month_split_spec[OF this] y(2) have "m < length (month_lens y)" "r < month_lens y ! m"
    "month_start y m + r = yd" by (auto simp: month_start_def)
  moreover have "length (month_lens y) = 12" by (simp add: month_lens_def)
  ultimately show ?thesis using 1 year_split_bound[of 1970 n] y(1) by (auto simp: day_number_def)
qed

lemma month_lens_le: "m < 12 \<Longrightarrow> month_lens y ! m \<le> 31"
proof -
  assume "m < 12"
  then have "month_lens y ! m \<in> set (month_lens y)" by (intro nth_mem) (simp add: month_lens_def)
  then show ?thesis by (auto simp: month_lens_def split: if_splits)
qed

lemma day_number_less:
  assumes "1970 \<le> y" and "m < 12" and "m' < 12" and "r < month_lens y ! m"
    and "month_start y m + r < year_len y"
    and "y < y' \<or> y = y' \<and> (m < m' \<or> m = m' \<and> r < r')"
  shows "day_number (y, m, r) < day_number (y', m', r')"
  using assms(6)
proof (elim disjE conjE)
  assume "y < y'"
  then have "year_start (Suc y) \<le> year_start y'" using assms(1) by (intro year_start_mono) auto
  then show ?thesis using assms(1,5) by (simp add: day_number_def year_start_Suc)
next
  assume "y = y'" "m < m'"
  then show ?thesis using sum_list_take_mono[of m m' "month_lens y"] assms(3,4)
    by (simp add: day_number_def month_start_def) (simp add: month_lens_def)
next
  assume "y = y'" "m = m'" "r < r'"
  then show ?thesis by (simp add: day_number_def)
qed

section \<open>Digits of fixed width\<close>

fun digits_of :: "nat \<Rightarrow> nat \<Rightarrow> string" where
  "digits_of 0 n = []"
| "digits_of (Suc w) n = digits_of w (n div 10) @ [digit_char (n mod 10)]"

lemma length_digits_of [simp]: "length (digits_of w n) = w"
  by (induction w arbitrary: n) auto

lemma length_dec_le: "0 < w \<Longrightarrow> n < 10 ^ w \<Longrightarrow> length (dec_nat n) \<le> w"
  using length_dec_nat_le by blast

lemma pad_dec: "0 < w \<Longrightarrow> n < 10 ^ w \<Longrightarrow> pad (CHR ''0'') w (dec_nat n) = digits_of w n"
proof (induction w arbitrary: n)
  case (Suc w)
  show ?case
  proof (cases "n < 10")
    case True
    have "digits_of w 0 = replicate w (CHR ''0'')" for w
      by (induction w) (simp_all add: replicate_append_same)
    moreover have "dec_nat n = [digit_char n]" using True by (subst dec_nat.simps) simp
    ultimately show ?thesis using True by (simp add: pad_def)
  next
    case False
    then have w: "0 < w" using Suc.prems(2) by (cases w) auto
    have "n div 10 < 10 ^ w" using Suc.prems(2) by (simp add: less_mult_imp_div_less)
    from Suc.IH[OF w this] show ?thesis
      using False by (subst dec_nat.simps) (simp add: pad_def)
  qed
qed simp

lemma fmt_zero_digits: "0 < w \<Longrightarrow> 0 \<le> i \<Longrightarrow> i < 10 ^ w \<Longrightarrow> fmt_zero w i = digits_of w (nat i)"
  by (simp add: fmt_zero_def pad_dec nat_less_iff)

lemma append_less_iff:
  "length a = length b \<Longrightarrow> ((a :: string) @ c < b @ d) = (a < b \<or> a = b \<and> c < d)"
  by (induction a b rule: list_induct2) auto

lemma digit_char_less: "d < 10 \<Longrightarrow> e < 10 \<Longrightarrow> (digit_char d < digit_char e) = (d < e)"
  by (simp add: less_char_def of_char_digit)

lemma digit_char_eq: "d < 10 \<Longrightarrow> e < 10 \<Longrightarrow> (digit_char d = digit_char e) = (d = e)"
  using char_digit_digit_char by metis

lemma radix_less:
  fixes a b c d M :: nat
  assumes "c < M" and "d < M" and "a < b"
  shows "M * a + c < M * b + d"
proof -
  have "M * a + c < M * Suc a" using assms(1) by simp
  also have "\<dots> \<le> M * b" using assms(3) by (intro mult_le_mono2) simp
  finally show ?thesis by simp
qed

text \<open>Numbers with a last digit compare by the rest first, in any base.\<close>

lemma radix_order:
  fixes a b c d M :: nat
  assumes "c < M" and "d < M"
  shows "(M * a + c < M * b + d) = (a < b \<or> a = b \<and> c < d)" and "(M * a + c = M * b + d) = (a = b \<and> c = d)"
proof -
  consider "a < b" | "a = b" | "b < a" by linarith
  then show "(M * a + c < M * b + d) = (a < b \<or> a = b \<and> c < d)"
    using radix_less[OF assms, of a b] radix_less[OF assms(2,1), of b a] by cases auto
  consider "a < b" | "a = b" | "b < a" by linarith
  then show "(M * a + c = M * b + d) = (a = b \<and> c = d)"
    using radix_less[OF assms, of a b] radix_less[OF assms(2,1), of b a] by cases auto
qed

lemma div_mod_order:
  fixes n k M :: nat
  assumes "0 < M"
  shows "(n < k) = (n div M < k div M \<or> n div M = k div M \<and> n mod M < k mod M)"
    and "(n = k) = (n div M = k div M \<and> n mod M = k mod M)"
  using radix_order[of "n mod M" M "k mod M" "n div M" "k div M"] assms by simp_all

lemma digits_of_less:
  "n < 10 ^ w \<Longrightarrow> k < 10 ^ w \<Longrightarrow> (digits_of w n < digits_of w k) = (n < k) \<and> (digits_of w n = digits_of w k) = (n = k)"
proof (induction w arbitrary: n k)
  case (Suc w)
  have "n div 10 < 10 ^ w" "k div 10 < 10 ^ w" using Suc.prems by (simp_all add: less_mult_imp_div_less)
  note IH = Suc.IH[OF this]
  have "(n < k) = (n div 10 < k div 10 \<or> n div 10 = k div 10 \<and> n mod 10 < k mod 10)"
    and "(n = k) = (n div 10 = k div 10 \<and> n mod 10 = k mod 10)"
    by (rule div_mod_order, simp)+
  then show ?case using IH by (simp add: append_less_iff digit_char_less digit_char_eq)
qed simp

lemma digits_append_less:
  "n < 10 ^ w \<Longrightarrow> k < 10 ^ w \<Longrightarrow>
     (digits_of w n @ c < digits_of w k @ d) = (n < k \<or> n = k \<and> c < d)"
  by (simp add: append_less_iff digits_of_less)

lemma length_dec_nat_ge: "10 ^ k \<le> n \<Longrightarrow> k < length (dec_nat n)"
proof (induction k arbitrary: n)
  case (Suc k)
  then have "10 ^ k \<le> n div 10" by (simp add: less_eq_div_iff_mult_less_eq mult.commute)
  moreover have "\<not> n < 10" using Suc.prems by (meson le_less_trans not_le one_le_power one_le_numeral power_Suc_less_one leD
      self_le_power zero_less_Suc)
  ultimately show ?case using Suc.IH by (subst dec_nat.simps) simp
qed simp

section \<open>Formatted time stamps\<close>

text \<open>The parts of a time stamp after the epoch, and the text made of them.\<close>

definition day_of :: "nat \<Rightarrow> nat" where "day_of us = us div 1000000 div 86400"
definition second_of :: "nat \<Rightarrow> nat" where "second_of us = us div 1000000 mod 86400"

definition last_formatted :: nat where "last_formatted = 2930950 * 86400 * 1000000"

definition stamp_text :: "nat \<Rightarrow> string" where
  "stamp_text us = (case civil (day_of us) of (y, m, r) \<Rightarrow>
     digits_of 4 y @ digits_of 2 (m + 1) @ digits_of 2 (r + 1) @ '' '' @ digits_of 2 (second_of us div 3600) @ '':''
     @ digits_of 2 (second_of us mod 3600 div 60) @ '':'' @ digits_of 2 (second_of us mod 60) @ ''.''
     @ digits_of 6 (us mod 1000000))"

lemma civil_fields:
  assumes "us < last_formatted" and "civil (day_of us) = (y, m, r)"
  shows "1000 \<le> y \<and> y < 10 ^ 4 \<and> m + 1 < 10 ^ 2 \<and> r + 1 < 10 ^ 2"
proof -
  note c = civil_spec[OF assms(2)]
  have "us div 1000000 div 86400 < 2930950" using assms(1) by (simp add: last_formatted_def less_mult_imp_div_less)
  then have "day_of us div 365 \<le> 8029" by (simp add: day_of_def)
  moreover have "r < 31" using c month_lens_le[of m y] by linarith
  ultimately show ?thesis using c by simp
qed

lemma second_fields:
  "second_of us div 3600 < 10 ^ 2 \<and> second_of us mod 3600 div 60 < 10 ^ 2 \<and> second_of us mod 60 < 10 ^ 2"
proof -
  have "second_of us < 24 * 3600" by (simp add: second_of_def)
  then have "second_of us div 3600 < 24" by (simp add: less_mult_imp_div_less)
  moreover have "second_of us mod 3600 < 60 * 60" by simp
  then have "second_of us mod 3600 div 60 < 60" by (simp add: less_mult_imp_div_less)
  moreover have "second_of us mod 60 < 60" by simp
  ultimately show ?thesis by simp
qed

lemma gmtime_civil:
  assumes "civil (n div 86400) = (y, m, r)"
  shows "gmtime_r (int n) = \<lparr>tm_year = int y - 1900, tm_mon = int m, tm_mday = int r + 1,
     tm_hour = int (n mod 86400 div 3600), tm_min = int (n mod 86400 mod 3600 div 60), tm_sec = int (n mod 86400 mod 60)\<rparr>"
proof -
  have "int n div 86400 = int (n div 86400)" "int n mod 86400 = int (n mod 86400)"
    by (simp_all add: zdiv_int zmod_int)
  moreover from this(1) have "nat (int n div 86400) = n div 86400" by (metis nat_int)
  ultimately show ?thesis using assms
    by (auto simp: gmtime_r_def Let_def civil_def zdiv_int zmod_int split: prod.splits)
qed

lemma cdiv_nat: "cdiv (int n) kMicroSecondsPerSecond = int (n div 1000000)"
  and crem_nat: "crem (int n) kMicroSecondsPerSecond = int (n mod 1000000)"
  by (simp_all add: cdiv_def crem_def kMicroSecondsPerSecond_def zdiv_int zmod_int minus_div_mult_eq_mod)

lemma fmt_zero_nat: "0 < w \<Longrightarrow> n < 10 ^ w \<Longrightarrow> fmt_zero w (int n) = digits_of w n"
  by (simp add: fmt_zero_digits)

lemma fmt_blank_year: "1000 \<le> y \<Longrightarrow> y < 10 ^ 4 \<Longrightarrow> fmt_blank 4 (int y) = digits_of 4 y"
proof -
  assume y: "1000 \<le> y" "y < 10 ^ 4"
  have "3 < length (dec_nat y)" using length_dec_nat_ge[of 3 y] y(1) by simp
  then have "fmt_blank 4 (int y) = dec_nat y" "pad (CHR ''0'') 4 (dec_nat y) = dec_nat y"
    by (simp_all add: fmt_blank_def pad_def dec_int_def)
  with pad_dec[of 4 y] y(2) show ?thesis by simp
qed

lemma length_stamp_text [simp]: "length (stamp_text us) = 24"
  by (simp add: stamp_text_def split: prod.split)

lemma formatted_text:
  assumes "us < last_formatted"
  shows "ToFormattedString (Timestamp_micros (int us)) = stamp_text us"
proof -
  obtain y m r where c: "civil (day_of us) = (y, m, r)" by (cases "civil (day_of us)") auto
  note f = civil_fields[OF assms c] second_fields[of us]
  have g: "gmtime_r (int (us div 1000000)) = \<lparr>tm_year = int y - 1900, tm_mon = int m, tm_mday = int r + 1,
     tm_hour = int (second_of us div 3600), tm_min = int (second_of us mod 3600 div 60),
     tm_sec = int (second_of us mod 60)\<rparr>"
    using gmtime_civil[of "us div 1000000" y m r] c by (simp add: day_of_def second_of_def)
  have "fmt_zero 2 (int m + 1) = digits_of 2 (m + 1)" "fmt_zero 2 (int r + 1) = digits_of 2 (r + 1)"
    using fmt_zero_nat[of 2 "m + 1"] fmt_zero_nat[of 2 "r + 1"] f(1) by (simp_all add: add.commute)
  moreover have "fmt_zero 2 (int (second_of us div 3600)) = digits_of 2 (second_of us div 3600)"
    "fmt_zero 2 (int (second_of us mod 3600 div 60)) = digits_of 2 (second_of us mod 3600 div 60)"
    "fmt_zero 2 (int (second_of us mod 60)) = digits_of 2 (second_of us mod 60)"
    using f(2) by (intro fmt_zero_nat; simp)+
  moreover have "fmt_zero 6 (int (us mod 1000000)) = digits_of 6 (us mod 1000000)"
    by (intro fmt_zero_nat) simp_all
  moreover have "fmt_blank 4 (int y) = digits_of 4 y" using fmt_blank_year f(1) by blast
  ultimately have "ToFormattedString (Timestamp_micros (int us)) = snprintf_keep 32 (stamp_text us)"
    by (simp add: ToFormattedString_def cdiv_nat crem_nat g c stamp_text_def del: of_nat_Suc digits_of.simps)
  then show ?thesis by (simp add: snprintf_keep_id)
qed

lemma civil_order:
  assumes "civil n = (y, m, r)" and "civil k = (y', m', r')"
  shows "(n < k) = (y < y' \<or> y = y' \<and> (m < m' \<or> m = m' \<and> r < r'))"
    and "(n = k) = (y = y' \<and> m = m' \<and> r = r')"
proof -
  note c = civil_spec[OF assms(1)] civil_spec[OF assms(2)]
  let ?L = "\<lambda>y m r y' m' r'. y < y' \<or> y = y' \<and> (m < m' \<or> m = m' \<and> r < (r' :: nat))"
  have lt: "?L y m r y' m' r' \<Longrightarrow> n < k" and gt: "?L y' m' r' y m r \<Longrightarrow> k < n"
    using day_number_less[of y m m' r y' r'] day_number_less[of y' m' m r' y r] c by auto
  have tri: "?L y m r y' m' r' \<or> (y = y' \<and> m = m' \<and> r = r') \<or> ?L y' m' r' y m r" by auto
  have eq: "y = y' \<and> m = m' \<and> r = r' \<Longrightarrow> n = k" using c by auto
  show "(n < k) = ?L y m r y' m' r'" using lt gt eq tri by (metis less_asym less_irrefl)
  show "(n = k) = (y = y' \<and> m = m' \<and> r = r')" using lt gt eq tri by (metis less_irrefl)
qed

lemma second_order:
  "(second_of a < second_of b) = (second_of a div 3600 < second_of b div 3600 \<or> second_of a div 3600 = second_of b div 3600
     \<and> (second_of a mod 3600 div 60 < second_of b mod 3600 div 60 \<or> second_of a mod 3600 div 60 = second_of b mod 3600 div 60
       \<and> second_of a mod 60 < second_of b mod 60))"
  "(second_of a = second_of b) = (second_of a div 3600 = second_of b div 3600
     \<and> second_of a mod 3600 div 60 = second_of b mod 3600 div 60 \<and> second_of a mod 60 = second_of b mod 60)"
proof -
  have m: "x mod 3600 mod 60 = x mod 60" for x :: nat by (simp add: mod_mod_cancel)
  show "(second_of a < second_of b) = (second_of a div 3600 < second_of b div 3600 \<or> second_of a div 3600 = second_of b div 3600
     \<and> (second_of a mod 3600 div 60 < second_of b mod 3600 div 60 \<or> second_of a mod 3600 div 60 = second_of b mod 3600 div 60
       \<and> second_of a mod 60 < second_of b mod 60))"
    by (subst div_mod_order(1)[of 3600]) (simp, subst (2) div_mod_order(1)[of 60], simp, simp only: m)
  show "(second_of a = second_of b) = (second_of a div 3600 = second_of b div 3600
     \<and> second_of a mod 3600 div 60 = second_of b mod 3600 div 60 \<and> second_of a mod 60 = second_of b mod 60)"
    by (subst div_mod_order(2)[of 3600]) (simp, subst (2) div_mod_order(2)[of 60], simp, simp only: m)
qed

lemma stamp_text_less:
  assumes "a < last_formatted" and "b < last_formatted"
  shows "(stamp_text a < stamp_text b) = (a < b)"
proof -
  obtain y m r where ca: "civil (day_of a) = (y, m, r)" by (cases "civil (day_of a)") auto
  obtain y' m' r' where cb: "civil (day_of b) = (y', m', r')" by (cases "civil (day_of b)") auto
  note f = civil_fields[OF assms(1) ca] civil_fields[OF assms(2) cb] second_fields[of a] second_fields[of b]
  have "(stamp_text a < stamp_text b) = (day_of a < day_of b \<or> day_of a = day_of b \<and>
      (second_of a < second_of b \<or> second_of a = second_of b \<and> a mod 1000000 < b mod 1000000))"
    unfolding stamp_text_def ca cb civil_order[OF ca cb] second_order prod.case
    using f by (auto simp: digits_append_less digits_of_less simp del: digits_of.simps)
  also have "\<dots> = (a div 1000000 < b div 1000000 \<or> a div 1000000 = b div 1000000 \<and> a mod 1000000 < b mod 1000000)"
    using div_mod_order[of 86400 "a div 1000000" "b div 1000000"] by (auto simp: day_of_def second_of_def)
  also have "\<dots> = (a < b)" using div_mod_order(1)[of 1000000 a b] by simp
  finally show ?thesis .
qed

section \<open>Claims about time stamps\<close>

text \<open>
  Claim C27. Formatted time stamps sort as time does: up to the year 9994 every text has 24 characters, texts
  of the same length compare byte by byte exactly as the microseconds do, and different time stamps have
  different texts. So a log that is sorted as text is sorted by time.
\<close>

theorem formatted_order:
  assumes "a < last_formatted" and "b < last_formatted"
    and "ta = Timestamp_micros (int a)" and "tb = Timestamp_micros (int b)"
  shows "length (ToFormattedString ta) = 24
     \<and> (ToFormattedString ta < ToFormattedString tb) = (ta < tb)
     \<and> (ToFormattedString ta = ToFormattedString tb) = (ta = tb)"
proof -
  have "(stamp_text a = stamp_text b) = (a = b)"
    using stamp_text_less[OF assms(1,2)] stamp_text_less[OF assms(2,1)] by (metis less_irrefl linorder_neqE_nat)
  then show ?thesis
    using stamp_text_less[OF assms(1,2)] formatted_text[OF assms(1)] formatted_text[OF assms(2)] assms(3,4)
    by (simp add: less_timestamp_def ts_less_def)
qed

theorem formatted_order_witness:
  "ToFormattedString (Timestamp_micros 999999) < ToFormattedString (Timestamp_micros 1000000)"
  using formatted_order[of 999999 1000000 "Timestamp_micros 999999" "Timestamp_micros 1000000"]
  by (simp add: last_formatted_def less_timestamp_def ts_less_def)

lemma undec_digits_of [simp]: "n < 10 ^ w \<Longrightarrow> undec (digits_of w n) = n"
proof (induction w arbitrary: n)
  case (Suc w)
  then have "n div 10 < 10 ^ w" by (simp add: less_mult_imp_div_less mult.commute)
  with Suc show ?case by (simp add: undec_snoc)
qed (simp add: undec_def)

lemma ToString_text:
  assumes "int64 (int us)"
  shows "ToString (Timestamp_micros (int us)) = dec_nat (us div 1000000) @ ''.'' @ digits_of 6 (us mod 1000000)"
proof -
  have "us < 2 ^ 63" using assms by (simp add: int64_def)
  then have "us div 1000000 < 10 ^ 13" by (simp add: less_mult_imp_div_less)
  then have "length (dec_nat (us div 1000000)) \<le> 13" by (intro length_dec_nat_le) simp_all
  then show ?thesis
    by (simp add: ToString_def cdiv_nat crem_nat dec_int_def fmt_zero_nat snprintf_keep_id
        del: digits_of.simps)
qed

text \<open>Reading the text back.\<close>

definition parse_stamp :: "string \<Rightarrow> nat" where
  "parse_stamp s = (let i = std_find (CHR ''.'') s
     in undec (take i s) * 1000000 + undec (drop (Suc i) s))"

text \<open>
  Claim C29. \<^verbatim>\<open>ToString\<close> is exact: the text of every time stamp after the epoch that fits an \<^verbatim>\<open>int64_t\<close>
  is never cut short by the 32 byte buffer, and the seconds before the point and the six digits after it give the
  microseconds back.
\<close>

theorem ToString_roundtrip:
  assumes "int64 (int us)"
  shows "parse_stamp (ToString (Timestamp_micros (int us))) = us"
proof -
  have "CHR ''.'' \<notin> set (dec_nat (us div 1000000))"
  proof
    assume "CHR ''.'' \<in> set (dec_nat (us div 1000000))"
    then obtain d where "d < 10" "CHR ''.'' = digit_char d" using dec_nat_digits by blast
    then have "of_char (CHR ''.'') = (48 + d :: nat)" using of_char_digit by metis
    then show False by simp
  qed
  from std_find_first[OF this] show ?thesis
    by (simp add: ToString_text[OF assms] parse_stamp_def Let_def del: digits_of.simps)
qed

theorem ToString_roundtrip_witness: "parse_stamp (ToString (Timestamp_micros 1500001)) = 1500001"
  using ToString_roundtrip[of 1500001] by (simp add: int64_def)

text \<open>Before the epoch the remainder is negative too, and its sign lands behind the point.\<close>

lemma negative_text: "ToString (Timestamp_micros (- 1)) = ''0.-00001''"
  by code_simp

section \<open>No text is cut short\<close>

lemma length_fmt_zero: "0 < w \<Longrightarrow> - (10 ^ w) < i \<Longrightarrow> i < 10 ^ w \<Longrightarrow> length (fmt_zero w i) \<le> Suc w"
proof -
  assume w: "0 < w" and i: "- (10 ^ w) < i" "i < 10 ^ w"
  then have "nat \<bar>i\<bar> < 10 ^ w" by (simp add: nat_less_iff abs_less_iff)
  from length_dec_nat_le[OF this w] show ?thesis by (auto simp: fmt_zero_def pad_def split: if_splits)
qed

lemma length_fmt_two: "0 \<le> i \<Longrightarrow> i < 100 \<Longrightarrow> length (fmt_zero 2 i) = 2"
  using fmt_zero_digits[of 2 i] by simp

lemma length_fmt_year: "\<bar>i\<bar> < 10 ^ 6 \<Longrightarrow> length (fmt_blank 4 i) \<le> 7"
proof -
  assume "\<bar>i\<bar> < 10 ^ 6"
  then have "nat \<bar>i\<bar> < 10 ^ 6" by (simp add: nat_less_iff)
  from length_dec_nat_le[OF this] show ?thesis by (auto simp: fmt_blank_def pad_def dec_int_def split: if_splits)
qed

lemma gmtime_bounds:
  assumes "\<bar>secs\<bar> \<le> 10 ^ 13"
  shows "\<bar>tm_year (gmtime_r secs) + 1900\<bar> < 10 ^ 6 \<and> 0 \<le> tm_mon (gmtime_r secs) \<and> tm_mon (gmtime_r secs) < 12
     \<and> 1 \<le> tm_mday (gmtime_r secs) \<and> tm_mday (gmtime_r secs) \<le> 31
     \<and> 0 \<le> tm_hour (gmtime_r secs) \<and> tm_hour (gmtime_r secs) < 24
     \<and> 0 \<le> tm_min (gmtime_r secs) \<and> tm_min (gmtime_r secs) < 60
     \<and> 0 \<le> tm_sec (gmtime_r secs) \<and> tm_sec (gmtime_r secs) < 60"
proof -
  define days where "days = secs div 86400"
  define periods where "periods = (if days < 0 then (146096 - days) div 146097 else 0)"
  define n where "n = nat (days + 146097 * periods)"
  obtain y m r where c: "civil n = (y, m, r)" by (cases "civil n") auto
  have secs: "- 10000000000000 \<le> secs" "secs \<le> 10000000000000" using assms by simp_all
  have days: "- 115740742 \<le> days" using secs(1) unfolding days_def by linarith
  have days': "days \<le> 115740740" using secs(2) unfolding days_def by linarith
  then have periods: "0 \<le> periods" "periods \<le> 794" "days + 146097 * periods \<le> 115740740 + 146097"
    "0 \<le> days + 146097 * periods"
    using days days' unfolding periods_def by (auto split: if_splits)
  then have "n \<le> 115886837" unfolding n_def by linarith
  then have "n div 365 \<le> 317498" by linarith
  note spec = civil_spec[OF c]
  have "r < 31" using spec month_lens_le[of m y] by linarith
  have g: "gmtime_r secs = \<lparr>tm_year = int y - 400 * periods - 1900, tm_mon = int m, tm_mday = int r + 1,
      tm_hour = secs mod 86400 div 3600, tm_min = secs mod 86400 mod 3600 div 60, tm_sec = secs mod 86400 mod 60\<rparr>"
    using c by (auto simp: gmtime_r_def Let_def civil_def n_def periods_def days_def split: prod.splits)
  have "0 \<le> secs mod 86400 div 3600 \<and> secs mod 86400 div 3600 < 24
    \<and> 0 \<le> secs mod 86400 mod 3600 div 60 \<and> secs mod 86400 mod 3600 div 60 < 60" by (auto simp: div_less_iff_less_mult)
  moreover have "y \<le> 319468" using spec \<open>n div 365 \<le> 317498\<close> by linarith
  then have "\<bar>int y - 400 * periods\<bar> < 10 ^ 6" using periods(1,2) by simp
  ultimately show ?thesis unfolding g using spec \<open>r < 31\<close> by simp
qed



end
