(* ===== verification/LogLine.thy ===== *)
theory LogLine
  imports LogStream Timestamp
begin

text \<open>
  A log statement with its time: \<^verbatim>\<open>logger/logging.cc\<close> takes the time of the day when the line is begun and prints
  it with \<^verbatim>\<open>ToFormattedString\<close>. The theory joins \<open>LogStream\<close> and \<open>Timestamp\<close>, and holds the macros of
  \<^verbatim>\<open>logger/logging.h\<close> and the older \<^verbatim>\<open>FormatTime\<close>.
\<close>

section \<open>The macros\<close>

text \<open>\<open>tv\<close> is the result of \<^verbatim>\<open>gettimeofday\<close>, seconds and microseconds.\<close>

definition timed_statement ::
  "string \<Rightarrow> int \<times> int \<Rightarrow> string \<Rightarrow> 32 word \<Rightarrow> log_item list \<Rightarrow> string res" where
  "timed_statement m tv fileName line items =
     rbind (Timestamp_now tv) (\<lambda>ts. log_statement m (ToFormattedString ts) fileName line items)"

text \<open>Without the macro a statement writes to \<^verbatim>\<open>log_nothing\<close>, whose operators return it unchanged.\<close>

datatype log_nothing = LogNothing

definition LogNothing_put :: "log_item \<Rightarrow> log_nothing \<Rightarrow> log_nothing" where
  "LogNothing_put value this = this"

definition LOG :: "bool \<Rightarrow> string \<Rightarrow> int \<times> int \<Rightarrow> string \<Rightarrow> 32 word \<Rightarrow> log_item list \<Rightarrow> string option res" where
  "LOG enable_log m tv fileName line items =
     (if enable_log then map_sum id Some (timed_statement m tv fileName line items)
      else (case fold LogNothing_put items LogNothing of LogNothing \<Rightarrow> Inr None))"

definition DLOG :: "bool \<Rightarrow> bool \<Rightarrow> string \<Rightarrow> int \<times> int \<Rightarrow> string \<Rightarrow> 32 word \<Rightarrow> log_item list \<Rightarrow> string option res" where
  "DLOG enable_log debuglog = LOG (enable_log \<and> debuglog)"

lemma LOG_disabled: "LOG False m tv fileName line items = Inr None"
  by (cases "fold LogNothing_put items LogNothing") (simp add: LOG_def)

text \<open>A statement never fails but for a clock that is out of range, and its line fits the buffer.\<close>

lemma LOG_total:
  assumes "length m = kDefaultSize_log" and "list_all item_ok items" and "Timestamp_now tv = Inr ts"
  shows "\<exists>d. LOG True m tv fileName line items = Inr (Some d)"
  using log_statement_total[OF assms(1,2), of "ToFormattedString ts" fileName line] assms(3)
  by (auto simp: LOG_def timed_statement_def)

lemma LOG_line:
  assumes "length m = kDefaultSize_log" and "list_all item_ok items"
    and "LOG True m tv fileName line items = Inr (Some d)"
  shows "length d \<le> kDefaultSize_log"
proof -
  obtain ts where ts: "Timestamp_now tv = Inr ts"
    using assms(3) by (cases "Timestamp_now tv") (auto simp: LOG_def timed_statement_def)
  show ?thesis
    using log_statement_total[OF assms(1,2), of "ToFormattedString ts" fileName line] assms(3) ts
    by (auto simp: LOG_def timed_statement_def)
qed

section \<open>The build with STDLOG\<close>

text \<open>
  \<^verbatim>\<open>std::cout << buffer.get_data() << std::endl\<close> prints the array of the buffer as a C string: up to its first null byte, which must be
  in the array.
\<close>

definition print_cstr :: "string \<Rightarrow> string res" where
  "print_cstr m = (if NUL \<in> set m then Inr (takeWhile (\<lambda>c. c \<noteq> NUL) m @ [LF]) else Inl OutOfRange)"

definition Logger_finish_std :: "logger \<Rightarrow> string res" where
  "Logger_finish_std l =
     rbind (seq_res Logger_stream
        [LStr (Some '' -- ''), LStr (Some (base_name l)), LChar (CHR '':''), LInt (log_line l), LStr (Some [LF])] l)
       (\<lambda>l'. print_cstr (fb_data (log_stream l')))"

text \<open>
  The logger never writes that null byte. The line is printed with the stale memory behind it, and when there is no null
  byte in that either, the print reads past the end of the array.
\<close>

lemma std_finish_stale:
  assumes "seq_res Logger_stream
      [LStr (Some '' -- ''), LStr (Some (base_name l)), LChar (CHR '':''), LInt (log_line l), LStr (Some [LF])] l = Inr l'"
    and "b = log_stream l'" and "NUL \<notin> set (fb_text b)" and "stale = drop (fb_cur b) (fb_data b)"
  shows "Logger_finish_std l = (if NUL \<in> set stale then Inr (fb_text b @ takeWhile (\<lambda>c. c \<noteq> NUL) stale @ [LF]) else Inl OutOfRange)"
proof -
  have m: "fb_data b = fb_text b @ stale" using assms(4) by (simp add: fb_text_def)
  have "takeWhile (\<lambda>c. c \<noteq> NUL) (fb_data b) = fb_text b @ takeWhile (\<lambda>c. c \<noteq> NUL) stale"
    by (subst m, rule takeWhile_append2) (use assms(3) in metis)
  moreover have "NUL \<in> set (fb_data b) \<longleftrightarrow> NUL \<in> set stale" using m assms(3) by (metis Un_iff set_append)
  ultimately show ?thesis using assms(1,2) by (simp add: Logger_finish_std_def print_cstr_def del: seq_res.simps)
qed

section \<open>FormatTime\<close>

text \<open>
  \<^verbatim>\<open>strftime\<close> with \<^verbatim>\<open>" %Y-%m-%d %H:%M:%S\n"\<close>; \<open>offset\<close> is what the time zone adds in \<^verbatim>\<open>localtime\<close>. A text that does
  not fit into the 26 bytes leaves their contents unspecified: \<open>garbage\<close>.
\<close>

definition strftime_text :: "tm \<Rightarrow> string" where
  "strftime_text t = '' '' @ dec_int (tm_year t + 1900) @ ''-'' @ fmt_zero 2 (tm_mon t + 1) @ ''-'' @ fmt_zero 2 (tm_mday t)
     @ '' '' @ fmt_zero 2 (tm_hour t) @ '':'' @ fmt_zero 2 (tm_min t) @ '':'' @ fmt_zero 2 (tm_sec t) @ [LF]"

definition FormatTime :: "string \<Rightarrow> int \<Rightarrow> int \<Rightarrow> logger \<Rightarrow> logger res" where
  "FormatTime garbage offset tv_sec l =
     (let p_time = gmtime_r (tv_sec + offset);
          str_t = (if length (strftime_text p_time) < 26 then strftime_text p_time else garbage)
      in Logger_stream (LStr (Some str_t)) l)"

text \<open>For any time an \<^verbatim>\<open>int64_t\<close> of microseconds reaches, the text fits.\<close>

lemma FormatTime_fits:
  assumes "\<bar>tv_sec + offset\<bar> \<le> 10 ^ 13"
  shows "FormatTime garbage offset tv_sec l = Logger_stream (LStr (Some (strftime_text (gmtime_r (tv_sec + offset))))) l"
proof -
  note g = gmtime_bounds[OF assms]
  have "length (dec_int (tm_year (gmtime_r (tv_sec + offset)) + 1900)) \<le> 7"
    using length_fmt_year[of "tm_year (gmtime_r (tv_sec + offset)) + 1900"] g by (simp add: fmt_blank_def pad_def)
  then have "length (strftime_text (gmtime_r (tv_sec + offset))) < 26"
    using g by (simp add: strftime_text_def length_fmt_two)
  then show ?thesis by (simp add: FormatTime_def)
qed

section \<open>A sorted log\<close>

lemma digits_of_no_NUL: "NUL \<notin> set (digits_of w n)"
proof (induction w arbitrary: n)
  case (Suc w)
  have "digit_char (n mod 10) \<noteq> NUL"
  proof
    assume "digit_char (n mod 10) = NUL"
    then have "of_char NUL = (48 + n mod 10 :: nat)" using of_char_digit[of "n mod 10"] by simp
    then show False by (simp add: NUL_def)
  qed
  with Suc.IH[of "n div 10"] show ?case by auto
qed simp

lemma stamp_text_whole: "takeWhile (\<lambda>c. c \<noteq> NUL) (stamp_text us) = stamp_text us"
proof -
  obtain y m r where "civil (day_of us) = (y, m, r)" by (cases "civil (day_of us)")
  then have "set (stamp_text us) \<subseteq> set (digits_of 4 y) \<union> set (digits_of 2 (m + 1)) \<union> set (digits_of 2 (r + 1))
      \<union> set (digits_of 2 (second_of us div 3600)) \<union> set (digits_of 2 (second_of us mod 3600 div 60))
      \<union> set (digits_of 2 (second_of us mod 60)) \<union> set (digits_of 6 (us mod 1000000)) \<union> {CHR '' '', CHR '':'', CHR ''.''}"
    unfolding stamp_text_def by (simp del: digits_of.simps) blast
  moreover have "NUL \<notin> {CHR '' '', CHR '':'', CHR ''.''}" by (simp add: NUL_def)
  ultimately have "NUL \<notin> set (stamp_text us)" using digits_of_no_NUL by blast
  then show ?thesis unfolding takeWhile_eq_all_conv by blast
qed

text \<open>The line of a statement that fits begins with its time stamp.\<close>

lemma timed_line:
  assumes "length m = kDefaultSize_log" and "list_all item_ok items" and "us < last_formatted"
    and "length (concat (map item_text items)) + length fileName + 100 \<le> kDefaultSize_log"
    and "tv = (int (us div 1000000), int (us mod 1000000))"
  shows "\<exists>rest. timed_statement m tv fileName line items = Inr (stamp_text us @ '' '' @ rest)"
proof -
  have t: "Timestamp_now tv = Inr (Timestamp_micros (int us))"
  proof -
    have "int (us div 1000000) * 1000000 + int (us mod 1000000) = int us"
      by (metis div_mult_mod_eq of_nat_add of_nat_mult of_nat_numeral)
    moreover have "int64 (int us)" using assms(3) by (simp add: int64_def last_formatted_def)
    ultimately show ?thesis using assms(5) by (simp add: Timestamp_now_def kMicroSecondsPerSecond_def)
  qed
  let ?all = "[LStr (Some (stamp_text us)), LStr (Some '' '')] @ items
      @ [LStr (Some '' -- ''), LStr (Some fileName), LChar (CHR '':''), LInt line, LStr (Some [LF])]"
  have "length (takeWhile (\<lambda>c. c \<noteq> NUL) fileName) \<le> length fileName" by (rule length_takeWhile_le)
  moreover note length_stamp_text
  moreover have "length (dec_int (sint line)) \<le> 20" by (rule length_dec_int) (rule word_machine)
  moreover have "dec_int 58 = ''58''" by (simp add: dec_int_def dec_nat.simps)
  ultimately have "length (concat (map item_text ?all)) + 32 \<le> kDefaultSize_log"
    using assms(4) by (simp add: stamp_text_whole[unfolded NUL_def] NUL_def LF_def)
  from log_statement_text[OF assms(1,2) refl this] show ?thesis
    using formatted_text[OF assms(3)] t by (simp add: timed_statement_def stamp_text_whole[unfolded NUL_def] NUL_def)
qed

text \<open>
  Claim C28. A log that is sorted as text is sorted by time: of two log statements of any files, lines and
  contents that fit their buffers, made at different microseconds up to the year 9994, the earlier one hands the smaller line to the
  back end, byte by byte; and no line of a build without \<^verbatim>\<open>ENABLE_LOG\<close> reaches it at all.
\<close>

theorem log_lines_sorted:
  assumes "a < b" and "b < last_formatted"
    and "tva = (int (a div 1000000), int (a mod 1000000))" and "tvb = (int (b div 1000000), int (b mod 1000000))"
    and "length ma = kDefaultSize_log" and "length mb = kDefaultSize_log"
    and "list_all item_ok xs" and "list_all item_ok ys"
    and "length (concat (map item_text xs)) + length fa + 100 \<le> kDefaultSize_log"
    and "length (concat (map item_text ys)) + length fb + 100 \<le> kDefaultSize_log"
  shows "(\<exists>da db. LOG True ma tva fa la xs = Inr (Some da) \<and> LOG True mb tvb fb lb ys = Inr (Some db) \<and> da < db)
     \<and> LOG False ma tva fa la xs = Inr None"
proof -
  have "a < last_formatted" using assms(1,2) by simp
  from timed_line[OF assms(5,7) this assms(9,3), of la] obtain ra where
    "timed_statement ma tva fa la xs = Inr (stamp_text a @ '' '' @ ra)" by blast
  moreover from timed_line[OF assms(6,8,2,10,4), of lb] obtain rb where
    "timed_statement mb tvb fb lb ys = Inr (stamp_text b @ '' '' @ rb)" by blast
  moreover have "stamp_text a < stamp_text b" using stamp_text_less[OF \<open>a < last_formatted\<close> assms(2)] assms(1) by simp
  then have "stamp_text a @ '' '' @ ra < stamp_text b @ '' '' @ rb"
    using append_less_iff[of "stamp_text a" "stamp_text b"] by (simp add: length_stamp_text)
  ultimately show ?thesis by (simp add: LOG_def[of True] LOG_disabled)
qed

theorem log_lines_sorted_witness:
  "\<exists>da db. LOG True (replicate 4000 NUL) (0, 999999) ''b.cc'' 2 [] = Inr (Some da)
     \<and> LOG True (replicate 4000 NUL) (1, 0) ''a.cc'' 1 [LInt 5] = Inr (Some db) \<and> da < db"
  using log_lines_sorted[of 999999 1000000 "(0, 999999)" "(1, 0)" "replicate 4000 NUL" "replicate 4000 NUL"
      "[]" "[LInt 5]" "''b.cc''" "''a.cc''" 2 1]
  by (simp add: last_formatted_def kDefaultSize_log_def dec_int_def dec_nat.simps)

end
