(* ===== verification/Sync.thy ===== *)
theory Sync
  imports Prelude
begin

text \<open>
  \<^verbatim>\<open>thread/mutex.h\<close>, \<^verbatim>\<open>thread/condition.h\<close> and \<^verbatim>\<open>thread/countdownlatch.h\<close>: the mutex, the condition variable
  and the count down latch. The latch is modelled twice: as two operations that are one step each, and with every
  lock, test, wait and unlock of its threads as a step of its own, on the mutex and the condition variable; the
  second implements the first. That is
  the reason why the other theories may take the body of a critical section as one step.
\<close>

section \<open>Mutex and condition variable\<close>

text \<open>
  A POSIX mutex of the default kind: a thread that locks it again blocks forever. None says that the caller
  blocks. \<open>sleepers\<close> are the threads in \<^verbatim>\<open>pthread_cond_wait\<close>, \<open>wakers\<close> those that have been
  woken and must lock the mutex again.
\<close>

record mutex =
  mutex_owner :: "nat option"

definition MutexLock :: mutex where
  "MutexLock = \<lparr>mutex_owner = None\<rparr>"

definition mutex_lock :: "nat \<Rightarrow> mutex \<Rightarrow> mutex option" where
  "mutex_lock t m = (case mutex_owner m of None \<Rightarrow> Some (m\<lparr>mutex_owner := Some t\<rparr>) | Some _ \<Rightarrow> None)"

definition mutex_unlock :: "mutex \<Rightarrow> mutex" where
  "mutex_unlock m = m\<lparr>mutex_owner := None\<rparr>"

text \<open>The constructor and the destructor of the guard.\<close>

definition MutexLockGuard_new :: "nat \<Rightarrow> mutex \<Rightarrow> mutex option" where
  "MutexLockGuard_new = mutex_lock"

definition MutexLockGuard_destroy :: "mutex \<Rightarrow> mutex" where
  "MutexLockGuard_destroy = mutex_unlock"

record condition =
  cond_mutex :: mutex
  sleepers :: "nat list"
  wakers :: "nat list"

definition Condition_new :: "mutex \<Rightarrow> condition" where
  "Condition_new m = \<lparr>cond_mutex = m, sleepers = [], wakers = []\<rparr>"

definition cond_wait :: "nat \<Rightarrow> condition \<Rightarrow> condition" where
  "cond_wait t c = c\<lparr>cond_mutex := mutex_unlock (cond_mutex c), sleepers := sleepers c @ [t]\<rparr>"

definition cond_notify :: "condition \<Rightarrow> condition" where
  "cond_notify c = (case sleepers c of [] \<Rightarrow> c | t # ts \<Rightarrow> c\<lparr>sleepers := ts, wakers := wakers c @ [t]\<rparr>)"

definition cond_notifyAll :: "condition \<Rightarrow> condition" where
  "cond_notifyAll c = c\<lparr>sleepers := [], wakers := wakers c @ sleepers c\<rparr>"

text \<open>A thread that sleeps wakes without a notification: a spurious wakeup, or the timeout of \<^verbatim>\<open>waitForSeconds\<close>.\<close>

definition cond_timeout :: "nat \<Rightarrow> condition \<Rightarrow> condition" where
  "cond_timeout t c = (if t \<in> set (sleepers c)
     then c\<lparr>sleepers := remove1 t (sleepers c), wakers := wakers c @ [t]\<rparr> else c)"

text \<open>The end of a wait: the woken thread locks the mutex again.\<close>

definition cond_resume :: "nat \<Rightarrow> condition \<Rightarrow> condition option" where
  "cond_resume t c = (if t \<in> set (wakers c)
     then map_option (\<lambda>m. c\<lparr>cond_mutex := m, wakers := remove1 t (wakers c)\<rparr>) (mutex_lock t (cond_mutex c))
     else None)"

section \<open>The latch as two operations\<close>

record latch =
  latch_count :: int
  latch_waiting :: nat

definition CountDownLatch :: "int \<Rightarrow> latch" where
  "CountDownLatch n = \<lparr>latch_count = n, latch_waiting = 0\<rparr>"

text \<open>\<^verbatim>\<open>Wait\<close> blocks while the count is positive; \<^verbatim>\<open>CountDown\<close> wakes all waiters at zero.\<close>

definition Wait_enter :: "latch \<Rightarrow> latch" where
  "Wait_enter l = (if latch_count l > 0 then l\<lparr>latch_waiting := Suc (latch_waiting l)\<rparr> else l)"

definition CountDown :: "latch \<Rightarrow> latch" where
  "CountDown l = (let l1 = l\<lparr>latch_count := latch_count l - 1\<rparr>
                  in if latch_count l1 = 0 then l1\<lparr>latch_waiting := 0\<rparr> else l1)"

definition GetCount :: "latch \<Rightarrow> int" where
  "GetCount l = latch_count l"

text \<open>The third step is a spurious wakeup.\<close>

inductive latch_step :: "latch \<Rightarrow> latch \<Rightarrow> bool" where
  enter: "latch_step l (Wait_enter l)"
| down: "latch_step l (CountDown l)"
| wake: "latch_waiting l = Suc n \<Longrightarrow> latch_step l (l\<lparr>latch_waiting := n\<rparr>)"

definition latch_inv :: "latch \<Rightarrow> bool" where
  "latch_inv l = (latch_waiting l > 0 \<longrightarrow> latch_count l > 0)"

interpretation latch: step_system latch_step latch_inv
proof
  fix s t
  assume inv: "latch_inv s" and "latch_step s t"
  from this(2) show "latch_inv t"
    by cases (use inv in \<open>auto simp: latch_inv_def CountDown_def Wait_enter_def Let_def\<close>)
qed

lemma latch_waiters: "latch_step\<^sup>*\<^sup>* (CountDownLatch n) l \<Longrightarrow> latch_waiting l > 0 \<Longrightarrow> latch_count l > 0"
  using latch.good_reach[of "CountDownLatch n" l] by (simp add: latch_inv_def CountDownLatch_def)

section \<open>The latch with every lock and test\<close>

text \<open>
  Where a thread is: outside; about to lock for \<^verbatim>\<open>Wait\<close>, at the test of the loop with the mutex held, in
  \<^verbatim>\<open>condition_.wait\<close>, returned from \<^verbatim>\<open>Wait\<close>; about to lock for \<^verbatim>\<open>CountDown\<close>, before the decrement, before the
  unlock. The mutex of the latch is the one of its condition.
\<close>

datatype latch_pc = Outside | WaitLock | WaitTest | InWait | Returned | DownLock | DownBody | DownUnlock

record latch_sys =
  cond :: condition
  count :: int
  pcs :: "latch_pc list"

definition at :: "nat \<Rightarrow> latch_pc \<Rightarrow> latch_sys \<Rightarrow> bool" where
  "at t pc s = (t < length (pcs s) \<and> pcs s ! t = pc)"

definition goto :: "nat \<Rightarrow> latch_pc \<Rightarrow> latch_sys \<Rightarrow> latch_sys" where
  "goto t pc s = s\<lparr>pcs := (pcs s)[t := pc]\<rparr>"

definition set_mutex :: "mutex \<Rightarrow> latch_sys \<Rightarrow> latch_sys" where
  "set_mutex m s = s\<lparr>cond := (cond s)\<lparr>cond_mutex := m\<rparr>\<rparr>"

definition lock :: "latch_sys \<Rightarrow> mutex" where
  "lock s = cond_mutex (cond s)"

text \<open>The body of \<^verbatim>\<open>CountDown\<close> between lock and unlock.\<close>

definition down_body :: "latch_sys \<Rightarrow> latch_sys" where
  "down_body s = (let s1 = s\<lparr>count := count s - 1\<rparr>
                  in if count s1 = 0 then s1\<lparr>cond := cond_notifyAll (cond s1)\<rparr> else s1)"

inductive thread_step :: "latch_sys \<Rightarrow> latch_sys \<Rightarrow> bool" where
  call_wait: "at t Outside s \<Longrightarrow> thread_step s (goto t WaitLock s)"
| wait_lock: "at t WaitLock s \<Longrightarrow> MutexLockGuard_new t (lock s) = Some m \<Longrightarrow>
    thread_step s (goto t WaitTest (set_mutex m s))"
| wait_sleep: "at t WaitTest s \<Longrightarrow> count s > 0 \<Longrightarrow> thread_step s (goto t InWait (s\<lparr>cond := cond_wait t (cond s)\<rparr>))"
| wait_resume: "at t InWait s \<Longrightarrow> cond_resume t (cond s) = Some c \<Longrightarrow>
    thread_step s (goto t WaitTest (s\<lparr>cond := c\<rparr>))"
| wait_return: "at t WaitTest s \<Longrightarrow> \<not> count s > 0 \<Longrightarrow>
    thread_step s (goto t Returned (set_mutex (MutexLockGuard_destroy (lock s)) s))"
| spurious: "t \<in> set (sleepers (cond s)) \<Longrightarrow> thread_step s (s\<lparr>cond := cond_timeout t (cond s)\<rparr>)"
| call_down: "at t Outside s \<Longrightarrow> thread_step s (goto t DownLock s)"
| down_lock: "at t DownLock s \<Longrightarrow> MutexLockGuard_new t (lock s) = Some m \<Longrightarrow>
    thread_step s (goto t DownBody (set_mutex m s))"
| down_notify: "at t DownBody s \<Longrightarrow> thread_step s (goto t DownUnlock (down_body s))"
| down_unlock: "at t DownUnlock s \<Longrightarrow>
    thread_step s (goto t Outside (set_mutex (MutexLockGuard_destroy (lock s)) s))"

definition thread_init :: "int \<Rightarrow> nat \<Rightarrow> latch_sys" where
  "thread_init n threads = \<lparr>cond = Condition_new MutexLock, count = n, pcs = replicate threads Outside\<rparr>"

definition holds :: "latch_pc \<Rightarrow> bool" where
  "holds pc = (pc \<in> {WaitTest, DownBody, DownUnlock})"

definition thread_inv :: "latch_sys \<Rightarrow> bool" where
  "thread_inv s = ((\<forall>t<length (pcs s). holds (pcs s ! t) \<longleftrightarrow> mutex_owner (lock s) = Some t)
     \<and> distinct (sleepers (cond s) @ wakers (cond s))
     \<and> (\<forall>t. t \<in> set (sleepers (cond s)) \<union> set (wakers (cond s)) \<longleftrightarrow> at t InWait s)
     \<and> (sleepers (cond s) \<noteq> [] \<longrightarrow> count s > 0)
     \<and> (\<forall>t. at t Returned s \<longrightarrow> count s \<le> 0))"

definition atomic_view :: "latch_sys \<Rightarrow> latch" where
  "atomic_view s = \<lparr>latch_count = count s, latch_waiting = length (sleepers (cond s))\<rparr>"

lemma holds_simps [simp]: "holds WaitTest" "holds DownBody" "holds DownUnlock" "\<not> holds Outside" "\<not> holds WaitLock"
  "\<not> holds InWait" "\<not> holds Returned" "\<not> holds DownLock"
  by (simp_all add: holds_def)

lemmas step_defs = goto_def at_def set_mutex_def lock_def mutex_lock_def mutex_unlock_def MutexLockGuard_new_def
  MutexLockGuard_destroy_def cond_wait_def cond_resume_def cond_timeout_def cond_notifyAll_def

lemma not_waiting:
  "thread_inv s \<Longrightarrow> at t pc s \<Longrightarrow> pc \<noteq> InWait \<Longrightarrow> t \<notin> set (sleepers (cond s)) \<and> t \<notin> set (wakers (cond s))"
  unfolding thread_inv_def by (metis Un_iff at_def)

lemma thread_step_inv:
  assumes "thread_step s s'" and inv: "thread_inv s"
  shows "thread_inv s'"
  using assms(1)
proof cases
  case (wait_sleep t)
  then have "mutex_owner (lock s) = Some t" "t \<notin> set (sleepers (cond s)) \<union> set (wakers (cond s))"
    using inv by (auto simp: thread_inv_def at_def)
  then show ?thesis using inv wait_sleep by (auto simp: thread_inv_def step_defs nth_list_update)
next
  case (wait_resume t c)
  have "mutex_owner (lock s) = None" using wait_resume(3) by (auto simp: step_defs split: if_splits option.splits)
  then show ?thesis using inv wait_resume
    by (auto simp: thread_inv_def step_defs nth_list_update split: if_splits)
next
  case (spurious t)
  then show ?thesis using inv by (auto simp: thread_inv_def step_defs)
next
  case (down_notify t)
  then have "mutex_owner (lock s) = Some t" "t \<notin> set (sleepers (cond s))" "t \<notin> set (wakers (cond s))"
    using inv not_waiting[OF inv down_notify(2)] by (auto simp: thread_inv_def at_def)
  then show ?thesis using inv down_notify
    by (auto simp: thread_inv_def step_defs nth_list_update down_body_def Let_def)
next
  case (wait_return t)
  then have "mutex_owner (lock s) = Some t" using inv by (auto simp: thread_inv_def at_def)
  then show ?thesis using inv wait_return by (auto simp: thread_inv_def step_defs nth_list_update)
next
  case (down_unlock t)
  then have "mutex_owner (lock s) = Some t" using inv by (auto simp: thread_inv_def at_def)
  then show ?thesis using inv down_unlock by (auto simp: thread_inv_def step_defs nth_list_update)
qed (use inv in \<open>auto simp: thread_inv_def step_defs nth_list_update split: option.splits\<close>)

text \<open>A step of a thread is one operation of the latch, or none.\<close>

lemma thread_step_view:
  assumes "thread_step s s'" and inv: "thread_inv s"
  shows "latch_step\<^sup>*\<^sup>* (atomic_view s) (atomic_view s')"
  using assms(1)
proof cases
  case (wait_sleep t)
  then have "atomic_view s' = Wait_enter (atomic_view s)" by (simp add: atomic_view_def Wait_enter_def step_defs)
  then show ?thesis using latch_step.enter by (metis r_into_rtranclp)
next
  case (spurious t)
  then have "latch_waiting (atomic_view s) = Suc (length (remove1 t (sleepers (cond s))))"
    by (simp add: atomic_view_def length_remove1) (metis Suc_pred length_pos_if_in_set)
  from latch_step.wake[OF this] spurious show ?thesis
    by (simp add: atomic_view_def step_defs)
next
  case (down_notify t)
  then have "atomic_view s' = CountDown (atomic_view s)"
    by (simp add: atomic_view_def CountDown_def down_body_def step_defs Let_def)
  then show ?thesis using latch_step.down by (metis r_into_rtranclp)
qed (auto simp: atomic_view_def step_defs split: if_splits option.splits)

text \<open>The threads implement the two operations.\<close>

interpretation threads: step_refinement thread_step thread_inv atomic_view latch_step
  by unfold_locales (use thread_step_inv thread_step_view in blast)+

lemma thread_init_inv [simp]: "thread_inv (thread_init n k)"
  by (auto simp: thread_inv_def thread_init_def MutexLock_def Condition_new_def lock_def at_def)

lemma thread_init_view: "atomic_view (thread_init n k) = CountDownLatch n"
  by (simp add: atomic_view_def thread_init_def CountDownLatch_def Condition_new_def)

text \<open>
  Claim C15. The count down latch is linearizable: every interleaving of any number of threads in \<^verbatim>\<open>Wait\<close> and \<^verbatim>\<open>CountDown\<close>, with the
  mutex, the condition variable and spurious wakeups as separate steps, is a run of the latch whose operations
  are single steps; at most one thread is ever inside of a critical section, a thread that has
  returned from \<^verbatim>\<open>Wait\<close> has seen the count at zero, and no thread sleeps once the count is there: each one in
  \<^verbatim>\<open>wait\<close> has been woken.
\<close>

theorem latch_linearizable:
  assumes "thread_step\<^sup>*\<^sup>* (thread_init n k) s"
  shows "latch_step\<^sup>*\<^sup>* (CountDownLatch n) (atomic_view s)
     \<and> (\<forall>t<length (pcs s). \<forall>u<length (pcs s). holds (pcs s ! t) \<and> holds (pcs s ! u) \<longrightarrow> t = u)
     \<and> (\<forall>t. at t Returned s \<longrightarrow> count s \<le> 0)
     \<and> (count s \<le> 0 \<longrightarrow> (\<forall>t. at t InWait s \<longrightarrow> t \<in> set (wakers (cond s))))"
proof -
  have inv: "thread_inv s" using threads.good_reach[OF assms thread_init_inv] .
  have "\<forall>t<length (pcs s). \<forall>u<length (pcs s). holds (pcs s ! t) \<and> holds (pcs s ! u) \<longrightarrow> t = u"
    using inv by (auto simp: thread_inv_def)
  moreover have "count s \<le> 0 \<longrightarrow> (\<forall>t. at t InWait s \<longrightarrow> t \<in> set (wakers (cond s)))"
    using inv unfolding thread_inv_def by (metis UnE list.set(1) empty_iff not_le)
  ultimately show ?thesis
    using threads.view_reach[OF assms thread_init_inv] thread_init_view[of n k] inv by (auto simp: thread_inv_def)
qed

text \<open>A run: thread 0 waits and falls asleep, thread 1 counts down and wakes it.\<close>

definition demo_sys :: "nat option \<Rightarrow> nat list \<Rightarrow> nat list \<Rightarrow> int \<Rightarrow> latch_pc list \<Rightarrow> latch_sys" where
  "demo_sys ow sl wk n ps = \<lparr>cond = \<lparr>cond_mutex = \<lparr>mutex_owner = ow\<rparr>, sleepers = sl, wakers = wk\<rparr>, count = n, pcs = ps\<rparr>"

lemma demo_latch: "thread_step\<^sup>*\<^sup>* (thread_init 1 2) (demo_sys (Some 1) [] [0] 0 [InWait, DownUnlock])"
proof -
  note d = demo_sys_def step_defs thread_init_def MutexLock_def Condition_new_def numeral_2_eq_2 down_body_def
  have "thread_step (thread_init 1 2) (demo_sys None [] [] 1 [WaitLock, Outside])"
    using call_wait[of 0 "thread_init 1 2"] by (simp add: d)
  moreover have "thread_step (demo_sys None [] [] 1 [WaitLock, Outside]) (demo_sys (Some 0) [] [] 1 [WaitTest, Outside])"
    using wait_lock[of 0 "demo_sys None [] [] 1 [WaitLock, Outside]"] by (simp add: d)
  moreover have "thread_step (demo_sys (Some 0) [] [] 1 [WaitTest, Outside]) (demo_sys None [0] [] 1 [InWait, Outside])"
    using wait_sleep[of 0 "demo_sys (Some 0) [] [] 1 [WaitTest, Outside]"] by (simp add: d)
  moreover have "thread_step (demo_sys None [0] [] 1 [InWait, Outside]) (demo_sys None [0] [] 1 [InWait, DownLock])"
    using call_down[of 1 "demo_sys None [0] [] 1 [InWait, Outside]"] by (simp add: d)
  moreover have "thread_step (demo_sys None [0] [] 1 [InWait, DownLock]) (demo_sys (Some 1) [0] [] 1 [InWait, DownBody])"
    using down_lock[of 1 "demo_sys None [0] [] 1 [InWait, DownLock]"] by (simp add: d)
  moreover have "thread_step (demo_sys (Some 1) [0] [] 1 [InWait, DownBody]) (demo_sys (Some 1) [] [0] 0 [InWait, DownUnlock])"
    using down_notify[of 1 "demo_sys (Some 1) [0] [] 1 [InWait, DownBody]"] by (simp add: d)
  ultimately show ?thesis by (meson converse_rtranclp_into_rtranclp rtranclp.rtrancl_refl)
qed

theorem latch_linearizable_witness:
  "latch_step\<^sup>*\<^sup>* (CountDownLatch 1) \<lparr>latch_count = 0, latch_waiting = 0\<rparr>"
  using latch_linearizable[OF demo_latch] by (simp add: atomic_view_def demo_sys_def)

end
