(* ===== verification/Logging.thy ===== *)
theory Logging
  imports AsyncLogging LogLine Sync
begin

text \<open>
  The start of the logger in \<^verbatim>\<open>logger/logging.cc\<close>: the first log statement of any thread creates the
  asynchronous logger under \<^verbatim>\<open>pthread_once\<close> and waits until its thread runs. The theory puts the log
  statements of \<open>LogLine\<close>, the latch of \<open>Sync\<close> and the two sides of \<open>AsyncLogging\<close> together.
\<close>

section \<open>State and steps\<close>

text \<open>\<^verbatim>\<open>pthread_once_t\<close>: who runs \<^verbatim>\<open>Init_\<close>, and how far: before \<^verbatim>\<open>new\<close>, before \<^verbatim>\<open>Start\<close>, in \<^verbatim>\<open>latch_.Wait\<close>.\<close>

datatype init_stage = AtNew | AtStart | AtLatch
datatype once_state = OnceNever | OnceRunning nat init_stage | OnceDone

text \<open>
  Where a thread is in \<^verbatim>\<open>Logger::~Logger\<close>, with its finished line: outside, at \<^verbatim>\<open>pthread_once\<close>, inside of
  \<^verbatim>\<open>Init_\<close>, at \<^verbatim>\<open>Append\<close>.
\<close>

datatype log_pc = LIdle | LOnce string | LInit string | LAppend string

record logging =
  once :: once_state
  front_end :: "async_log option"
  thread_on :: bool
  start_latch :: latch
  back_end :: "backend option"
  back_writing :: bool
  created :: nat
  log_pcs :: "log_pc list"
  history :: "async_label list"

definition thread_at :: "nat \<Rightarrow> log_pc \<Rightarrow> logging \<Rightarrow> bool" where
  "thread_at t pc s = (t < length (log_pcs s) \<and> log_pcs s ! t = pc)"

definition move :: "nat \<Rightarrow> log_pc \<Rightarrow> logging \<Rightarrow> logging" where
  "move t pc s = s\<lparr>log_pcs := (log_pcs s)[t := pc]\<rparr>"

text \<open>
  \<^verbatim>\<open>Init_\<close> in its two statements; \<^verbatim>\<open>AsyncLogging::Start\<close> sets the flag, starts the thread, and waits. A thread at
  \<^verbatim>\<open>pthread_once\<close> has no step while another one is in \<^verbatim>\<open>Init_\<close>.
\<close>

definition Init_new :: "string \<Rightarrow> string \<Rightarrow> logging \<Rightarrow> logging" where
  "Init_new m1 m2 s = s\<lparr>front_end := Some (AsyncLogging_new m1 m2), start_latch := CountDownLatch 1, created := Suc (created s)\<rparr>"

definition Init_start :: "logging \<Rightarrow> logging" where
  "Init_start s = s\<lparr>front_end := map_option async_Start (front_end s), thread_on := True\<rparr>"

text \<open>The first statements of \<^verbatim>\<open>AsyncLogging::ThreadFunc\<close>.\<close>

definition ThreadFunc_begin :: "string \<Rightarrow> string \<Rightarrow> logging \<Rightarrow> logging" where
  "ThreadFunc_begin m3 m4 s = s\<lparr>start_latch := CountDown (start_latch s), back_end := Some (backend_new m3 m4)\<rparr>"

inductive logging_step :: "fwrite_fun \<Rightarrow> logging \<Rightarrow> logging \<Rightarrow> bool" for fw where
  log_line: "thread_at t LIdle s \<Longrightarrow> length m = kDefaultSize_log \<Longrightarrow> list_all item_ok items \<Longrightarrow>
    LOG True m tv fileName line items = Inr (Some d) \<Longrightarrow> logging_step fw s (move t (LOnce d) s)"
| once_first: "thread_at t (LOnce d) s \<Longrightarrow> once s = OnceNever \<Longrightarrow>
    logging_step fw s (move t (LInit d) (s\<lparr>once := OnceRunning t AtNew\<rparr>))"
| once_done: "thread_at t (LOnce d) s \<Longrightarrow> once s = OnceDone \<Longrightarrow> logging_step fw s (move t (LAppend d) s)"
| init_new: "once s = OnceRunning t AtNew \<Longrightarrow> length m1 = kBigSize \<Longrightarrow> length m2 = kBigSize \<Longrightarrow>
    logging_step fw s ((Init_new m1 m2 s)\<lparr>once := OnceRunning t AtStart\<rparr>)"
| init_start: "once s = OnceRunning t AtStart \<Longrightarrow> logging_step fw s ((Init_start s)\<lparr>once := OnceRunning t AtLatch\<rparr>)"
| thread_begin: "thread_on s \<Longrightarrow> back_end s = None \<Longrightarrow> length m3 = kBigSize \<Longrightarrow> length m4 = kBigSize \<Longrightarrow>
    logging_step fw s (ThreadFunc_begin m3 m4 s)"
| init_return: "once s = OnceRunning t AtLatch \<Longrightarrow> \<not> latch_count (start_latch s) > 0 \<Longrightarrow> thread_at t (LInit d) s \<Longrightarrow>
    logging_step fw s (move t (LAppend d) (s\<lparr>once := OnceDone\<rparr>))"
| append_line: "thread_at t (LAppend d) s \<Longrightarrow> front_end s = Some a \<Longrightarrow> length m = kBigSize \<Longrightarrow>
    async_Append m d a = Inr a' \<Longrightarrow>
    logging_step fw s (move t LIdle (s\<lparr>front_end := Some a', history := history s @ [Line d]\<rparr>))"
| back_swap: "front_end s = Some a \<Longrightarrow> back_end s = Some k \<Longrightarrow> \<not> back_writing s \<Longrightarrow> running a \<Longrightarrow>
    backend_swap a k = Inr (a', k') \<Longrightarrow>
    logging_step fw s (s\<lparr>front_end := Some a', back_end := Some k', back_writing := True\<rparr>)"
| back_write: "back_end s = Some k \<Longrightarrow> back_writing s \<Longrightarrow> backend_write fw err k = Inr k' \<Longrightarrow>
    logging_step fw s (s\<lparr>back_end := Some k', back_writing := False,
      history := history s @ [if length (buffers_to_write k) > 25 then Overload else Silent]\<rparr>)"

definition logging_init :: "nat \<Rightarrow> logging" where
  "logging_init threads = \<lparr>once = OnceNever, front_end = None, thread_on = False, start_latch = CountDownLatch 1,
     back_end = None, back_writing = False, created = 0, log_pcs = replicate threads LIdle, history = []\<rparr>"

section \<open>Invariants\<close>

text \<open>Control: who is where, and what exists at each stage of the initialisation.\<close>

fun once_stage_ok :: "once_state \<Rightarrow> logging \<Rightarrow> bool" where
  "once_stage_ok OnceNever s = (front_end s = None \<and> back_end s = None \<and> \<not> thread_on s \<and> created s = 0)"
| "once_stage_ok (OnceRunning t AtNew) s = (front_end s = None \<and> back_end s = None \<and> \<not> thread_on s \<and> created s = 0)"
| "once_stage_ok (OnceRunning t AtStart) s = (front_end s \<noteq> None \<and> back_end s = None \<and> \<not> thread_on s \<and> created s = 1
     \<and> latch_count (start_latch s) = 1)"
| "once_stage_ok (OnceRunning t AtLatch) s = (front_end s \<noteq> None \<and> thread_on s \<and> created s = 1
     \<and> latch_count (start_latch s) = (if back_end s = None then 1 else 0))"
| "once_stage_ok OnceDone s = (front_end s \<noteq> None \<and> back_end s \<noteq> None \<and> thread_on s \<and> created s = 1)"

fun pc_ok :: "nat \<Rightarrow> once_state \<Rightarrow> log_pc \<Rightarrow> bool" where
  "pc_ok t o1 LIdle = (\<forall>st. o1 \<noteq> OnceRunning t st)"
| "pc_ok t o1 (LOnce d) = ((\<forall>st. o1 \<noteq> OnceRunning t st) \<and> length d < kBigSize)"
| "pc_ok t o1 (LInit d) = ((\<exists>st. o1 = OnceRunning t st) \<and> length d < kBigSize)"
| "pc_ok t o1 (LAppend d) = (o1 = OnceDone \<and> length d < kBigSize)"

definition control_inv :: "logging \<Rightarrow> bool" where
  "control_inv s = (once_stage_ok (once s) s \<and> (\<forall>t<length (log_pcs s). pc_ok t (once s) (log_pcs s ! t))
     \<and> (\<forall>t st. once s = OnceRunning t st \<longrightarrow> t < length (log_pcs s)))"

text \<open>Data: the invariants of the two sides of the logger, and where the bytes are.\<close>

definition logger_text :: "logging \<Rightarrow> string" where
  "logger_text s =
     (case back_end s of None \<Rightarrow> [] | Some k \<Rightarrow> lf_text (log_output k) @ concat (map ptr_text (buffers_to_write k)))
     @ (case front_end s of None \<Rightarrow> [] | Some a \<Rightarrow> front_text a)"

definition data_inv :: "logging \<Rightarrow> bool" where
  "data_inv s = ((\<forall>a. front_end s = Some a \<longrightarrow> front_inv a) \<and> (\<forall>k. back_end s = Some k \<longrightarrow> back_inv (back_writing s) k)
     \<and> (back_end s = None \<longrightarrow> \<not> back_writing s)
     \<and> (Overload \<notin> set (history s) \<longrightarrow> logger_text s = concat (map line_text (history s))))"

definition logging_inv :: "fwrite_fun \<Rightarrow> logging \<Rightarrow> bool" where
  "logging_inv fw s = (writable_file fw \<and> control_inv s \<and> data_inv s)"

lemma once_stage_ok_upd [simp]: "once_stage_ok o1 (s\<lparr>once := x\<rparr>) = once_stage_ok o1 s" "once_stage_ok o1 (s\<lparr>history := h\<rparr>) = once_stage_ok o1 s"
  "once_stage_ok o1 (s\<lparr>log_pcs := p\<rparr>) = once_stage_ok o1 s"
  by (cases "(o1, s)" rule: once_stage_ok.cases; auto)+

lemma control_step:
  assumes "logging_step fw s s'" and inv: "control_inv s"
  shows "control_inv s'"
  using assms(1)
proof cases
  case (log_line t m items tv fileName line d)
  have "length d < kBigSize" using LOG_line[OF log_line(3,4,5)] by (simp add: kBigSize_def kDefaultSize_log_def)
  with log_line inv show ?thesis
    by (auto simp: control_inv_def move_def thread_at_def nth_list_update)
next
  case (once_first t d)
  have pcs: "pc_ok u OnceNever (log_pcs s ! u) \<Longrightarrow> u \<noteq> t \<Longrightarrow> pc_ok u (OnceRunning t AtNew) (log_pcs s ! u)" for u
    by (cases "log_pcs s ! u") auto
  with once_first inv show ?thesis
    by (auto simp: control_inv_def move_def thread_at_def nth_list_update)
next
  case (init_return t d)
  have pcs: "pc_ok u (OnceRunning t AtLatch) (log_pcs s ! u) \<Longrightarrow> u \<noteq> t \<Longrightarrow> pc_ok u OnceDone (log_pcs s ! u)" for u
    by (cases "log_pcs s ! u") auto
  with init_return inv show ?thesis
    by (auto simp: control_inv_def move_def thread_at_def nth_list_update split: if_splits)
next
  case (init_new t m1 m2)
  have "pc_ok u (OnceRunning t AtNew) pc = pc_ok u (OnceRunning t AtStart) pc" for u pc by (cases pc) auto
  with init_new inv show ?thesis by (auto simp: control_inv_def Init_new_def CountDownLatch_def)
next
  case (init_start t)
  have "pc_ok u (OnceRunning t AtStart) pc = pc_ok u (OnceRunning t AtLatch) pc" for u pc by (cases pc) auto
  with init_start inv show ?thesis by (auto simp: control_inv_def Init_start_def)
next
  case (thread_begin m3 m4)
  with inv show ?thesis
    by (cases "(once s, s)" rule: once_stage_ok.cases) (auto simp: control_inv_def ThreadFunc_begin_def CountDown_def)
next
  case (once_done t d)
  with inv show ?thesis by (auto simp: control_inv_def move_def thread_at_def nth_list_update)
next
  case (append_line t d a m a')
  with inv have "once s = OnceDone" by (auto simp: control_inv_def thread_at_def)
  with append_line inv show ?thesis by (auto simp: control_inv_def move_def thread_at_def nth_list_update)
next
  case (back_swap a k a' k')
  with inv show ?thesis by (cases "(once s, s)" rule: once_stage_ok.cases) (auto simp: control_inv_def)
next
  case (back_write k err k')
  with inv show ?thesis by (cases "(once s, s)" rule: once_stage_ok.cases) (auto simp: control_inv_def)
qed

text \<open>The two constructors.\<close>

lemma new_front:
  "length m1 = kBigSize \<Longrightarrow> length m2 = kBigSize \<Longrightarrow>
     front_inv (AsyncLogging_new m1 m2) \<and> front_text (AsyncLogging_new m1 m2) = []"
  using empty_cleared by (simp add: AsyncLogging_new_def front_inv_def front_text_def empty_buffer_def)

lemma new_back:
  "length m3 = kBigSize \<Longrightarrow> length m4 = kBigSize \<Longrightarrow>
     back_inv False (backend_new m3 m4) \<and> buffers_to_write (backend_new m3 m4) = []
     \<and> lf_text (log_output (backend_new m3 m4)) = []"
  using empty_cleared by (simp add: backend_new_def back_inv_def LogFile_default_def LogFile_def AppendFile_def lf_text_def)

lemma start_front [simp]: "front_inv (async_Start a) = front_inv a" "front_text (async_Start a) = front_text a"
  by (simp_all add: async_Start_def front_inv_def front_text_def)

lemma logger_text_moves [simp]: "logger_text (s\<lparr>once := x\<rparr>) = logger_text s"
  "logger_text (s\<lparr>log_pcs := p\<rparr>) = logger_text s" "logger_text (s\<lparr>history := h\<rparr>) = logger_text s"
  "logger_text (s\<lparr>back_writing := w\<rparr>) = logger_text s"
  by (simp_all add: logger_text_def)

lemma data_step:
  assumes "logging_step fw s s'" and inv: "control_inv s" "data_inv s" and fw: "writable_file fw"
  shows "data_inv s'"
  using assms(1)
proof cases
  case (init_new t m1 m2)
  with inv new_front[OF init_new(3,4)] show ?thesis
    by (auto simp: control_inv_def data_inv_def Init_new_def logger_text_def)
next
  case (init_start t)
  then obtain a where "front_end s = Some a" using inv(1) by (auto simp: control_inv_def)
  with init_start inv(2) show ?thesis by (auto simp: data_inv_def Init_start_def logger_text_def)
next
  case (thread_begin m3 m4)
  with inv(2) new_back[OF thread_begin(4,5)] show ?thesis
    by (auto simp: data_inv_def ThreadFunc_begin_def logger_text_def)
next
  case (append_line t d a m a')
  have "length d < kBigSize" using append_line(2) inv(1) by (auto simp: control_inv_def thread_at_def)
  moreover have "front_inv a" using append_line(3) inv(2) by (simp add: data_inv_def)
  ultimately have "front_inv a' \<and> front_text a' = front_text a @ d"
    using async_Append_spec[of a d m] append_line(4,5) by auto
  with append_line inv(2) show ?thesis by (auto simp: data_inv_def move_def logger_text_def)
next
  case (back_swap a k a' k')
  from inv(2) back_swap have f: "front_inv a" "back_inv False k" by (auto simp: data_inv_def)
  from backend_swap_spec[OF f] back_swap inv(2) f(2) show ?thesis
    by (auto simp: data_inv_def logger_text_def back_inv_def)
next
  case (back_write k err k')
  from inv(2) back_write have b: "back_inv True k" by (auto simp: data_inv_def)
  from backend_write_spec[OF b fw, of err] back_write inv(2) show ?thesis
    by (auto simp: data_inv_def logger_text_def back_inv_def)
qed (use inv(2) in \<open>auto simp: data_inv_def move_def\<close>)

text \<open>Starting the logger and using it is a system whose invariant is the conjunction of both.\<close>

interpretation logging: step_system "logging_step fw" "logging_inv fw"
  by unfold_locales (auto simp: logging_inv_def intro: control_step data_step)

lemma logging_init_inv: "writable_file fw \<Longrightarrow> logging_inv fw (logging_init n)"
  by (simp add: logging_inv_def control_inv_def data_inv_def logging_init_def logger_text_def)

section \<open>Claims\<close>


lemma demo_logging:
  assumes "LOG True (replicate kDefaultSize_log NUL) tv file line items = Inr (Some d)" and "list_all item_ok items"
  shows "(logging_step fw)\<^sup>*\<^sup>* (logging_init 1) (move 0 (LInit d) ((logging_init 1)\<lparr>once := OnceRunning 0 AtNew\<rparr>))"
proof -
  let ?s0 = "logging_init 1"
  have "logging_step fw ?s0 (move 0 (LOnce d) ?s0)"
    by (rule logging_step.log_line[OF _ _ assms(2,1)]) (simp_all add: thread_at_def logging_init_def)
  moreover have "logging_step fw (move 0 (LOnce d) ?s0)
      (move 0 (LInit d) ((move 0 (LOnce d) ?s0)\<lparr>once := OnceRunning 0 AtNew\<rparr>))"
    by (rule logging_step.once_first) (simp_all add: thread_at_def logging_init_def move_def)
  moreover have "move 0 (LInit d) ((move 0 (LOnce d) ?s0)\<lparr>once := OnceRunning 0 AtNew\<rparr>)
      = move 0 (LInit d) (?s0\<lparr>once := OnceRunning 0 AtNew\<rparr>)"
    by (simp add: move_def logging_init_def)
  ultimately show ?thesis by (metis r_into_rtranclp rtranclp.rtrancl_into_rtrancl)
qed

lemma demo_logging_exists:
  "\<exists>s. (logging_step demo_fwrite)\<^sup>*\<^sup>* (logging_init 1) s \<and> once s = OnceRunning 0 AtNew \<and> history s = []"
proof -
  obtain d where d: "LOG True (replicate kDefaultSize_log NUL) (0, 0) [] 0 [] = Inr (Some d)"
    using LOG_total[of "replicate kDefaultSize_log NUL" "[]" "(0, 0)" "Timestamp_micros 0" "[]" 0]
    by (auto simp: Timestamp_now_def kMicroSecondsPerSecond_def int64_def)
  from demo_logging[OF d] show ?thesis
    by (intro exI[of _ "move 0 (LInit d) ((logging_init 1)\<lparr>once := OnceRunning 0 AtNew\<rparr>)"])
      (simp add: move_def logging_init_def)
qed




section \<open>A log statement inside of the initialisation\<close>

text \<open>
  An earlier version logged in \<^verbatim>\<open>Thread::Start\<close>, which runs inside of \<^verbatim>\<open>Init_\<close>; the note in the directory \<^verbatim>\<open>thread\<close>
  describes the hang. A thread that is at \<^verbatim>\<open>pthread_once\<close> while it runs the initialisation itself is
  stuck whatever the others do. The present code never gets there: \<open>control_inv\<close> excludes it.
\<close>

definition reentered :: "nat \<Rightarrow> logging \<Rightarrow> bool" where
  "reentered t s = (\<exists>d. thread_at t (LOnce d) s \<and> (\<exists>st. once s = OnceRunning t st))"

lemma reentered_step: "logging_step fw s s' \<Longrightarrow> reentered t s \<Longrightarrow> reentered t s'"
  by (cases rule: logging_step.cases)
    (auto simp: reentered_def thread_at_def move_def nth_list_update Init_new_def Init_start_def ThreadFunc_begin_def)

lemma reentered_forever: "(logging_step fw)\<^sup>*\<^sup>* s s' \<Longrightarrow> reentered t s \<Longrightarrow> reentered t s'"
  by (induction rule: rtranclp_induct) (auto intro: reentered_step)

lemma never_reentered: "control_inv s \<Longrightarrow> \<not> reentered t s"
  by (auto simp: reentered_def control_inv_def thread_at_def)

end
