(* ===== verification/ThreadPool.thy ===== *)
theory ThreadPool
  imports Sync
begin

text \<open>
  \<^verbatim>\<open>thread/thread.cc\<close> and \<^verbatim>\<open>thread/threadpool.cc\<close>: threads and the bounded task queue of the thread pool. A body that runs under the mutex
  is one step; a wait on a condition variable splits it. A task is a value of the type \<open>'f\<close>.
\<close>

section \<open>Thread\<close>

record thread =
  thr_started :: bool
  thr_joined :: bool
  thr_name :: string

definition Thread_new :: "string \<Rightarrow> thread" where
  "Thread_new name = \<lparr>thr_started = False, thr_joined = False,
     thr_name = (if name = [] then ''default'' else name)\<rparr>"

text \<open>\<open>ret\<close> is the result of \<^verbatim>\<open>pthread_create\<close>; the process exits if it is not zero.\<close>

definition Thread_Start :: "int \<Rightarrow> thread \<Rightarrow> thread res" where
  "Thread_Start ret t = assert_then (\<not> thr_started t)
     (let t1 = t\<lparr>thr_started := True\<rparr> in if ret \<noteq> 0 then Inl Aborted else Inr t1)"

definition Thread_Join :: "thread \<Rightarrow> thread res" where
  "Thread_Join t = assert_then (thr_started t) (assert_then (\<not> thr_joined t) (Inr (t\<lparr>thr_joined := True\<rparr>)))"

text \<open>The destructor detaches a thread that was started and never joined.\<close>

definition Thread_detaches :: "thread \<Rightarrow> bool" where
  "Thread_detaches t = (thr_started t \<and> \<not> thr_joined t)"

text \<open>
  What a thread knows of itself: \<^verbatim>\<open>t_tid\<close> and \<^verbatim>\<open>t_name\<close>, thread local variables that the start routine sets before it
  calls the function. \<open>self\<close> is the result of \<^verbatim>\<open>pthread_self\<close>.
\<close>

record current_thread =
  t_tid :: int
  t_name :: string

definition main_thread :: current_thread where
  "main_thread = \<lparr>t_tid = 0, t_name = ''unknown''\<rparr>"

definition RunInThread :: "int \<Rightarrow> thread \<Rightarrow> (current_thread \<Rightarrow> 'a) \<Rightarrow> 'a" where
  "RunInThread self t func = func (main_thread\<lparr>t_tid := self, t_name := thr_name t\<rparr>)"

definition StartRoutine :: "int \<Rightarrow> thread \<Rightarrow> (current_thread \<Rightarrow> 'a) \<Rightarrow> 'a" where
  "StartRoutine self t func = RunInThread self t func"

section \<open>ThreadPool\<close>

record 'f thread_pool =
  max_queue_size :: nat
  pool_name :: string
  pool_running :: bool
  worker_threads :: "thread list"
  task_queue :: "'f list"

definition ThreadPool_new :: "nat \<Rightarrow> string \<Rightarrow> 'f thread_pool" where
  "ThreadPool_new m name = \<lparr>max_queue_size = m, pool_name = name, pool_running = False,
     worker_threads = [], task_queue = []\<rparr>"

definition ThreadPool_Start :: "nat \<Rightarrow> (nat \<Rightarrow> string) \<Rightarrow> 'f thread_pool \<Rightarrow> 'f thread_pool res" where
  "ThreadPool_Start n to_string p = assert_then (\<not> pool_running p)
     (Inr (p\<lparr>pool_running := True, worker_threads :=
        map (\<lambda>i. (Thread_new (pool_name p @ to_string (i + 1)))\<lparr>thr_started := True\<rparr>) [0..<n]\<rparr>))"

fun join_all :: "thread list \<Rightarrow> thread list res" where
  "join_all [] = Inr []"
| "join_all (t # ts) = rbind (Thread_Join t) (\<lambda>t'. rbind (join_all ts) (\<lambda>ts'. Inr (t' # ts')))"

definition ThreadPool_Stop :: "'f thread_pool \<Rightarrow> 'f thread_pool res" where
  "ThreadPool_Stop p =
     (let p1 = p\<lparr>pool_running := False\<rparr>
      in rbind (join_all (worker_threads p1)) (\<lambda>ts. Inr (p1\<lparr>worker_threads := ts\<rparr>)))"

definition ThreadPool_destroy :: "'f thread_pool \<Rightarrow> 'f thread_pool res" where
  "ThreadPool_destroy p = (if pool_running p then ThreadPool_Stop p else Inr p)"

text \<open>
  The two monitor operations, tried once with the mutex held. \<^verbatim>\<open>PushTask\<close> without workers
  runs the task itself; \<open>None\<close> means that the caller waits.
\<close>

definition must_wait_full :: "'f thread_pool \<Rightarrow> bool" where
  "must_wait_full p = (max_queue_size p > 0 \<and> length (task_queue p) \<ge> max_queue_size p)"

definition PushTask :: "'f \<Rightarrow> 'f thread_pool \<Rightarrow> ('f thread_pool \<times> 'f option) res option" where
  "PushTask t p =
     (if worker_threads p = [] then Some (Inr (p, Some t))
      else if must_wait_full p then None
      else Some (assert_then (length (task_queue p) \<le> max_queue_size p)
             (Inr (p\<lparr>task_queue := task_queue p @ [t]\<rparr>, None))))"

definition must_wait_empty :: "'f thread_pool \<Rightarrow> bool" where
  "must_wait_empty p = (task_queue p = [] \<and> pool_running p)"

definition PopTask :: "'f thread_pool \<Rightarrow> ('f thread_pool \<times> 'f option) res option" where
  "PopTask p =
     (if must_wait_empty p then None
      else Some (case task_queue p of
             [] \<Rightarrow> Inr (p, None)
           | t # ts \<Rightarrow> assert_then (length ts < max_queue_size p) (Inr (p\<lparr>task_queue := ts\<rparr>, Some t))))"

section \<open>The monitor\<close>

text \<open>
  The threads around the pool: \<open>at_pop\<close> workers are about to call \<^verbatim>\<open>PopTask\<close>, \<open>busy\<close>
  ones run a task, \<open>wait_empty\<close> ones wait and \<open>woken_empty\<close> ones have been woken and must ask
  again. \<open>wait_full\<close> and \<open>woken_full\<close> are the same for producers, with their tasks.
  \<open>pushed\<close> and \<open>popped\<close> are the histories of the queue.
\<close>

record 'f pool_sys =
  pool :: "'f thread_pool"
  at_pop :: nat
  busy :: nat
  wait_empty :: nat
  woken_empty :: nat
  wait_full :: "'f list"
  woken_full :: "'f list"
  pushed :: "'f list"
  popped :: "'f list"

text \<open>\<^verbatim>\<open>notify\<close> wakes one waiter if there is one.\<close>

definition notify_empty :: "'f pool_sys \<Rightarrow> 'f pool_sys" where
  "notify_empty s = (if wait_empty s > 0
     then s\<lparr>wait_empty := wait_empty s - 1, woken_empty := Suc (woken_empty s)\<rparr> else s)"

definition notify_full :: "'f pool_sys \<Rightarrow> 'f pool_sys" where
  "notify_full s = (case wait_full s of [] \<Rightarrow> s
     | t # ts \<Rightarrow> s\<lparr>wait_full := ts, woken_full := woken_full s @ [t]\<rparr>)"

text \<open>A producer with the mutex, and a worker with the mutex.\<close>

definition try_push :: "'f \<Rightarrow> 'f pool_sys \<Rightarrow> 'f pool_sys res" where
  "try_push t s =
     (case PushTask t (pool s) of
        None \<Rightarrow> Inr (s\<lparr>wait_full := wait_full s @ [t]\<rparr>)
      | Some (Inl e) \<Rightarrow> Inl e
      | Some (Inr (p, Some t')) \<Rightarrow> Inr s
      | Some (Inr (p, None)) \<Rightarrow> Inr (notify_empty (s\<lparr>pool := p, pushed := pushed s @ [t]\<rparr>)))"

definition try_pop :: "'f pool_sys \<Rightarrow> 'f pool_sys res" where
  "try_pop s =
     (case PopTask (pool s) of
        None \<Rightarrow> Inr (s\<lparr>wait_empty := Suc (wait_empty s)\<rparr>)
      | Some (Inl e) \<Rightarrow> Inl e
      | Some (Inr (p, None)) \<Rightarrow> Inr (s\<lparr>pool := p, busy := Suc (busy s)\<rparr>)
      | Some (Inr (p, Some t)) \<Rightarrow>
          (let s1 = s\<lparr>pool := p, busy := Suc (busy s), popped := popped s @ [t]\<rparr>
           in Inr (if max_queue_size p > 0 then notify_full s1 else s1)))"

inductive pool_step :: "'f pool_sys \<Rightarrow> 'f pool_sys res \<Rightarrow> bool" where
  push: "pool_step s (try_push t s)"
| push_again: "woken_full s = t # ts \<Longrightarrow> pool_step s (try_push t (s\<lparr>woken_full := ts\<rparr>))"
| pop: "at_pop s = Suc n \<Longrightarrow> pool_step s (try_pop (s\<lparr>at_pop := n\<rparr>))"
| pop_again: "woken_empty s = Suc n \<Longrightarrow> pool_step s (try_pop (s\<lparr>woken_empty := n\<rparr>))"
| task_done: "busy s = Suc n \<Longrightarrow> pool_running (pool s) \<Longrightarrow>
    pool_step s (Inr (s\<lparr>busy := n, at_pop := Suc (at_pop s)\<rparr>))"
| worker_exit: "busy s = Suc n \<Longrightarrow> \<not> pool_running (pool s) \<Longrightarrow> pool_step s (Inr (s\<lparr>busy := n\<rparr>))"
| spurious_empty: "wait_empty s = Suc n \<Longrightarrow>
    pool_step s (Inr (s\<lparr>wait_empty := n, woken_empty := Suc (woken_empty s)\<rparr>))"
| spurious_full: "wait_full s = t # ts \<Longrightarrow>
    pool_step s (Inr (s\<lparr>wait_full := ts, woken_full := woken_full s @ [t]\<rparr>))"
| stop: "pool_step s (Inr (s\<lparr>pool := (pool s)\<lparr>pool_running := False\<rparr>, wait_empty := 0,
    woken_empty := woken_empty s + wait_empty s\<rparr>))"

inductive pool_reach :: "'f pool_sys \<Rightarrow> 'f pool_sys \<Rightarrow> bool" where
  pool_here: "pool_reach s s"
| pool_there: "pool_reach s s1 \<Longrightarrow> pool_step s1 (Inr s2) \<Longrightarrow> pool_reach s s2"

text \<open>A pool with \<open>n\<close> workers after \<^verbatim>\<open>Start\<close>.\<close>

definition pool_init :: "nat \<Rightarrow> nat \<Rightarrow> 'f pool_sys" where
  "pool_init m n = \<lparr>pool = \<lparr>max_queue_size = m, pool_name = [], pool_running = True,
       worker_threads = replicate n ((Thread_new [])\<lparr>thr_started := True\<rparr>), task_queue = []\<rparr>,
     at_pop = n, busy = 0, wait_empty = 0, woken_empty = 0, wait_full = [], woken_full = [],
     pushed = [], popped = []\<rparr>"

definition monitor_inv :: "nat \<Rightarrow> 'f pool_sys \<Rightarrow> bool" where
  "monitor_inv m s =
     (max_queue_size (pool s) = m \<and> worker_threads (pool s) \<noteq> []
     \<and> length (task_queue (pool s)) \<le> m \<and> popped s @ task_queue (pool s) = pushed s
     \<and> (task_queue (pool s) \<noteq> [] \<and> wait_empty s > 0 \<longrightarrow> at_pop s + busy s + woken_empty s > 0)
     \<and> (\<not> pool_running (pool s) \<longrightarrow> wait_empty s = 0)
     \<and> (wait_full s \<noteq> [] \<longrightarrow> m \<le> length (task_queue (pool s)) + length (woken_full s)))"

lemma try_push_keeps:
  assumes "monitor_inv m s" and "m > 0"
  shows "\<exists>s'. try_push t s = Inr s' \<and> monitor_inv m s'"
  using assms
  by (cases "wait_full s")
    (auto simp: try_push_def PushTask_def must_wait_full_def monitor_inv_def notify_empty_def)

lemma try_pop_inv:
  assumes "monitor_inv m s" and "m > 0"
  shows "\<exists>s'. try_pop s = Inr s' \<and> monitor_inv m s'"
  using assms
  by (cases "task_queue (pool s)"; cases "wait_full s")
    (auto simp: try_pop_def PopTask_def must_wait_empty_def monitor_inv_def notify_full_def Let_def)

lemma try_push_again:
  assumes "monitor_inv m s" and "m > 0" and "woken_full s = w # ws"
  shows "\<exists>s'. try_push w (s\<lparr>woken_full := ws\<rparr>) = Inr s' \<and> monitor_inv m s'"
  using assms
  by (cases "wait_full s")
    (auto simp: try_push_def PushTask_def must_wait_full_def monitor_inv_def notify_empty_def)

lemma try_pop_entering:
  assumes "monitor_inv m s" and "m > 0"
  shows "at_pop s = Suc n \<Longrightarrow> \<exists>s'. try_pop (s\<lparr>at_pop := n\<rparr>) = Inr s' \<and> monitor_inv m s'"
    and "woken_empty s = Suc n \<Longrightarrow> \<exists>s'. try_pop (s\<lparr>woken_empty := n\<rparr>) = Inr s' \<and> monitor_inv m s'"
  using assms
  by (cases "task_queue (pool s)"; cases "wait_full s";
      auto simp: try_pop_def PopTask_def must_wait_empty_def monitor_inv_def notify_full_def Let_def)+

lemma monitor_step:
  assumes "pool_step s r" and "monitor_inv m s" and "m > 0"
  shows "\<exists>s'. r = Inr s' \<and> monitor_inv m s'"
  using assms
proof (cases rule: pool_step.cases)
  case (push t)
  then show ?thesis using try_push_keeps [OF assms(2,3)] by simp
next
  case (push_again t ts)
  then show ?thesis using try_push_again [OF assms(2,3)] by simp
next
  case (pop n)
  then show ?thesis using try_pop_entering(1) [OF assms(2,3)] by simp
next
  case (pop_again n)
  then show ?thesis using try_pop_entering(2) [OF assms(2,3)] by simp
qed (use assms(2) in \<open>auto simp: monitor_inv_def\<close>)

lemma monitor_init: "n > 0 \<Longrightarrow> monitor_inv m (pool_init m n)"
  by (auto simp: monitor_inv_def pool_init_def)

lemma monitor_reach:
  "pool_reach s0 s \<Longrightarrow> monitor_inv m s0 \<Longrightarrow> m > 0 \<Longrightarrow> monitor_inv m s"
  by (induction rule: pool_reach.induct) (use monitor_step in fastforce)+

lemma pool_step_grows:
  "pool_step s (Inr t) \<Longrightarrow> prefix (pushed s) (pushed t) \<and> prefix (popped s) (popped t)"
  by (cases rule: pool_step.cases)
    (auto simp: try_push_def try_pop_def notify_empty_def notify_full_def Let_def
      split: option.splits sum.splits if_splits list.splits prod.splits)

text \<open>The task queue is a channel from producers to workers.\<close>

interpretation tq: fifo_channel "\<lambda>s t. pool_step s (Inr t)" "monitor_inv (Suc m)" pushed popped
    "\<lambda>s. task_queue (pool s)"
proof
  fix s t :: "'f pool_sys"
  assume inv: "monitor_inv (Suc m) s"
  show "popped s @ task_queue (pool s) = pushed s" using inv by (simp add: monitor_inv_def)
  assume step: "pool_step s (Inr t)"
  show "monitor_inv (Suc m) t" using monitor_step[OF step inv] by simp
  show "prefix (pushed s) (pushed t)" and "prefix (popped s) (popped t)"
    using pool_step_grows[OF step] by simp_all
qed

lemma tasks_in_order:
  "monitor_inv (Suc m) s \<Longrightarrow> (\<lambda>s t. pool_step s (Inr t))\<^sup>*\<^sup>* s t \<Longrightarrow>
     length (pushed s) \<le> length (popped t) \<Longrightarrow> prefix (pushed s) (popped t)"
  by (rule tq.first_in_first_out)

text \<open>
  Claim C22. The bounded task queue is correct in every interleaving of producers, workers and a call
  of \<^verbatim>\<open>Stop\<close>, with spurious wakeups. For a positive \<^verbatim>\<open>max_queue_size_\<close> and at least one
  worker no assertion of \<^verbatim>\<open>PushTask\<close> or \<^verbatim>\<open>PopTask\<close> ever fails; the queue never exceeds its bound; the tasks
  taken out followed by those in the queue are the tasks put in, in order; and no wakeup is lost:
  a worker sleeps beside a task only while another worker is awake, a producer sleeps beside free room
  only while a woken producer is about to take it, and after \<^verbatim>\<open>Stop\<close> no worker sleeps.
\<close>
theorem pool_safety:
  fixes s :: "'f pool_sys"
  assumes "m > 0" and "n > 0" and "pool_reach (pool_init m n) s"
  shows "(\<forall>r. pool_step s r \<longrightarrow> (\<exists>s'. r = Inr s'))
    \<and> length (task_queue (pool s)) \<le> m \<and> popped s @ task_queue (pool s) = pushed s
    \<and> (task_queue (pool s) \<noteq> [] \<and> wait_empty s > 0 \<longrightarrow> at_pop s + busy s + woken_empty s > 0)
    \<and> (wait_full s \<noteq> [] \<and> length (task_queue (pool s)) < m \<longrightarrow> woken_full s \<noteq> [])
    \<and> (\<not> pool_running (pool s) \<longrightarrow> wait_empty s = 0)"
proof -
  have inv: "monitor_inv m s"
    using monitor_reach [OF assms(3) monitor_init [OF assms(2)] assms(1)] .
  have "\<forall>r. pool_step s r \<longrightarrow> (\<exists>s'. r = Inr s')" using monitor_step [OF _ inv assms(1)] by blast
  moreover have "wait_full s \<noteq> [] \<and> length (task_queue (pool s)) < m \<longrightarrow> woken_full s \<noteq> []"
    using inv by (cases "woken_full s") (auto simp: monitor_inv_def)
  ultimately show ?thesis using inv by (simp add: monitor_inv_def)
qed

text \<open>One worker, a queue of one task, two producers: the second has to wait.\<close>

definition pool_run :: "nat pool_sys" where
  "pool_run = (pool_init 1 1)\<lparr>pool := (pool (pool_init 1 1))\<lparr>task_queue := [7]\<rparr>, pushed := [7],
     wait_full := [8]\<rparr>"

lemma pool_run_reach: "pool_reach (pool_init 1 1) pool_run"
proof -
  let ?s0 = "pool_init 1 1 :: nat pool_sys"
  let ?s1 = "?s0\<lparr>pool := (pool ?s0)\<lparr>task_queue := [7]\<rparr>, pushed := [7]\<rparr>"
  have 1: "try_push 7 ?s0 = Inr ?s1"
    by (simp add: try_push_def PushTask_def must_wait_full_def pool_init_def notify_empty_def)
  have 2: "try_push 8 ?s1 = Inr pool_run"
    by (simp add: try_push_def PushTask_def must_wait_full_def pool_init_def pool_run_def)
  have "pool_reach ?s0 ?s1"
    by (rule pool_there [OF pool_here]) (use push [of ?s0 7] 1 in simp)
  then show ?thesis
    by (rule pool_there) (use push [of ?s1 8] 2 in simp)
qed

lemma pool_safety_witness:
  "popped pool_run @ task_queue (pool pool_run) = pushed pool_run
     \<and> (\<exists>s'. try_push 9 pool_run = Inr s') \<and> wait_full pool_run = [8]"
  using pool_safety [OF _ _ pool_run_reach] push [of pool_run 9]
  by (simp add: pool_run_def)

text \<open>
  A pool whose \<^verbatim>\<open>max_queue_size_\<close> is zero, which the guards of both operations treat as
  an unbounded queue, accepts one task and then fails: the second \<^verbatim>\<open>PushTask\<close> and every
  \<^verbatim>\<open>PopTask\<close> with a task in the queue end in a failing assertion.
\<close>
lemma unbounded_pool_asserts:
  fixes p :: "'f thread_pool"
  assumes "max_queue_size p = 0" and "worker_threads p \<noteq> []" and "task_queue p = []"
  shows "\<exists>p1. PushTask t p = Some (Inr (p1, None)) \<and> PushTask t' p1 = Some (Inl AssertFail)
           \<and> PopTask p1 = Some (Inl AssertFail)"
  using assms by (simp add: PushTask_def PopTask_def must_wait_full_def must_wait_empty_def)

lemma unbounded_pool_witness:
  "\<exists>p1. PushTask (3::nat) (pool (pool_init 0 2)) = Some (Inr (p1, None))
     \<and> PopTask p1 = Some (Inl AssertFail)"
proof -
  have "max_queue_size (pool (pool_init 0 2 :: nat pool_sys)) = 0"
    and "worker_threads (pool (pool_init 0 2 :: nat pool_sys)) \<noteq> []"
    and "task_queue (pool (pool_init 0 2 :: nat pool_sys)) = []"
    by (simp_all add: pool_init_def)
  from unbounded_pool_asserts [OF this] show ?thesis by blast
qed

section \<open>Producers that wait when the pool stops\<close>

text \<open>
  \<^verbatim>\<open>Stop\<close> wakes the workers only. Once they have left and the queue is full, no step of any thread puts another task
  into the queue: the producers that wait, and all that come later, block forever.
\<close>

definition deserted :: "'f pool_sys \<Rightarrow> bool" where
  "deserted s = (at_pop s = 0 \<and> busy s = 0 \<and> wait_empty s = 0 \<and> woken_empty s = 0
     \<and> must_wait_full (pool s) \<and> worker_threads (pool s) \<noteq> [])"

lemma deserted_step: "pool_step s (Inr t) \<Longrightarrow> deserted s \<Longrightarrow> deserted t \<and> pushed t = pushed s"
  by (cases rule: pool_step.cases)
    (auto simp: deserted_def try_push_def PushTask_def must_wait_full_def split: if_splits)

lemma deserted_forever: "pool_reach s t \<Longrightarrow> deserted s \<Longrightarrow> deserted t \<and> pushed t = pushed s"
  by (induction rule: pool_reach.induct) (auto dest: deserted_step)

lemma stop_strands_producer:
  "\<exists>s. pool_reach (pool_init 1 1) s \<and> deserted s \<and> wait_full s = [9 :: nat] \<and> task_queue (pool s) = [8]"
proof -
  let ?p = "\<lambda>run q. (pool (pool_init 1 1 :: nat pool_sys))\<lparr>pool_running := run, task_queue := q\<rparr>"
  let ?s3 = "(pool_init 1 1)\<lparr>pool := ?p True [7], pushed := [7], wait_full := [8, 9]\<rparr>"
  let ?s4 = "(pool_init 1 1)\<lparr>pool := ?p False [7], pushed := [7], wait_full := [8, 9]\<rparr>"
  let ?s5 = "(pool_init 1 1)\<lparr>pool := ?p False [], at_pop := 0, busy := 1, pushed := [7], popped := [7],
      wait_full := [9], woken_full := [8]\<rparr>"
  let ?s6 = "(pool_init 1 1)\<lparr>pool := ?p False [], at_pop := 0, busy := 0, pushed := [7], popped := [7],
      wait_full := [9], woken_full := [8]\<rparr>"
  let ?s7 = "(pool_init 1 1)\<lparr>pool := ?p False [8], at_pop := 0, busy := 0, pushed := [7, 8], popped := [7],
      wait_full := [9], woken_full := []\<rparr>"
  note d = try_push_def PushTask_def must_wait_full_def pool_init_def notify_empty_def notify_full_def
    try_pop_def PopTask_def must_wait_empty_def
  have "pool_reach (pool_init 1 1) ?s3"
    by (rule pool_there [OF pool_run_reach]) (use push [of pool_run 9] in \<open>simp add: d pool_run_def\<close>)
  then have "pool_reach (pool_init 1 1) ?s4"
    by (rule pool_there) (use stop [of ?s3] in \<open>simp add: d\<close>)
  then have "pool_reach (pool_init 1 1) ?s5"
    by (rule pool_there) (use pop [of ?s4 0] in \<open>simp add: d\<close>)
  then have "pool_reach (pool_init 1 1) ?s6"
    by (rule pool_there) (use worker_exit [of ?s5 0] in \<open>simp add: d\<close>)
  then have "pool_reach (pool_init 1 1) ?s7"
    by (rule pool_there) (use push_again [of ?s6 8 "[]"] in \<open>simp add: d\<close>)
  moreover have "deserted ?s7" by (simp add: deserted_def d)
  ultimately show ?thesis by (intro exI [of _ ?s7]) simp
qed

lemma join_started: "\<forall>t \<in> set ts. thr_started t \<and> \<not> thr_joined t \<Longrightarrow>
    join_all ts = Inr (map (thr_joined_update (\<lambda>_. True)) ts)"
proof (induction ts)
  case (Cons t ts)
  have "thr_started t" and "\<not> thr_joined t" using Cons.prems by simp_all
  then have "Thread_Join t = Inr (t\<lparr>thr_joined := True\<rparr>)"
    unfolding Thread_Join_def assert_then_def by simp
  moreover have "join_all ts = Inr (map (thr_joined_update (\<lambda>_. True)) ts)"
    by (rule Cons.IH) (use Cons.prems in \<open>meson list.set_intros(2)\<close>)
  ultimately show ?case by simp
qed simp

lemma join_joined: "ts \<noteq> [] \<Longrightarrow> \<forall>t \<in> set ts. thr_joined t \<Longrightarrow> join_all ts = Inl AssertFail"
  by (cases ts) (auto simp: Thread_Join_def assert_then_def)

lemma Start_threads:
  "ThreadPool_Start n f p = Inr p' \<Longrightarrow> length (worker_threads p') = n
     \<and> (\<forall>t \<in> set (worker_threads p'). thr_started t \<and> \<not> thr_joined t)"
  by (auto simp: ThreadPool_Start_def Thread_new_def)

text \<open>
  A pool that \<^verbatim>\<open>Start\<close> has given a worker is stopped by one call of \<^verbatim>\<open>Stop\<close>, which
  joins every worker, so that the destructor does nothing more; a second call of \<^verbatim>\<open>Stop\<close> ends in the
  failing assertion of \<^verbatim>\<open>Thread::Join\<close>, although the comment above it calls it harmless. The stopped
  pool can be started again, with fresh workers.
\<close>
theorem stop_once:
  assumes "ThreadPool_Start n f p = Inr p1" and "n > 0"
  shows "\<exists>p2. ThreadPool_Stop p1 = Inr p2 \<and> \<not> pool_running p2
           \<and> (\<forall>t \<in> set (worker_threads p2). thr_joined t)
           \<and> ThreadPool_destroy p2 = Inr p2 \<and> ThreadPool_Stop p2 = Inl AssertFail
           \<and> (\<exists>p3. ThreadPool_Start k f p2 = Inr p3 \<and> length (worker_threads p3) = k)"
proof -
  from Start_threads [OF assms(1)] have ts: "length (worker_threads p1) = n"
    "\<forall>t \<in> set (worker_threads p1). thr_started t \<and> \<not> thr_joined t" by blast+
  let ?p2 = "p1\<lparr>pool_running := False,
    worker_threads := map (thr_joined_update (\<lambda>_. True)) (worker_threads p1)\<rparr>"
  have "ThreadPool_Stop p1 = Inr ?p2"
    using join_started [OF ts(2)] by (simp add: ThreadPool_Stop_def)
  moreover have "ThreadPool_Stop ?p2 = Inl AssertFail"
    using join_joined [of "worker_threads ?p2"] ts(1) assms(2) by (auto simp: ThreadPool_Stop_def)
  ultimately show ?thesis
    by (intro exI [of _ ?p2]) (auto simp: ThreadPool_destroy_def ThreadPool_Start_def)
qed

lemma stop_once_witness:
  "\<exists>p1 p2 :: nat thread_pool. ThreadPool_Start 2 (\<lambda>i. [CHR ''w'']) (ThreadPool_new 4 ''pool'') = Inr p1
     \<and> ThreadPool_Stop p1 = Inr p2 \<and> ThreadPool_Stop p2 = Inl AssertFail"
proof -
  obtain p1 :: "nat thread_pool"
    where 1: "ThreadPool_Start 2 (\<lambda>i. [CHR ''w'']) (ThreadPool_new 4 ''pool'') = Inr p1"
    by (simp add: ThreadPool_Start_def ThreadPool_new_def)
  from stop_once [OF 1] show ?thesis using 1 by auto
qed

end
