(* ===== verification/Spec2Isabelle.thy ===== *)
theory Spec2Isabelle
  imports Progress Shutdown Callbacks Logging ThreadPool
begin

text \<open>
  \<^bold>\<open>A verification of the network library yxAlpha.\<close>

  yxAlpha is a C++ library for event driven TCP servers (namespace \<^verbatim>\<open>yxalp\<close>): one loop per thread
  waits for descriptors, a server thread accepts connections and deals them to the I/O threads, an
  HTTP server parses requests and answers them, and an asynchronous logger writes what they log.
  This development translates that code into HOL definitions, operation by operation, and proves
  the properties that make it correct. File names below are relative to the sources.

  \<^bold>\<open>Conventions.\<close>
  A class is a \<open>record\<close> with the fields of the class, an enumeration a \<open>datatype\<close>. A method is a
  function from the old record to the new one. A method that can fail returns \<open>'a res\<close>, a sum whose
  left side is a \<open>fault\<close>: a failing \<^verbatim>\<open>assert\<close> (the makefiles do not define \<^verbatim>\<open>NDEBUG\<close>), an abort, an
  access outside of an object, a null pointer, a signed overflow. Memory is a list of cells that is
  read and written with a check. The results of system calls (\<^verbatim>\<open>write\<close>, \<^verbatim>\<open>readv\<close>, \<^verbatim>\<open>epoll_wait\<close>, \<^verbatim>\<open>accept4\<close>,
  \<^verbatim>\<open>fwrite\<close>) and the callbacks of the user are arguments. Where a method runs in one thread and
  hands work to another, the work is data: a value of a task type in the queue of the other thread.
  Code under a mutex is one step; other threads act between the steps of an inductive step relation.

  \<^bold>\<open>Theories, in the order of the layers.\<close>
  \<^item> \<open>Prelude\<close>: faults, sequencing, checked memory, and the contracts of interleavings as locales:
    \<open>step_system\<close> (an invariant that each step keeps), \<open>step_refinement\<close> (a detailed system whose steps are
    runs of an abstract one), \<open>fifo_channel\<close> (what passes items on in order); \<open>conn_property\<close> and \<open>message_effect\<close> in \<open>HttpSystem\<close> carry a property of one
    connection through all operations of the server and through the answer to one message. Each is interpreted on the
    step relations of the theories below, and their claims rest on its facts.
  \<^item> \<open>CLib\<close>: what the sources use of the C and C++ libraries: decimal numbers, \<^verbatim>\<open>std::find\<close>,
    \<^verbatim>\<open>isspace\<close>, \<^verbatim>\<open>strncmp\<close>, \<^verbatim>\<open>snprintf\<close> and \<^verbatim>\<open>std::map\<close> (sorted association lists; locale
    \<open>string_map\<close>).
  \<^item> \<open>Buffer\<close> (\<^verbatim>\<open>utility/buffer.h\<close>, \<^verbatim>\<open>utility/buffer.cc\<close>): the byte buffer with its vector and two indices.
    Refinement of every run to a plain string (locale \<open>byte_queue\<close>); no access leaves the vector.
  \<^item> \<open>HttpRequest\<close>, \<open>HttpContext\<close>, \<open>HttpResponse\<close> (\<^verbatim>\<open>http/httprequest.h\<close>, \<^verbatim>\<open>http/httpcontext.cc\<close>,
    \<^verbatim>\<open>http/httpresponse.cc\<close>): requests, the incremental parser, responses. The parse loop may run forever, so it is
    a \<open>partial_function (option)\<close> in which \<open>None\<close> is a call that does not return; \<open>request_spec\<close> is
    its line by line specification and the refinement covers that case too. Printing a request and
    parsing it, and printing a response and splitting it, are inverse.
  \<^item> \<open>EventHandler\<close>, \<open>Selector\<close>, \<open>Dispatcher\<close>, \<open>DispatcherPool\<close> (\<^verbatim>\<open>reactor/\<close>): interest masks and event dispatch,
    epoll, the event loop with its queue of functions and its wakeup descriptor, the I/O threads.
    The step relation \<open>disp_step\<close> interleaves the loop with callers of \<^verbatim>\<open>QueueInLoop\<close> and \<^verbatim>\<open>Quit\<close> in other
    threads, split where another thread can see the difference; its invariants say that no wakeup
    is lost and that every function is called once, in order.
  \<^item> \<open>TcpConnection\<close> (\<^verbatim>\<open>net/tcpconnection.cc\<close>): the state machine of a connection, direct and buffered
    output, half close, the event callbacks, and the functions it queues in its loop.
  \<^item> \<open>InetAddr\<close>, \<open>Acceptor\<close>, \<open>TcpServer\<close> (\<^verbatim>\<open>net/inetaddr.cc\<close>, \<^verbatim>\<open>net/socket.cc\<close>, \<^verbatim>\<open>net/acceptor.cc\<close>, \<^verbatim>\<open>net/tcpserver.cc\<close>): addresses,
    sockets, the accept loop, and the server with its map of connections. \<open>net_step\<close> interleaves
    accepting, the queues of all threads, closing peers and the activity of open connections.
  \<^item> \<open>Lifetime\<close>: the references to a connection object; it lives exactly until its destruction has run in its own loop.
  \<^item> \<open>HttpServer\<close> (\<^verbatim>\<open>http/httpserver.cc\<close>, the callback of \<^verbatim>\<open>http/httptest.cc\<close>): callbacks on a connection; whole
    keep alive sessions.
  \<^item> \<open>HttpSystem\<close>, \<open>HttpExample\<close>: the server as a whole. \<open>http_step\<close> interleaves accepts, the queued functions of all
    threads, closes, messages and writable events; \<open>replay\<close> says what one client receives for its own input. The system
    implements \<open>net_step\<close>, and its initial state is the one that \<^verbatim>\<open>main\<close> of \<^verbatim>\<open>http/httptest.cc\<close> builds.
  \<^item> \<open>Callbacks\<close> (\<^verbatim>\<open>net/callback.h\<close>): the callbacks as members of the objects, set and copied where the sources do so. The server that
    reads them there is equivalent to the one of \<open>HttpSystem\<close>, which gets them as arguments, and its connections queue no function.
  \<^item> \<open>LoopSystem\<close>: the same server on its event loops. Each thread has a dispatcher of \<open>Dispatcher\<close>, which polls, swaps its queue, calls the
    functions one by one and is woken by others; \<open>server_step\<close> interleaves all of that, and implements \<open>http_step\<close>. A turn of one loop
    does all that waits for it.
  \<^item> \<open>Epoll\<close>: the requests that the program sends to \<^verbatim>\<open>epoll\<close> for a connection, against a kernel given by the laws of its manual page, and the
    destructors of \<^verbatim>\<open>TcpConnection\<close>, \<^verbatim>\<open>EventHandler\<close> and \<^verbatim>\<open>Socket\<close>.
  \<^item> \<open>Interest\<close>: the interest lists of all loops together, with descriptors that are used again; \<open>kernel_step\<close> is a step of the server followed by
    the requests it made.
  \<^item> \<open>PollSystem\<close>: the server driven by its polls. \<^verbatim>\<open>epoll_wait\<close> reports entries of the interest list, and the loop calls the handlers of
    the batch one after another through the pointers of the report; \<open>poll_step\<close> implements \<open>kernel_step\<close>, and no pending call is one of a
    destroyed connection.
  \<^item> \<open>Progress\<close>: from a poll to the answer. Input on an open connection of a polling loop is reported, dispatched and answered in that turn.
  \<^item> \<open>Shutdown\<close>: the first step of \<^verbatim>\<open>~TcpServer\<close>, which breaks that: it destroys open connections under the loops that still call them.
  \<^item> \<open>Timestamp\<close> (\<^verbatim>\<open>time/timestamp.cc\<close>, \<^verbatim>\<open>time/timer.h\<close>): time stamps as a linear order, the calendar, both texts, timers.
  \<^item> \<open>Sync\<close> (\<^verbatim>\<open>thread/mutex.h\<close>, \<^verbatim>\<open>thread/condition.h\<close>, \<^verbatim>\<open>thread/countdownlatch.h\<close>): mutex and condition variable, and the latch
    twice, as operations of one step and with every lock and wait; the second implements the first.
  \<^item> \<open>LogStream\<close>, \<open>LogLine\<close>, \<open>LogFile\<close>, \<open>AsyncLogging\<close>, \<open>Logging\<close> (\<^verbatim>\<open>logger/\<close>): formatting into a fixed buffer, the log
    line with its time and the macros, the file with partial writes, the double buffering between front end and back
    end, and the logger as a whole: \<open>logging_step\<close> interleaves log statements, the start of the logger under
    \<^verbatim>\<open>pthread_once\<close>, and its back end thread.
  \<^item> \<open>ThreadPool\<close> (\<^verbatim>\<open>thread/thread.cc\<close>, \<^verbatim>\<open>thread/threadpool.cc\<close>): threads and the bounded task queue as a monitor.
  \<^item> this theory: what holds of the components put together.

  \<^bold>\<open>Groups of lemmas.\<close>
  Each theory shows that its operations keep an invariant (\<open>buf_inv\<close>, \<open>request_inv\<close>, \<open>conn_inv\<close>,
  \<open>net_inv\<close>, \<open>http_inv\<close>, \<open>whole_inv\<close>, \<open>kernel_inv\<close>, \<open>poll_inv\<close>, \<open>wired_inv\<close>, \<open>well_kept\<close>, \<open>sys_inv\<close>, \<open>logging_inv\<close>, \<open>thread_inv\<close>, \<open>monitor_inv\<close> and others), what each operation computes on every branch, and then its
  claims. Claims about interleavings are about every state that the step relation reaches.

  \<^bold>\<open>Bounds.\<close>
  Buffers and vectors have no upper bound, as in the code up to memory exhaustion. The log buffers have the sizes
  of the sources (4000 and 4000000 bytes). Machine integers that are formatted or stored in a socket
  address are words; the connection counter overflows at \<open>2 ^ 31 - 1\<close>; indices and sizes are \<open>nat\<close>. Bodies of
  responses are shorter than \<open>10 ^ 13\<close> bytes, so that their length fits the 32 bytes of its header line. The order of formatted
  time stamps is stated up to the day \<open>last_formatted\<close>, in the year 9994, since a year of five digits breaks it.
  The only bounded executions are those over a given list of answers of \<^verbatim>\<open>accept4\<close> or of turns of a
  loop; \<open>None\<close> then says that the loop still runs.

  \<^bold>\<open>Not modelled.\<close>
  The singleton template (unused, and it does not compile), log messages about the program itself, the signal mask for \<^verbatim>\<open>SIGPIPE\<close>, and the
  text of floating point numbers, which is a parameter. The tests are not modelled. Memory exhaustion and weak memory order are not
  modelled: a flag read without a lock is read at one of the steps. A critical section is one step of the models; \<open>Sync\<close> shows
  for the latch that nothing is lost by that. \<^verbatim>\<open>HttpServer\<close> is a record for the callback and a \<^verbatim>\<open>TcpServer\<close> for the rest. In \<open>LoopSystem\<close> the
  events of one poll are steps of their own, in any order and number, each in the phase in which its loop handles events;
  \<open>PollSystem\<close> replaces that by the batch of one report in the order of \<open>Selector\<close>. Descriptors are given by the environment at each accept; only \<open>Interest\<close> asks that they are not in use.
\<close>

section \<open>Properties that span components\<close>

text \<open>
  Claim C3. The kernel watches exactly the connections that are alive: in every reachable state of the whole server, on its event loops, with
  descriptors that are closed and used again, each loop's \<^verbatim>\<open>epoll\<close> holds the descriptor of every referenced connection of that loop, with
  the pointer to its handler and the mask of the handler, and an entry that is not one of the program's own always points to a
  referenced connection of that loop with that descriptor, so that no event is dispatched to a destroyed or to a wrong one; and whatever the
  server does next, no request it sends to the kernel fails.
\<close>

theorem interest_exact:
  assumes "(kernel_step cb ctl own)\<^sup>*\<^sup>* (server_init name threads, base) (s, ls)" and "small_bodies cb" and "epoll_ok ctl watch"
    and "\<forall>i fd. fd \<notin> own \<longrightarrow> watch (base i) fd = None"
  shows "(\<forall>k<num_conns (net_of s). referenced (net_of s) k \<longrightarrow>
        watch (ls (conn_disp (net_of s) k)) (fd_of (net_of s) k) = Some (k, eh_events (handler_of (net_of s) k)))
     \<and> (\<forall>i fd k m. fd \<notin> own \<and> watch (ls i) fd = Some (k, m) \<longrightarrow>
        k < num_conns (net_of s) \<and> referenced (net_of s) k \<and> conn_disp (net_of s) k = i \<and> fd_of (net_of s) k = fd)
     \<and> (\<forall>t. server_step cb s t \<and> fresh_fds own (net_of s) (net_of t) \<longrightarrow> (\<exists>ls'. kernel_step cb ctl own (s, ls) (t, ls')))"
proof -
  have k: "kernel_ok_lists ctl watch own base" using assms(3,4) by (simp add: kernel_ok_lists_def)
  have inv: "kernel_inv cb ctl watch own base (s, ls)" by (rule kernel.good_reach[OF assms(1) kernel_init[OF assms(2) k]])
  then have ex: "exact watch base (net_of s) ls" by (simp add: kernel_inv_def)
  have "k < num_conns (net_of s) \<and> referenced (net_of s) k \<and> conn_disp (net_of s) k = i \<and> fd_of (net_of s) k = fd"
    if "fd \<notin> own" "watch (ls i) fd = Some (k, m)" for i fd k m using entry_owner[OF inv that] by blast
  moreover have "\<exists>ls'. kernel_step cb ctl own (s, ls) (t, ls')"
    if t: "server_step cb s t" "fresh_fds own (net_of s) (net_of t)" for t
    using kernel_can[OF inv t] kernel_step.both[OF t] by blast
  ultimately show ?thesis using ex unfolding exact_def by blast
qed

theorem interest_exact_witness:
  "\<exists>(s :: server_sys) (ls :: nat \<Rightarrow> int \<Rightarrow> (nat \<times> mask) option). num_conns (net_of s) = 1 \<and> referenced (net_of s) 0
     \<and> (\<exists>m. ls (conn_disp (net_of s) 0) (fd_of (net_of s) 0) = Some (0, m))"
proof -
  let ?base = "\<lambda>_ :: nat. Map.empty :: int \<Rightarrow> (nat \<times> mask) option" and ?w = "\<lambda>e. e :: int \<Rightarrow> (nat \<times> mask) option"
  have base: "\<forall>i fd. fd \<notin> {} \<longrightarrow> ?w (?base i) fd = None" by simp
  have k: "kernel_ok_lists demo_ctl ?w {} ?base" using demo_ctl_ok base by (simp add: kernel_ok_lists_def)
  note inv0 = kernel_init[OF demo_small k, of "''s''" 1]
  have zero: "num_conns (net_of demo_ready) = 0" "num_conns (net_of (server_init ''s'' 1)) = 0"
    by (simp_all add: net_of_def flat_def demo_ready_def server_init_def http_init_def net_init_def)
  from kernel_lift[OF demo_ready_reached inv0] zero obtain ls1 where
    l1: "(kernel_step demo_callback demo_ctl {})\<^sup>*\<^sup>* (server_init ''s'' 1, ?base) (demo_ready, ls1)" by auto
  obtain n where n: "server_step demo_callback demo_ready (after_op 0 n demo_ready)" "num_conns n = 1"
    "net_queues n = (\<lambda>j. if j = 1 then [EstablishTask 0] else [])" by (rule demo_accepts)
  let ?s = "after_op 0 n demo_ready"
  have one: "num_conns (net_of ?s) = 1" "EstablishTask 0 \<in> set (net_queues (net_of ?s) 1)"
    using n(2,3) by (simp_all add: net_of_def flat_after_op)
  then have ref: "referenced (net_of ?s) 0" unfolding referenced_def by force
  have fresh: "fresh_fds {} (net_of demo_ready) (net_of ?s)" using zero(1) by (simp add: fresh_fds_def)
  from interest_exact[where watch = ?w and base = ?base, OF l1 demo_small demo_ctl_ok base] n(1) fresh obtain ls2 where
    "kernel_step demo_callback demo_ctl {} (demo_ready, ls1) (?s, ls2)" by blast
  with l1 have "(kernel_step demo_callback demo_ctl {})\<^sup>*\<^sup>* (server_init ''s'' 1, ?base) (?s, ls2)" by (rule rtranclp.rtrancl_into_rtrancl)
  from interest_exact[where watch = ?w and base = ?base, OF this demo_small demo_ctl_ok base] one(1) ref show ?thesis by (intro exI[of _ ?s] exI[of _ ls2]) auto
qed


text \<open>
  A connection of the HTTP server that the acceptor handed to an I/O thread is opened there:
  whenever the queued establishment runs, in any reachable state of the server, it runs in the thread
  of the connection and succeeds; afterwards the connection is connected, watched for input, carries
  a fresh parser context and is found in the server's map.
\<close>

theorem http_connection_opens:
  assumes "net_reach (Some OnConnection) (net_init name threads) n"
    and "net_queues n i = EstablishTask k # ts"
  shows "\<exists>n'. run_net_task (Some OnConnection) i (EstablishTask k)
           (n\<lparr>net_queues := (net_queues n)(i := ts)\<rparr>) = Inr n'
         \<and> i = conn_disp n' k \<and> conn_state (conns n' k) = CONNECTED
         \<and> cares_read (conn_handler (conns n' k)) \<and> conn_context (conns n' k) = Some context_init
         \<and> smap_get (connections (server n')) (conn_name n' k) = Some k"
proof -
  let ?m = "n\<lparr>net_queues := (net_queues n)(i := ts)\<rparr>"
  let ?c = "on_handler set_care_read ((conns ?m k)\<lparr>conn_state := CONNECTED\<rparr>)"
  have inv: "net_inv n" using net_reach_inv[OF assms(1) net_init_inv OnConnection_ok] .
  from task_ok[OF inv assms(2) OnConnection_ok] obtain n'
    where n': "run_net_task (Some OnConnection) i (EstablishTask k) ?m = Inr n'" "net_inv n'" by blast
  have call: "OnConnection ?c = Inr (set_context context_init ?c)"
    by (simp add: OnConnection_def is_connected_def on_handler_def)
  have loop: "i = conn_disp ?m k"
    using n'(1) by (auto simp: on_conn_object_def set_connection_established_def in_loop_def
        rbind_Inr_iff split: if_splits)
  have res: "n' = ?m\<lparr>conns := (conns ?m)(k := set_context context_init ?c)\<rparr>"
    using n'(1) call by (auto simp: on_conn_object_def set_connection_established_def in_loop_def
        user_call_def rbind_Inr_iff split: if_splits)
  have c: "conn_state (conns n' k) = CONNECTED" "cares_read (conn_handler (conns n' k))"
    "conn_context (conns n' k) = Some context_init"
    unfolding res by (simp_all add: set_context_def on_handler_def)
  have "k < num_conns n'"
    using inv assms(2) unfolding res net_inv_def by (fastforce dest: spec[of _ i])
  from net_inv_others[OF n'(2) this] obtain st where st: "stage_ok n' k st" by blast
  then have "in_map n' k" using c by (cases st) (auto simp: stage_ok_def)
  with n'(1) c loop res show ?thesis by (auto simp: in_map_def)
qed

theorem http_connection_opens_witness:
  "\<exists>(n :: net) n'. num_conns n = 1
     \<and> run_net_task (Some OnConnection) 1 (EstablishTask 0) (n\<lparr>net_queues := (net_queues n)(1 := [])\<rparr>) = Inr n'
     \<and> conn_state (conns n' 0) = CONNECTED"
proof -
  obtain n where n: "net_reach (Some OnConnection) (net_init ''s'' 2) n" "num_conns n = 1"
    "net_queues n 1 = [EstablishTask 0]" using demo_net by blast
  from http_connection_opens[OF n(1,3)] n(2) show ?thesis by blast
qed

end
